(* ===== verification/Prelude.thy ===== *)
theory Prelude
  imports Main "HOL-Library.Word"
begin

text \<open>
  Shared vocabulary of the development: the machine integers of \<^verbatim>\<open>kernel/types.h\<close>, the
  outcome type in which every kernel routine is written (a result, a \<^verbatim>\<open>panic\<close>, or a call that
  would put the calling process to sleep), its sequencing combinator with a congruence rule for
  the function package, and generic lemmas on words, bits and lists the components share.
\<close>

unbundle bit_operations_syntax

section \<open>Machine integers\<close>

type_synonym u8 = "8 word"
type_synonym u16 = "16 word"
type_synonym u32 = "32 word"
type_synonym u64 = "64 word"

section \<open>Outcomes of kernel code\<close>

text \<open>
  \<open>Ok\<close> is a normal return, \<open>Panic\<close> a call of \<^verbatim>\<open>panic()\<close> with its message,
  \<open>Blocked\<close> a call of \<^verbatim>\<open>sleep()\<close> or \<^verbatim>\<open>acquiresleep()\<close> that only another process can end.
\<close>

datatype 'a outcome = Ok 'a | Panic string | Blocked

fun obind :: "'a outcome \<Rightarrow> ('a \<Rightarrow> 'b outcome) \<Rightarrow> 'b outcome" where
  "obind (Ok x) f = f x"
| "obind (Panic e) f = Panic e"
| "obind Blocked f = Blocked"

fun is_ok :: "'a outcome \<Rightarrow> bool" where
  "is_ok (Ok x) = True"
| "is_ok (Panic e) = False"
| "is_ok Blocked = False"

named_theorems outcome_simps "inversion of successful sequences of kernel calls"

lemma obind_cong [fundef_cong]:
  assumes "m = m'" and "\<And>x. m' = Ok x \<Longrightarrow> f x = f' x"
  shows "obind m f = obind m' f'"
  using assms by (cases m') auto

lemma obind_Ok_iff [outcome_simps]:
  "obind m f = Ok y \<longleftrightarrow> (\<exists>x. m = Ok x \<and> f x = Ok y)"
  by (cases m) auto

lemma Ok_obind_iff [outcome_simps]:
  "Ok y = obind m f \<longleftrightarrow> (\<exists>x. m = Ok x \<and> f x = Ok y)"
  by (cases m) auto

lemma obind_Panic_iff [outcome_simps]:
  "obind m f = Panic e \<longleftrightarrow> m = Panic e \<or> (\<exists>x. m = Ok x \<and> f x = Panic e)"
  by (cases m) auto

lemma obind_assoc [simp]: "obind (obind m f) g = obind m (\<lambda>x. obind (f x) g)"
  by (cases m) auto

lemma obind_OkE:
  assumes "obind m f = Ok y" and "\<And>x. m = Ok x \<Longrightarrow> f x = Ok y \<Longrightarrow> P"
  shows P
  using assms by (cases m) auto

lemma is_ok_iff: "is_ok m \<longleftrightarrow> (\<exists>x. m = Ok x)"
  by (cases m) auto

lemma obind_is_okI:
  assumes "m = Ok x" and "is_ok (f x)"
  shows "is_ok (obind m f)"
  using assms by simp

section \<open>Table scans\<close>

text \<open>
  The kernel's fixed tables (files, descriptors, processes, disk descriptors) are searched by a
  loop that stops at the first entry with some property: \<open>first_from P i k\<close> is the first index among
  the \<open>k\<close> indices from \<open>i\<close> on that satisfies \<open>P\<close>.
\<close>

fun first_from :: "(nat \<Rightarrow> bool) \<Rightarrow> nat \<Rightarrow> nat \<Rightarrow> nat option" where
  "first_from P i 0 = None"
| "first_from P i (Suc k) = (if P i then Some i else first_from P (Suc i) k)"

lemma first_from_Some_iff:
  "first_from P i k = Some j \<longleftrightarrow> i \<le> j \<and> j < i + k \<and> P j \<and> (\<forall>m. i \<le> m \<longrightarrow> m < j \<longrightarrow> \<not> P m)"
proof (induction k arbitrary: i)
  case (Suc k)
  show ?case
  proof (cases "P i")
    case True
    then show ?thesis by (auto simp: le_less)
  next
    case False
    then show ?thesis
      using Suc [of "Suc i"] by (auto simp: Suc_le_eq) (metis le_neq_implies_less)+
  qed
qed auto

lemma first_from_None_iff: "first_from P i k = None \<longleftrightarrow> (\<forall>j. i \<le> j \<longrightarrow> j < i + k \<longrightarrow> \<not> P j)"
  by (induction k arbitrary: i) (auto simp: Suc_le_eq le_less, metis le_neq_implies_less less_eq_Suc_le)

lemma first_from_0_SomeD: "first_from P 0 n = Some j \<Longrightarrow> j < n \<and> P j"
  by (simp add: first_from_Some_iff)

section \<open>Words\<close>

lemma unat_plus_no_wrap:
  fixes a b :: "'a::len word"
  assumes "unat a + unat b < 2 ^ LENGTH('a)"
  shows "unat (a + b) = unat a + unat b"
  using assms by (simp add: unat_word_ariths)

lemma unat_minus_le:
  fixes a b :: "'a::len word"
  assumes "b \<le> a"
  shows "unat (a - b) = unat a - unat b"
  using assms by (simp add: unat_sub)

lemma unat_sub_if:
  fixes a b :: "'a::len word"
  shows "unat (a - b) = (if b \<le> a then unat a - unat b else unat a + 2 ^ LENGTH('a) - unat b)"
  by (simp add: unat_sub_if_size word_le_nat_alt word_size)

lemma unat_minus_1 [simp]: "unat (- 1 :: 'a::len word) = 2 ^ LENGTH('a) - 1"
  by (simp add: unsigned_minus_1_eq_mask mask_eq_exp_minus_1)

lemma unat_ucast_up:
  fixes w :: "'a::len word"
  assumes "LENGTH('a) \<le> LENGTH('b::len)"
  shows "unat (ucast w :: 'b word) = unat w"
proof -
  have "unat w < 2 ^ LENGTH('b)"
    using unsigned_less [of w] assms by (meson less_le_trans one_le_numeral power_increasing)
  then show ?thesis
    by (simp add: unsigned_ucast_eq take_bit_nat_eq_self)
qed

lemma word_minus_eq_0_iff [simp]: "(a::'a::len word) - b = 0 \<longleftrightarrow> a = b"
  by simp

lemma unat_less_power [simp]: "unat (w::'a::len word) < 2 ^ LENGTH('a)"
  by (fact unsigned_less)

lemma aligned_less_step:
  fixes a b k :: nat
  assumes "a mod k = 0" and "b mod k = 0" and "a < b"
  shows "a + k \<le> b"
proof -
  obtain i j where ij: "a = k * i" "b = k * j"
    using assms(1,2) by (auto simp: mod_eq_0_iff_dvd elim!: dvdE)
  then have "i < j" using assms(3) by auto
  then have "k * Suc i \<le> k * j" by (intro mult_le_mono) auto
  then show ?thesis using ij by simp
qed

lemma div_mod_eqI:
  fixes a b k :: nat
  assumes "a div k = b div k" and "a mod k = b mod k"
  shows "a = b"
  using assms by (metis div_mult_mod_eq)

section \<open>Lists\<close>

lemma nth_append_length_plus [simp]: "(xs @ ys) ! (length xs + i) = ys ! i"
  by (simp add: nth_append)

lemma list_update_same_conv2: "i < length xs \<Longrightarrow> xs ! i = v \<Longrightarrow> xs[i := v] = xs"
  by (simp add: list_update_same_conv)

lemma distinct_remove1_set: "distinct xs \<Longrightarrow> set (remove1 x xs) = set xs - {x}"
  by simp

end
