(* ===== verification/Memory.thy ===== *)
theory Memory
  imports Prelude
begin

text \<open>
  Byte-addressed memory and the routines of \<^verbatim>\<open>kernel/string.c\<close> on it. A memory maps every 64-bit
  address to a byte, and pointer arithmetic wraps as \<^verbatim>\<open>uint64\<close> does. Each C loop is a recursion that
  writes one byte per step; the lemmas give the closed form of every loop (which bytes change, to
  what), and the little-endian 64-bit load and store through which kernel structures that live in
  memory (the free list, page-table entries) are read and written.
\<close>

type_synonym memory = "u64 \<Rightarrow> u8"

section \<open>kernel/string.c\<close>

fun memset_loop :: "memory \<Rightarrow> u64 \<Rightarrow> u8 \<Rightarrow> nat \<Rightarrow> memory" where
  "memset_loop m cdst c 0 = m"
| "memset_loop m cdst c (Suc k) = memset_loop (m(cdst := c)) (cdst + 1) c k"

definition memset :: "memory \<Rightarrow> u64 \<Rightarrow> u32 \<Rightarrow> u32 \<Rightarrow> memory" where
  "memset m dst c n = memset_loop m dst (ucast c) (unat n)"

fun memcmp_loop :: "memory \<Rightarrow> u64 \<Rightarrow> u64 \<Rightarrow> nat \<Rightarrow> int" where
  "memcmp_loop m s1 s2 0 = 0"
| "memcmp_loop m s1 s2 (Suc k) =
     (if m s1 \<noteq> m s2 then uint (m s1) - uint (m s2) else memcmp_loop m (s1 + 1) (s2 + 1) k)"

definition memcmp :: "memory \<Rightarrow> u64 \<Rightarrow> u64 \<Rightarrow> u32 \<Rightarrow> int" where
  "memcmp m v1 v2 n = memcmp_loop m v1 v2 (unat n)"

fun memmove_down :: "memory \<Rightarrow> u64 \<Rightarrow> u64 \<Rightarrow> nat \<Rightarrow> memory" where
  "memmove_down m d s 0 = m"
| "memmove_down m d s (Suc k) = memmove_down (m(d - 1 := m (s - 1))) (d - 1) (s - 1) k"

fun memmove_up :: "memory \<Rightarrow> u64 \<Rightarrow> u64 \<Rightarrow> nat \<Rightarrow> memory" where
  "memmove_up m d s 0 = m"
| "memmove_up m d s (Suc k) = memmove_up (m(d := m s)) (d + 1) (s + 1) k"

definition memmove :: "memory \<Rightarrow> u64 \<Rightarrow> u64 \<Rightarrow> u32 \<Rightarrow> memory" where
  "memmove m d s n =
     (if s < d \<and> s + ucast n > d
      then memmove_down m (d + ucast n) (s + ucast n) (unat n)
      else memmove_up m d s (unat n))"

definition memcpy :: "memory \<Rightarrow> u64 \<Rightarrow> u64 \<Rightarrow> u32 \<Rightarrow> memory" where
  "memcpy m d s n = memmove m d s n"

fun strncmp_loop :: "memory \<Rightarrow> u64 \<Rightarrow> u64 \<Rightarrow> nat \<Rightarrow> int" where
  "strncmp_loop m p q 0 = 0"
| "strncmp_loop m p q (Suc k) =
     (if m p \<noteq> 0 \<and> m p = m q then strncmp_loop m (p + 1) (q + 1) k
      else uint (m p) - uint (m q))"

definition strncmp :: "memory \<Rightarrow> u64 \<Rightarrow> u64 \<Rightarrow> u32 \<Rightarrow> int" where
  "strncmp m p q n = strncmp_loop m p q (unat n)"

text \<open>
  \<^verbatim>\<open>strncpy\<close>: the first loop copies until it has copied a NUL or \<open>n\<close> bytes, the second pads
  with NULs (the counter is a C \<open>int\<close>, so a negative \<open>n\<close> copies nothing).
\<close>

fun strncpy_pad :: "memory \<Rightarrow> u64 \<Rightarrow> nat \<Rightarrow> memory" where
  "strncpy_pad m s 0 = m"
| "strncpy_pad m s (Suc k) = strncpy_pad (m(s := 0)) (s + 1) k"

fun strncpy_loop :: "memory \<Rightarrow> u64 \<Rightarrow> u64 \<Rightarrow> nat \<Rightarrow> memory" where
  "strncpy_loop m s t 0 = m"
| "strncpy_loop m s t (Suc k) =
     (if m t \<noteq> 0 then strncpy_loop (m(s := m t)) (s + 1) (t + 1) k
      else strncpy_pad (m(s := m t)) (s + 1) k)"

definition strncpy :: "memory \<Rightarrow> u64 \<Rightarrow> u64 \<Rightarrow> int \<Rightarrow> memory" where
  "strncpy m s t n = strncpy_loop m s t (nat n)"

text \<open>
  \<^verbatim>\<open>safestrcpy\<close>: copies at most \<open>n - 1\<close> bytes and always writes a final NUL. When the copied byte
  is NUL the loop has already advanced \<open>s\<close>, so a second NUL follows it.
\<close>

fun safestrcpy_loop :: "memory \<Rightarrow> u64 \<Rightarrow> u64 \<Rightarrow> nat \<Rightarrow> memory" where
  "safestrcpy_loop m s t 0 = m(s := 0)"
| "safestrcpy_loop m s t (Suc k) =
     (if m t \<noteq> 0 then safestrcpy_loop (m(s := m t)) (s + 1) (t + 1) k
      else (m(s := m t))(s + 1 := 0))"

definition safestrcpy :: "memory \<Rightarrow> u64 \<Rightarrow> u64 \<Rightarrow> int \<Rightarrow> memory" where
  "safestrcpy m s t n = (if n \<le> 0 then m else safestrcpy_loop m s t (nat (n - 1)))"

text \<open>\<^verbatim>\<open>strlen\<close> does not return on a memory with no NUL byte.\<close>

partial_function (option) strlen_loop :: "memory \<Rightarrow> u64 \<Rightarrow> nat \<Rightarrow> nat option" where
  "strlen_loop m s n = (if m (s + of_nat n) = 0 then Some n else strlen_loop m s (Suc n))"

definition strlen :: "memory \<Rightarrow> u64 \<Rightarrow> nat option" where
  "strlen m s = strlen_loop m s 0"

section \<open>Little-endian loads and stores\<close>

text \<open>
  \<open>load_le m a k\<close> reads \<open>k\<close> bytes (at most eight) as a little-endian integer and
  \<open>store_le m a v k\<close> writes the low \<open>k\<close> bytes of \<open>v\<close>; a 64-bit pointer or page-table
  entry uses \<open>k = 8\<close>.
\<close>

fun load_le :: "memory \<Rightarrow> u64 \<Rightarrow> nat \<Rightarrow> u64" where
  "load_le m a 0 = 0"
| "load_le m a (Suc k) = ucast (m a) OR push_bit 8 (load_le m (a + 1) k)"

fun store_le :: "memory \<Rightarrow> u64 \<Rightarrow> u64 \<Rightarrow> nat \<Rightarrow> memory" where
  "store_le m a v 0 = m"
| "store_le m a v (Suc k) = store_le (m(a := ucast v)) (a + 1) (drop_bit 8 v) k"

definition load64 :: "memory \<Rightarrow> u64 \<Rightarrow> u64" where
  "load64 m a = load_le m a 8"

definition store64 :: "memory \<Rightarrow> u64 \<Rightarrow> u64 \<Rightarrow> memory" where
  "store64 m a v = store_le m a v 8"

named_theorems mem_simps "closed forms of the memory routines"

section \<open>Closed forms of the loops\<close>

lemma word_add_1_offset:
  fixes a d :: u64
  assumes "a \<noteq> d"
  shows "unat (a - (d + 1)) = unat (a - d) - 1" and "0 < unat (a - d)"
proof -
  have "a - d \<noteq> 0" using assms by simp
  then show "0 < unat (a - d)" by (simp add: unat_gt_0)
  have "unat (a - d - 1) = unat (a - d) - 1"
    using \<open>a - d \<noteq> 0\<close> by (simp add: unat_minus_one)
  then show "unat (a - (d + 1)) = unat (a - d) - 1"
    by (simp add: diff_diff_eq)
qed

lemma memset_loop_apply [mem_simps]:
  "n \<le> 2 ^ 64 \<Longrightarrow> memset_loop m d c n a = (if unat (a - d) < n then c else m a)"
proof (induction n arbitrary: m d)
  case 0
  then show ?case by simp
next
  case (Suc n)
  show ?case
  proof (cases "a = d")
    case True
    have "unat (a - (d + 1)) = 2 ^ 64 - 1"
      using True by simp
    then show ?thesis using Suc True by simp
  next
    case False
    then show ?thesis
      using Suc word_add_1_offset [OF False] by auto
  qed
qed

lemma memset_apply [mem_simps]:
  "memset m d c n a = (if unat (a - d) < unat n then ucast c else m a)"
proof -
  have "unat n \<le> 2 ^ 64"
    using unat_less_power [of n] by simp
  then show ?thesis
    by (simp add: memset_def memset_loop_apply)
qed


lemma memmove_up_apply:
  assumes "n \<le> 2 ^ 64" and "d = s \<or> n \<le> unat (d - s)"
  shows "memmove_up m d s n a = (if unat (a - d) < n then m (s + (a - d)) else m a)"
  using assms
proof (induction n arbitrary: m d s)
  case 0
  then show ?case by simp
next
  case (Suc n)
  have IH: "memmove_up (m(d := m s)) (d + 1) (s + 1) n a =
      (if unat (a - (d + 1)) < n then (m(d := m s)) (s + 1 + (a - (d + 1))) else (m(d := m s)) a)"
    using Suc.prems by (intro Suc.IH) auto
  show ?case
  proof (cases "a = d")
    case True
    then have "unat (a - (d + 1)) = 2 ^ 64 - 1"
      by simp
    then show ?thesis using Suc.prems IH True by simp
  next
    case False
    have shift: "s + 1 + (a - (d + 1)) = s + (a - d)"
      by (simp add: algebra_simps)
    have src: "(m(d := m s)) (s + (a - d)) = m (s + (a - d))" if "unat (a - d) < Suc n"
    proof (cases "s + (a - d) = d")
      case True
      then have "d - s = a - d" by (simp add: algebra_simps)
      then show ?thesis using that Suc.prems True by auto
    next
      case False
      then show ?thesis by simp
    qed
    show ?thesis
      using IH shift src False word_add_1_offset [OF False] by auto
  qed
qed

lemma memmove_down_apply:
  assumes "n \<le> 2 ^ 64" and "d = s \<or> n \<le> unat (s - d)"
  shows "memmove_down m d s n a =
    (if unat (d - 1 - a) < n then m (s - 1 - (d - 1 - a)) else m a)"
  using assms
proof (induction n arbitrary: m d s)
  case 0
  then show ?case by simp
next
  case (Suc n)
  let ?m = "m(d - 1 := m (s - 1))"
  have IH: "memmove_down ?m (d - 1) (s - 1) n a =
      (if unat (d - 1 - 1 - a) < n then ?m (s - 1 - 1 - (d - 1 - 1 - a)) else ?m a)"
    using Suc.prems by (intro Suc.IH) auto
  show ?case
  proof (cases "a = d - 1")
    case True
    then have "unat (d - 1 - 1 - a) = 2 ^ 64 - 1"
      by simp
    then show ?thesis using Suc.prems IH True by simp
  next
    case False
    have off: "unat (d - 1 - (a + 1)) = unat (d - 1 - a) - 1" "0 < unat (d - 1 - a)"
      using word_add_1_offset [of "d - 1" a] False by auto
    have shift: "s - 1 - 1 - (d - 1 - 1 - a) = s - 1 - (d - 1 - a)"
      and shift': "d - 1 - 1 - a = d - 1 - (a + 1)"
      by (simp_all add: algebra_simps)
    have src: "?m (s - 1 - (d - 1 - a)) = m (s - 1 - (d - 1 - a))" if "unat (d - 1 - a) < Suc n"
    proof (cases "s - 1 - (d - 1 - a) = d - 1")
      case True
      then have sd: "s - d = d - 1 - a" by (simp add: algebra_simps)
      have "d - 1 - a \<noteq> 0" using False by (metis right_minus_eq)
      then have "s \<noteq> d" using sd by (metis right_minus_eq)
      then have "Suc n \<le> unat (d - 1 - a)" using Suc.prems sd by simp
      then show ?thesis using that by simp
    next
      case False
      then show ?thesis by simp
    qed
    have "memmove_down ?m (d - 1) (s - 1) n a =
        (if unat (d - 1 - a) - 1 < n then ?m (s - 1 - (d - 1 - a)) else ?m a)"
      using IH by (simp only: shift shift' [symmetric]) (simp only: shift' off(1))
    then show ?thesis
      using src False off(2) by (auto split: if_splits)
  qed
qed

text \<open>
  \<^verbatim>\<open>memmove\<close> copies correctly whatever the overlap: the destination range holds the bytes the
  source range held before the call. Only the source range must not run past the end of the
  address space.
\<close>

lemma memmove_apply:
  assumes "unat s + unat n < 2 ^ 64"
  shows "memmove m d s n a = (if unat (a - d) < unat n then m (s + (a - d)) else m a)"
proof -
  have n32: "unat n < 2 ^ 32" using unat_less_power [of n] by simp
  have un: "unat (ucast n :: u64) = unat n"
    by (simp add: unat_ucast_up)
  have sn: "unat (s + ucast n) = unat s + unat n"
    using assms un by (simp add: unat_plus_no_wrap)
  show ?thesis
  proof (cases "s < d \<and> s + ucast n > d")
    case True
    have "unat d < unat s + unat n" "unat s < unat d"
      using True sn by (simp_all add: word_less_nat_alt)
    then have "unat n \<le> unat (s + ucast n - (d + ucast n))"
      using n32 unat_less_power [of d] by (simp add: unat_sub_if word_le_nat_alt)
    then have eq: "memmove m d s n a = (if unat (d + ucast n - 1 - a) < unat n
        then m (s + ucast n - 1 - (d + ucast n - 1 - a)) else m a)"
      using True n32 by (simp add: memmove_def memmove_down_apply)
    have "unat (d + ucast n - 1 - a) < unat n \<longleftrightarrow> unat (a - d) < unat n"
    proof -
      have "unat (ucast n - 1 - x) < unat n \<longleftrightarrow> unat x < unat n" for x :: u64
      proof (cases "n = 0")
        case False
        then have "unat (ucast n - 1 :: u64) = unat n - 1" "0 < unat n"
          using un by (metis unat_0_iff unat_minus_one, metis unat_gt_0)
        then show ?thesis
          using unat_less_power [of x] unat_sub_if [of "ucast n - 1" x]
          by (auto simp: word_le_nat_alt simp del: unat_less_power split: if_splits)
      qed simp
      from this [of "a - d"] show ?thesis by (simp add: algebra_simps)
    qed
    moreover have "s + ucast n - 1 - (d + ucast n - 1 - a) = s + (a - d)"
      by (simp add: algebra_simps)
    ultimately show ?thesis using eq by simp
  next
    case False
    have "d = s \<or> unat n \<le> unat (d - s)"
    proof (cases "s < d")
      case True
      with False have "unat s + unat n \<le> unat d"
        using sn by (simp add: word_less_nat_alt not_less)
      then show ?thesis using True by (auto simp: unat_minus_le less_imp_le)
    next
      case ge: False
      show ?thesis
      proof (cases "d = s")
        case True
        then show ?thesis by simp
      next
        case ne: False
        have "unat d < unat s"
          using ge ne by (auto simp: not_less word_le_nat_alt word_unat_eq_iff)
        then show ?thesis
          using assms by (intro disjI2) (simp add: unat_sub_if word_le_nat_alt)
      qed
    qed
    then show ?thesis
      using False n32 by (auto simp: memmove_def memmove_up_apply)
  qed
qed

text \<open>Comparison and bounded string routines decide equality of the ranges they compare.\<close>

lemma memcmp_loop_0_iff:
  "memcmp_loop m p q n = 0 \<longleftrightarrow> (\<forall>i<n. m (p + of_nat i) = m (q + of_nat i))"
proof (induction n arbitrary: p q)
  case 0
  then show ?case by simp
next
  case (Suc n)
  have "uint (m p) - uint (m q) = 0 \<longleftrightarrow> m p = m q" by (simp add: word_uint_eq_iff)
  then show ?case
    by (simp add: Suc.IH All_less_Suc2 add.assoc)
qed

lemma memcmp_0_iff:
  "memcmp m p q n = 0 \<longleftrightarrow> (\<forall>i<unat n. m (p + of_nat i) = m (q + of_nat i))"
  by (simp add: memcmp_def memcmp_loop_0_iff)

text \<open>\<open>strncmp\<close> answers 0 when the ranges agree up to the first NUL or the first \<open>n\<close> bytes.\<close>

lemma strncmp_loop_0_iff:
  "strncmp_loop m p q n = 0 \<longleftrightarrow>
   (\<forall>i<n. (\<forall>j<i. m (p + of_nat j) \<noteq> 0) \<longrightarrow> m (p + of_nat i) = m (q + of_nat i))"
proof (induction n arbitrary: p q)
  case 0
  then show ?case by simp
next
  case (Suc n)
  have "uint (m p) - uint (m q) = 0 \<longleftrightarrow> m p = m q" by (simp add: word_uint_eq_iff)
  then show ?case
    by (cases "m p = 0"; cases "m p = m q") (simp_all add: Suc.IH All_less_Suc2 add.assoc)
qed

section \<open>Loads and stores\<close>

lemma bit_load_le:
  assumes "n < 64"
  shows "bit (load_le m a k) n \<longleftrightarrow> n < 8 * k \<and> bit (m (a + of_nat (n div 8))) (n mod 8)"
  using assms
proof (induction k arbitrary: a n)
  case 0
  then show ?case by simp
next
  case (Suc k)
  show ?case
  proof (cases "n < 8")
    case True
    then show ?thesis using Suc.prems by (simp add: bit_simps)
  next
    case False
    then have "n div 8 = Suc ((n - 8) div 8)" "(n - 8) mod 8 = n mod 8"
      by (auto simp: div_if mod_if)
    moreover have "n - 8 < 8 * k \<longleftrightarrow> n < 8 * Suc k"
      using False by auto
    moreover have "\<not> bit (m a) n"
      using False bit_imp_le_length [of "m a" n] by auto
    ultimately show ?thesis
      using False Suc.prems Suc.IH [of "n - 8" "a + 1"]
      by (simp add: bit_simps add.assoc)
  qed
qed

lemma store_le_apply:
  "k \<le> 2 ^ 64 \<Longrightarrow>
   store_le m a v k x = (if unat (x - a) < k then ucast (drop_bit (8 * unat (x - a)) v) else m x)"
proof (induction k arbitrary: m a v)
  case 0
  then show ?case by simp
next
  case (Suc k)
  show ?case
  proof (cases "x = a")
    case True
    then have "unat (x - (a + 1)) = 2 ^ 64 - 1" by simp
    then show ?thesis using Suc True by simp
  next
    case False
    then have "8 + 8 * (unat (x - a) - 1) = 8 * unat (x - a)"
      using word_add_1_offset [OF False] by simp
    then show ?thesis
      using Suc word_add_1_offset [OF False] False
      by (auto simp: drop_bit_drop_bit add.commute)
  qed
qed

lemma store64_other: "8 \<le> unat (x - a) \<Longrightarrow> store64 m a v x = m x"
  by (simp add: store64_def store_le_apply)

lemma load64_cong:
  assumes "\<And>i. unat i < 8 \<Longrightarrow> m (a + i) = m' (a + i)"
  shows "load64 m a = load64 m' a"
proof (rule bit_eqI)
  fix n
  assume "possible_bit TYPE(64 word) n"
  then have n: "n < 64" by simp
  then have "unat (of_nat (n div 8) :: u64) < 8"
    by (simp add: unsigned_of_nat take_bit_nat_eq_self)
  then show "bit (load64 m a) n = bit (load64 m' a) n"
    using n assms by (simp add: load64_def bit_load_le)
qed

lemma load64_store64_same [simp]: "load64 (store64 m a v) a = v"
proof (rule bit_eqI)
  fix n
  assume "possible_bit TYPE(64 word) n"
  then have n: "n < 64" by simp
  then have "unat (of_nat (n div 8) :: u64) = n div 8"
    by (simp add: unsigned_of_nat take_bit_nat_eq_self)
  moreover have "n div 8 < 8" using n by simp
  ultimately show "bit (load64 (store64 m a v) a) n = bit v n"
    using n by (simp add: load64_def bit_load_le store64_def store_le_apply bit_simps)
qed

lemma load64_store64_other:
  assumes "8 \<le> unat (a - b)" and "8 \<le> unat (b - a)"
  shows "load64 (store64 m b v) a = load64 m a"
proof (rule load64_cong)
  fix i :: u64
  assume i: "unat i < 8"
  have "unat (a - b) + unat i < 2 ^ 64"
    using assms i by (auto simp: unat_sub_if word_le_nat_alt split: if_splits)
  then have "unat (a - b + i) = unat (a - b) + unat i"
    by (simp add: unat_plus_no_wrap)
  then have "8 \<le> unat (a + i - b)"
    using assms by (simp add: algebra_simps)
  then show "store64 m b v (a + i) = m (a + i)"
    by (rule store64_other)
qed

end
