(* ===== verification/Riscv.thy ===== *)
theory Riscv
  imports Memory
begin

text \<open>
  The address arithmetic of \<^verbatim>\<open>kernel/riscv.h\<close> and \<^verbatim>\<open>kernel/memlayout.h\<close>: page rounding, the
  Sv39 page-table entry format, the three 9-bit indices of a virtual address, and the constants of
  the memory layout. The lemmas show that entry packing and unpacking are inverse on page
  addresses, and that the three indices determine the page of an address below \<open>MAXVA\<close>.
\<close>

section \<open>kernel/riscv.h and kernel/memlayout.h\<close>

definition PGSIZE :: u64 where "PGSIZE = 4096"

definition PGROUNDUP :: "u64 \<Rightarrow> u64" where
  "PGROUNDUP sz = (sz + PGSIZE - 1) AND NOT (PGSIZE - 1)"

definition PGROUNDDOWN :: "u64 \<Rightarrow> u64" where
  "PGROUNDDOWN a = a AND NOT (PGSIZE - 1)"

definition PTE_V :: u64 where "PTE_V = push_bit 0 1"
definition PTE_R :: u64 where "PTE_R = push_bit 1 1"
definition PTE_W :: u64 where "PTE_W = push_bit 2 1"
definition PTE_X :: u64 where "PTE_X = push_bit 3 1"
definition PTE_U :: u64 where "PTE_U = push_bit 4 1"

definition PA2PTE :: "u64 \<Rightarrow> u64" where
  "PA2PTE pa = push_bit 10 (drop_bit 12 pa)"

definition PTE2PA :: "u64 \<Rightarrow> u64" where
  "PTE2PA pte = push_bit 12 (drop_bit 10 pte)"

definition PTE_FLAGS :: "u64 \<Rightarrow> u64" where
  "PTE_FLAGS pte = pte AND 0x3FF"

definition PXSHIFT :: "nat \<Rightarrow> nat" where
  "PXSHIFT level = 12 + 9 * level"

definition PX :: "nat \<Rightarrow> u64 \<Rightarrow> u64" where
  "PX level va = drop_bit (PXSHIFT level) va AND 0x1FF"

definition MAXVA :: u64 where
  "MAXVA = push_bit (9 + 9 + 9 + 12 - 1) 1"

definition MAKE_SATP :: "u64 \<Rightarrow> u64" where
  "MAKE_SATP pagetable = push_bit 60 8 OR drop_bit 12 pagetable"

definition KERNBASE :: u64 where "KERNBASE = 0x80000000"
definition PHYSTOP :: u64 where "PHYSTOP = KERNBASE + 128 * 1024 * 1024"
definition TRAMPOLINE :: u64 where "TRAMPOLINE = MAXVA - PGSIZE"
definition TRAPFRAME :: u64 where "TRAPFRAME = TRAMPOLINE - PGSIZE"

definition KSTACK :: "nat \<Rightarrow> u64" where
  "KSTACK p = TRAMPOLINE - (of_nat p + 1) * 2 * PGSIZE"

lemmas pte_bit_defs = PTE_V_def PTE_R_def PTE_W_def PTE_X_def PTE_U_def

lemma MAXVA_eq: "MAXVA = 2 ^ 38"
  by (simp add: MAXVA_def push_bit_eq_mult)

section \<open>Page rounding\<close>

definition page_aligned :: "u64 \<Rightarrow> bool" where
  "page_aligned a \<longleftrightarrow> unat a mod 4096 = 0"

lemma PGSIZE_minus_1: "PGSIZE - 1 = mask 12"
  by (simp add: PGSIZE_def mask_eq_exp_minus_1)

lemma PGROUNDDOWN_bits: "PGROUNDDOWN a = push_bit 12 (drop_bit 12 a)"
  unfolding PGROUNDDOWN_def PGSIZE_minus_1
  by (rule bit_eqI) (auto simp: bit_simps)

lemma unat_PGROUNDDOWN: "unat (PGROUNDDOWN a) = unat a div 4096 * 4096"
proof -
  have "unat a < 2 ^ 64" using unat_less_power [of a] by simp
  then have "unat a div 4096 * 4096 < 2 ^ 64"
    by (rule le_less_trans [OF div_times_less_eq_dividend])
  moreover have "unat (PGROUNDDOWN a) = take_bit 64 (push_bit 12 (drop_bit 12 (unat a)))"
    by (simp only: PGROUNDDOWN_bits unsigned_push_bit_eq unat_drop_bit_eq) simp
  ultimately show ?thesis
    by (simp add: take_bit_nat_eq_self push_bit_eq_mult drop_bit_eq_div)
qed

lemma page_aligned_PGROUNDDOWN [simp]: "page_aligned (PGROUNDDOWN a)"
  by (simp add: page_aligned_def unat_PGROUNDDOWN)

lemma PGROUNDDOWN_le: "PGROUNDDOWN a \<le> a"
  by (simp add: word_le_nat_alt unat_PGROUNDDOWN)

lemma PGROUNDDOWN_idem [simp]: "page_aligned a \<Longrightarrow> PGROUNDDOWN a = a"
  by (auto simp: word_unat_eq_iff unat_PGROUNDDOWN page_aligned_def)

lemma page_offset_less: "unat (a - PGROUNDDOWN a) < 4096"
  by (simp add: unat_minus_le PGROUNDDOWN_le unat_PGROUNDDOWN minus_div_mult_eq_mod)

lemma PGROUNDUP_down: "PGROUNDUP a = PGROUNDDOWN (a + 4095)"
  by (simp add: PGROUNDUP_def PGROUNDDOWN_def PGSIZE_def add.commute)

section \<open>Page-table entries\<close>

lemma page_aligned_bits: "page_aligned a \<longleftrightarrow> (\<forall>n<12. \<not> bit a n)"
proof
  assume "page_aligned a"
  then have "a = push_bit 12 (drop_bit 12 a)"
    using PGROUNDDOWN_bits [of a] by simp
  then show "\<forall>n<12. \<not> bit a n"
    by (metis bit_push_bit_iff leD)
next
  assume "\<forall>n<12. \<not> bit a n"
  then have "bit a n = bit (push_bit 12 (drop_bit 12 a)) n" if "n < 64" for n
    using that by (cases "n < 12") (simp_all add: bit_simps)
  then have "a = push_bit 12 (drop_bit 12 a)"
    by (intro bit_eqI) simp
  then show "page_aligned a"
    using PGROUNDDOWN_bits [of a] page_aligned_PGROUNDDOWN [of a] by simp
qed

lemma PTE2PA_PA2PTE [simp]:
  assumes "page_aligned pa" and "flags < 1024"
  shows "PTE2PA (PA2PTE pa OR flags) = pa"
proof -
  have "take_bit 10 flags = flags"
    using assms(2)
    by (simp add: word_unat_eq_iff unsigned_take_bit_eq take_bit_nat_eq_self word_less_nat_alt)
  then have fl: "\<not> bit flags n" if "10 \<le> n" for n
    using that by (metis bit_take_bit_iff leD)
  have pa: "\<not> bit pa n" if "n < 12" for n
    using assms(1) that by (simp add: page_aligned_bits)
  have "bit (PTE2PA (PA2PTE pa OR flags)) n = bit pa n" if "n < 64" for n
    using that pa [of n] fl [of "n - 2"]
    by (cases "n < 12") (auto simp: PTE2PA_def PA2PTE_def bit_simps fl)
  then show ?thesis
    by (intro bit_eqI) simp
qed

lemma PTE_FLAGS_less: "PTE_FLAGS pte < 1024"
proof -
  have "(0x3FF :: u64) = mask 10" by (simp add: mask_eq_exp_minus_1)
  then have "PTE_FLAGS pte = take_bit 10 pte"
    by (simp add: PTE_FLAGS_def take_bit_eq_mask)
  moreover have "take_bit 10 (unat pte) < 2 ^ 10" by (rule take_bit_nat_less_exp)
  ultimately show ?thesis
    by (simp add: word_less_nat_alt unsigned_take_bit_eq)
qed

lemma and_PTE_eq_0_iff:
  "x AND PTE_V = 0 \<longleftrightarrow> \<not> bit x 0" "x AND PTE_R = 0 \<longleftrightarrow> \<not> bit x 1"
  "x AND PTE_W = 0 \<longleftrightarrow> \<not> bit x 2" "x AND PTE_X = 0 \<longleftrightarrow> \<not> bit x 3"
  "x AND PTE_U = 0 \<longleftrightarrow> \<not> bit x 4"
  using and_exp_eq_0_iff_not_bit [of x 0] and_exp_eq_0_iff_not_bit [of x 1]
    and_exp_eq_0_iff_not_bit [of x 2] and_exp_eq_0_iff_not_bit [of x 3]
    and_exp_eq_0_iff_not_bit [of x 4]
  by (simp_all add: pte_bit_defs push_bit_of_1)

lemma bit_PA2PTE_low: "n < 10 \<Longrightarrow> \<not> bit (PA2PTE pa) n"
  by (simp add: PA2PTE_def bit_simps)

lemma page_aligned_PTE2PA [simp]: "page_aligned (PTE2PA pte)"
  by (simp add: page_aligned_bits PTE2PA_def bit_simps)

section \<open>Page-table indices\<close>

lemma unat_PX: "unat (PX level va) = unat va div 2 ^ (12 + 9 * level) mod 512"
proof -
  have "(0x1FF :: u64) = mask 9" by (simp add: mask_eq_exp_minus_1)
  then have "PX level va = take_bit 9 (drop_bit (12 + 9 * level) va)"
    by (simp add: PX_def PXSHIFT_def take_bit_eq_mask)
  then have "unat (PX level va) = take_bit 9 (drop_bit (12 + 9 * level) (unat va))"
    by (simp only: unsigned_take_bit_eq unat_drop_bit_eq)
  then show ?thesis
    by (simp add: take_bit_eq_mod drop_bit_eq_div)
qed

lemma PX_less: "unat (PX level va) < 512"
  by (simp add: unat_PX)

lemma PX_inj:
  assumes "va < MAXVA" "va' < MAXVA"
    and "PX 2 va = PX 2 va'" "PX 1 va = PX 1 va'" "PX 0 va = PX 0 va'"
  shows "PGROUNDDOWN va = PGROUNDDOWN va'"
proof -
  let ?p = "unat va div 4096" and ?q = "unat va' div 4096"
  have "?p < 2 ^ 26" "?q < 2 ^ 26"
    using assms(1,2) by (simp_all add: MAXVA_eq word_less_nat_alt)
  moreover have "?p mod 512 = ?q mod 512"
    using arg_cong [OF assms(5), of unat] by (simp add: unat_PX)
  moreover have "?p div 512 mod 512 = ?q div 512 mod 512"
    using arg_cong [OF assms(4), of unat] by (simp add: unat_PX div_mult2_eq [symmetric])
  moreover have "?p div 262144 mod 512 = ?q div 262144 mod 512"
    using arg_cong [OF assms(3), of unat] by (simp add: unat_PX div_mult2_eq [symmetric])
  ultimately have "?p div 262144 = ?q div 262144" "?p div 512 mod 512 = ?q div 512 mod 512"
      "?p mod 512 = ?q mod 512"
    by (simp_all add: less_mult_imp_div_less)
  then have "?p div 512 div 512 = ?q div 512 div 512" "?p div 512 mod 512 = ?q div 512 mod 512"
    by (simp_all add: div_mult2_eq [symmetric])
  then have "?p div 512 = ?q div 512"
    by (rule div_mod_eqI)
  then have "?p = ?q"
    using \<open>?p mod 512 = ?q mod 512\<close> by (rule div_mod_eqI)
  then show ?thesis by (simp add: word_unat_eq_iff unat_PGROUNDDOWN)
qed

lemma PX_PGROUNDDOWN [simp]: "PX level (PGROUNDDOWN va) = PX level va"
proof -
  have "unat va div 4096 * 4096 div 2 ^ (12 + 9 * level) = unat va div 2 ^ (12 + 9 * level)"
    by (simp add: power_add div_mult2_eq)
  then show ?thesis by (simp add: word_unat_eq_iff unat_PX unat_PGROUNDDOWN)
qed

text \<open>The address of entry \<open>i\<close> of the page-table page at \<open>pt\<close>: \<^verbatim>\<open>&pagetable[i]\<close>.\<close>

definition pte_addr :: "u64 \<Rightarrow> u64 \<Rightarrow> u64" where
  "pte_addr pt i = pt + 8 * i"


section \<open>Pages as sets of addresses\<close>

definition in_page :: "u64 \<Rightarrow> u64 \<Rightarrow> bool" where
  "in_page p x \<longleftrightarrow> unat (x - p) < 4096"

lemma in_page_iff:
  assumes "page_aligned p"
  shows "in_page p x \<longleftrightarrow> PGROUNDDOWN x = p"
proof
  assume "in_page p x"
  have p: "unat p \<le> 2 ^ 64 - 4096"
  proof -
    have "unat p < 2 ^ 64" "unat p mod 4096 = 0"
      using unat_less_power [of p] assms by (simp_all add: page_aligned_def)
    then show ?thesis by auto
  qed
  have "x = p + (x - p)" by simp
  then have x: "unat x = unat p + unat (x - p)"
    using \<open>in_page p x\<close> p unat_plus_no_wrap [of p "x - p"] by (simp add: in_page_def)
  obtain k where "unat p = 4096 * k"
    using assms by (auto simp: page_aligned_def)
  then show "PGROUNDDOWN x = p"
    using x \<open>in_page p x\<close> by (simp add: word_unat_eq_iff unat_PGROUNDDOWN in_page_def)
next
  assume "PGROUNDDOWN x = p"
  then show "in_page p x"
    using page_offset_less [of x] by (auto simp: in_page_def)
qed

lemma in_page_disjoint:
  "page_aligned p \<Longrightarrow> page_aligned q \<Longrightarrow> p \<noteq> q \<Longrightarrow> in_page p x \<Longrightarrow> \<not> in_page q x"
  by (simp add: in_page_iff)

lemma in_page_word:
  assumes "unat i < 512" and "unat j < 8"
  shows "in_page p (p + 8 * i + j)"
proof -
  have "unat (8 * i) = 8 * unat i"
    using assms by (simp add: unat_word_ariths)
  moreover have "unat (8 * i + j) = unat (8 * i) + unat j"
    using assms calculation by (intro unat_plus_no_wrap) simp
  ultimately show ?thesis
    using assms by (simp add: in_page_def algebra_simps)
qed

lemma load64_in_page_cong:
  assumes "\<And>x. in_page p x \<Longrightarrow> m x = m' x" and "unat i < 512"
  shows "load64 m (pte_addr p i) = load64 m' (pte_addr p i)"
  unfolding pte_addr_def
  by (rule load64_cong) (simp add: assms in_page_word)

lemma pte_addr_0 [simp]: "pte_addr p 0 = p"
  by (simp add: pte_addr_def)

lemma memset_page:
  "memset m p c 4096 x = (if in_page p x then ucast c else m x)"
  by (simp add: memset_apply in_page_def)

lemma store64_in_page:
  assumes "unat i < 512" and "\<not> in_page p x"
  shows "store64 m (pte_addr p i) v x = m x"
proof (rule store64_other, rule ccontr)
  assume "\<not> 8 \<le> unat (x - pte_addr p i)"
  then have "in_page p (p + 8 * i + (x - pte_addr p i))"
    using assms by (intro in_page_word) simp_all
  then show False using assms by (simp add: pte_addr_def)
qed

lemma load64_store64_pte:
  assumes "page_aligned p" "page_aligned q" "unat i < 512" "unat j < 512" "(p, i) \<noteq> (q, j)"
  shows "load64 (store64 m (pte_addr q j) v) (pte_addr p i) = load64 m (pte_addr p i)"
proof (cases "p = q")
  case False
  then have "store64 m (pte_addr q j) v x = m x" if "in_page p x" for x
    using that assms in_page_disjoint [of p q x] by (intro store64_in_page) auto
  then show ?thesis using assms by (intro load64_in_page_cong) auto
next
  case True
  then have "i \<noteq> j" using assms by auto
  have 8: "8 \<le> unat (8 * a - 8 * b)" if "a \<noteq> b" "unat a < 512" "unat b < 512" for a b :: u64
  proof -
    have "unat (8 * a) = 8 * unat a" "unat (8 * b) = 8 * unat b" "unat a \<noteq> unat b"
      using that by (simp_all add: unat_word_ariths word_unat_eq_iff)
    then show ?thesis
      using that by (cases "unat b \<le> unat a") (simp_all add: unat_sub_if word_le_nat_alt)
  qed
  show ?thesis
    using True 8 [of i j] 8 [of j i] \<open>i \<noteq> j\<close> assms
    by (intro load64_store64_other) (simp_all add: pte_addr_def)
qed

end
