(* ===== verification/Kalloc.thy ===== *)
theory Kalloc
  imports Riscv
begin

text \<open>
  The physical page allocator, \<^verbatim>\<open>kernel/kalloc.c\<close>. The state is physical memory and the head of the
  free list; the list itself runs through the first eight bytes of every free page, as in the code.
  The allocator's critical sections hold \<^verbatim>\<open>kmem.lock\<close> and are atomic here (see \<open>Locks\<close>).
  The locale \<open>page_allocator\<close> states what the rest of the kernel relies on; \<open>kmem_rep\<close> relates
  a state to the set of free pages it represents, and the interpretation \<open>kmem\<close> discharges
  the contract for this allocator.
\<close>

section \<open>kernel/kalloc.c\<close>

record phys =
  pmem :: memory
  freelist :: u64

definition kfree :: "u64 \<Rightarrow> u64 \<Rightarrow> phys \<Rightarrow> phys outcome" where
  "kfree kend pa s =
     (if pa mod PGSIZE \<noteq> 0 \<or> pa < kend \<or> pa \<ge> PHYSTOP then Panic ''kfree''
      else
        let m = memset (pmem s) pa 1 (ucast PGSIZE);
            r = pa
        in Ok (s\<lparr>pmem := store64 m r (freelist s), freelist := r\<rparr>))"

definition kalloc :: "phys \<Rightarrow> u64 \<times> phys" where
  "kalloc s =
     (let r = freelist s;
          s1 = (if r \<noteq> 0 then s\<lparr>freelist := load64 (pmem s) r\<rparr> else s);
          s2 = (if r \<noteq> 0 then s1\<lparr>pmem := memset (pmem s1) r 5 (ucast PGSIZE)\<rparr> else s1)
      in (r, s2))"

function freerange_loop :: "u64 \<Rightarrow> u64 \<Rightarrow> u64 \<Rightarrow> phys \<Rightarrow> phys outcome" where
  "freerange_loop kend p pa_end s =
     (if p + PGSIZE \<le> pa_end
      then obind (kfree kend p s) (\<lambda>s'. freerange_loop kend (p + PGSIZE) pa_end s')
      else Ok s)"
  by pat_completeness auto

lemma PHYSTOP_eq: "PHYSTOP = 0x88000000"
  by (simp add: PHYSTOP_def KERNBASE_def)

lemma kfree_Ok_less: "kfree kend pa s = Ok s' \<Longrightarrow> pa < PHYSTOP"
  by (auto simp: kfree_def split: if_splits)

termination freerange_loop
proof (relation "measure (\<lambda>(kend, p, pa_end, s). 0x88001000 - unat p)")
  show "wf (measure (\<lambda>(kend, p :: u64, pa_end :: u64, s :: phys). 0x88001000 - unat p))"
    by simp
next
  fix kend p pa_end :: u64 and s s' :: phys
  assume "kfree kend p s = Ok s'"
  then have "unat p < 0x88000000"
    by (auto dest: kfree_Ok_less simp: PHYSTOP_eq word_less_nat_alt)
  then show "((kend, p + PGSIZE, pa_end, s'), (kend, p, pa_end, s))
      \<in> measure (\<lambda>(kend, p, pa_end, s). 0x88001000 - unat p)"
    by (simp add: PGSIZE_def unat_plus_no_wrap)
qed

declare freerange_loop.simps [simp del]

definition freerange :: "u64 \<Rightarrow> u64 \<Rightarrow> u64 \<Rightarrow> phys \<Rightarrow> phys outcome" where
  "freerange kend pa_start pa_end s = freerange_loop kend (PGROUNDUP pa_start) pa_end s"

definition kinit :: "u64 \<Rightarrow> phys \<Rightarrow> phys outcome" where
  "kinit kend s = freerange kend kend PHYSTOP s"

section \<open>The contract of a page allocator\<close>

text \<open>
  \<open>rep s F\<close>: the allocator state \<open>s\<close> is well formed and \<open>F\<close> is its set of free pages;
  \<open>frees s p\<close>: releasing \<open>p\<close> now returns it to the free set.
\<close>

locale page_allocator =
  fixes alloc :: "'s \<Rightarrow> u64 \<times> 's"
    and free :: "u64 \<Rightarrow> 's \<Rightarrow> 's outcome"
    and rep :: "'s \<Rightarrow> u64 set \<Rightarrow> bool"
    and frees :: "'s \<Rightarrow> u64 \<Rightarrow> bool"
    and content :: "'s \<Rightarrow> memory"
  assumes rep_page: "rep s F \<Longrightarrow> p \<in> F \<Longrightarrow> page_aligned p \<and> p \<noteq> 0"
    and rep_finite: "rep s F \<Longrightarrow> finite F"
    and alloc_none: "rep s {} \<Longrightarrow> alloc s = (0, s)"
    and alloc_some: "rep s F \<Longrightarrow> F \<noteq> {} \<Longrightarrow> \<exists>p s'. alloc s = (p, s') \<and> p \<in> F \<and>
        rep s' (F - {p}) \<and> frees s' p"
    and alloc_frame: "rep s F \<Longrightarrow> alloc s = (p, s') \<Longrightarrow> \<not> in_page p x \<Longrightarrow>
        (\<And>q. q \<in> F \<Longrightarrow> \<not> in_page q x) \<Longrightarrow> content s' x = content s x"
    and free_some: "rep s F \<Longrightarrow> frees s p \<Longrightarrow> p \<notin> F \<Longrightarrow> \<exists>s'. free p s = Ok s' \<and> rep s' (insert p F)"
begin

lemma alloc_zero_iff:
  assumes "rep s F"
  shows "fst (alloc s) = 0 \<longleftrightarrow> F = {}"
proof (cases "F = {}")
  case True
  then show ?thesis using assms alloc_none by auto
next
  case False
  then show ?thesis using alloc_some [OF assms False] rep_page [OF assms] by auto
qed

lemma alloc_twice_distinct:
  assumes "rep s F" and "alloc s = (p, s1)" and "alloc s1 = (q, s2)" and "p \<noteq> 0" and "q \<noteq> 0"
  shows "p \<in> F \<and> q \<in> F \<and> p \<noteq> q \<and> rep s2 (F - {p, q})"
proof -
  have "F \<noteq> {}" using alloc_none assms by auto
  then have 1: "p \<in> F" "rep s1 (F - {p})" using alloc_some [OF assms(1)] assms(2) by auto
  have "F - {p} \<noteq> {}"
  proof
    assume empty: "F - {p} = {}"
    have "rep s1 {}" using 1(2) unfolding empty .
    then have "alloc s1 = (0, s1)" by (rule alloc_none)
    then show False using assms by simp
  qed
  then have "q \<in> F - {p}" "rep s2 (F - {p} - {q})" using alloc_some [OF 1(2)] assms(3) by auto
  moreover have "F - {p} - {q} = F - {p, q}" by auto
  ultimately show ?thesis using 1 by auto
qed

lemma alloc_then_free:
  assumes "rep s F" and "F \<noteq> {}"
  shows "\<exists>p s1 s2. alloc s = (p, s1) \<and> free p s1 = Ok s2 \<and> rep s2 F"
proof -
  obtain p s1 where 1: "alloc s = (p, s1)" "p \<in> F" "rep s1 (F - {p})" "frees s1 p"
    using alloc_some [OF assms] by blast
  then obtain s2 where "free p s1 = Ok s2" "rep s2 (insert p (F - {p}))"
    using free_some [of s1 "F - {p}" p] by auto
  moreover have "insert p (F - {p}) = F" using 1 by auto
  ultimately show ?thesis using 1 by auto
qed

text \<open>Allocating \<open>n\<close> times succeeds exactly when \<open>n\<close> pages are free, and never repeats a page.\<close>

fun alloc_many :: "nat \<Rightarrow> 's \<Rightarrow> u64 list \<times> 's" where
  "alloc_many 0 s = ([], s)"
| "alloc_many (Suc n) s = (let (p, s1) = alloc s; (ps, s2) = alloc_many n s1 in (p # ps, s2))"

lemma alloc_many_distinct:
  assumes "rep s F" and "n \<le> card F"
  shows "\<exists>ps s'. alloc_many n s = (ps, s') \<and> distinct ps \<and> set ps \<subseteq> F \<and> length ps = n \<and>
    rep s' (F - set ps)"
  using assms
proof (induction n arbitrary: s F)
  case 0
  then show ?case by simp
next
  case (Suc n)
  then have "F \<noteq> {}" by auto
  then obtain p s1 where 1: "alloc s = (p, s1)" "p \<in> F" "rep s1 (F - {p})"
    using alloc_some [OF Suc.prems(1)] by blast
  have "n \<le> card (F - {p})"
    using Suc.prems 1 rep_finite by auto
  then obtain ps s' where 2: "alloc_many n s1 = (ps, s')" "distinct ps" "set ps \<subseteq> F - {p}"
      "length ps = n" "rep s' (F - {p} - set ps)"
    using Suc.IH [OF 1(3)] by blast
  have "F - {p} - set ps = F - set (p # ps)" by auto
  with 1 2 show ?case by auto
qed

end

section \<open>The representation of the free list\<close>

fun run_chain :: "memory \<Rightarrow> u64 \<Rightarrow> u64 list \<Rightarrow> bool" where
  "run_chain m p [] = (p = 0)"
| "run_chain m p (q # qs) = (p = q \<and> q \<noteq> 0 \<and> run_chain m (load64 m q) qs)"

definition page_ok :: "u64 \<Rightarrow> u64 \<Rightarrow> bool" where
  "page_ok kend p \<longleftrightarrow> page_aligned p \<and> kend \<le> p \<and> p < PHYSTOP \<and> KERNBASE \<le> kend"

definition kmem_rep :: "u64 \<Rightarrow> phys \<Rightarrow> u64 set \<Rightarrow> bool" where
  "kmem_rep kend s F \<longleftrightarrow> (\<exists>ps. run_chain (pmem s) (freelist s) ps \<and> distinct ps \<and> F = set ps) \<and>
     (\<forall>p\<in>F. page_ok kend p)"

definition kmem_frees :: "u64 \<Rightarrow> phys \<Rightarrow> u64 \<Rightarrow> bool" where
  "kmem_frees kend s p \<longleftrightarrow> page_ok kend p"

lemma page_okD:
  assumes "page_ok kend p"
  shows "page_aligned p" "p \<noteq> 0" "kend \<le> p" "p < PHYSTOP"
  using assms by (auto simp: page_ok_def KERNBASE_def dest: order_trans)

lemma page_aligned_mod: "p mod PGSIZE = 0 \<longleftrightarrow> page_aligned p"
  by (simp add: page_aligned_def PGSIZE_def word_unat_eq_iff unat_mod_distrib)

lemma run_chain_cong:
  assumes "\<And>q. q \<in> set ps \<Longrightarrow> load64 m q = load64 m' q"
  shows "run_chain m p ps = run_chain m' p ps"
  using assms by (induction ps arbitrary: p) auto

lemma load64_page_head_cong:
  assumes "\<And>x. in_page q x \<Longrightarrow> m x = m' x"
  shows "load64 m q = load64 m' q"
  using load64_in_page_cong [of q m m' 0] assms by simp

text \<open>Memory changes outside the listed pages leave the chain as it is.\<close>

lemma run_chain_frame:
  assumes "run_chain m p ps" and "\<And>q x. q \<in> set ps \<Longrightarrow> in_page q x \<Longrightarrow> m' x = m x"
  shows "run_chain m' p ps"
proof -
  have "load64 m' q = load64 m q" if "q \<in> set ps" for q
    using that assms(2) by (intro load64_page_head_cong) simp
  then show ?thesis
    using assms(1) run_chain_cong [of ps m' m p] by simp
qed

lemma ucast_PGSIZE [simp]: "(ucast PGSIZE :: u32) = 4096"
  by (simp add: PGSIZE_def)

lemma kfree_eq:
  assumes "page_ok kend p"
  shows "kfree kend p s = Ok (s\<lparr>pmem := store64 (memset (pmem s) p 1 4096) p (freelist s), freelist := p\<rparr>)"
  using assms page_okD [OF assms] by (simp add: kfree_def page_aligned_mod not_less Let_def)

lemma kfree_frame:
  assumes "kfree kend p s = Ok s'" and "\<not> in_page p x"
  shows "pmem s' x = pmem s x"
  using assms store64_in_page [of 0 p x]
  by (auto simp: kfree_def Let_def memset_page split: if_splits)

lemma kfree_rep:
  assumes "kmem_rep kend s F" and "page_ok kend p" and "p \<notin> F"
  shows "\<exists>s'. kfree kend p s = Ok s' \<and> kmem_rep kend s' (insert p F)"
proof -
  let ?m = "store64 (memset (pmem s) p 1 4096) p (freelist s)"
  let ?s = "s\<lparr>pmem := ?m, freelist := p\<rparr>"
  obtain ps where ps: "run_chain (pmem s) (freelist s) ps" "distinct ps" "F = set ps"
    using assms by (auto simp: kmem_rep_def)
  have other: "?m x = pmem s x" if "q \<in> set ps" "in_page q x" for q x
  proof -
    have "q \<noteq> p" "page_aligned q" "page_aligned p"
      using that assms ps by (auto simp: kmem_rep_def dest: page_okD)
    then have "\<not> in_page p x" using that in_page_disjoint [of q p x] by simp
    then show ?thesis using store64_in_page [of 0 p x] by (simp add: memset_page)
  qed
  have "run_chain ?m (freelist s) ps"
    using ps(1) other by (rule run_chain_frame)
  then have "run_chain (pmem ?s) (freelist ?s) (p # ps)"
    using page_okD [OF assms(2)] by simp
  moreover have "distinct (p # ps)" "insert p F = set (p # ps)"
    using ps assms by auto
  ultimately have "kmem_rep kend ?s (insert p F)"
    using assms unfolding kmem_rep_def by blast
  then show ?thesis using kfree_eq [OF assms(2), of s] by blast
qed

lemma kalloc_Cons:
  assumes "run_chain (pmem s) (freelist s) (p # ps)"
  shows "kalloc s = (p, s\<lparr>freelist := load64 (pmem s) p, pmem := memset (pmem s) p 5 4096\<rparr>)"
  using assms by (simp add: kalloc_def Let_def)

lemma kalloc_some:
  assumes "kmem_rep kend s F" and "F \<noteq> {}"
  shows "\<exists>p s'. kalloc s = (p, s') \<and> p \<in> F \<and> kmem_rep kend s' (F - {p}) \<and> kmem_frees kend s' p"
proof -
  obtain qs where qs: "run_chain (pmem s) (freelist s) qs" "distinct qs" "F = set qs"
    using assms by (auto simp: kmem_rep_def)
  then obtain p ps where "qs = p # ps"
    using assms(2) by (cases qs) auto
  with qs have ps: "run_chain (pmem s) (freelist s) (p # ps)" "distinct (p # ps)" "F = set (p # ps)"
    by auto
  let ?s = "s\<lparr>freelist := load64 (pmem s) p, pmem := memset (pmem s) p 5 4096\<rparr>"
  have "run_chain (pmem ?s) (freelist ?s) ps"
  proof (rule run_chain_frame [of "pmem s"])
    show "run_chain (pmem s) (freelist ?s) ps" using ps by simp
  next
    fix q x
    assume "q \<in> set ps" "in_page q x"
    then have "\<not> in_page p x"
      using ps assms in_page_disjoint [of q p x] by (auto simp: kmem_rep_def dest: page_okD)
    then show "pmem ?s x = pmem s x" by (simp add: memset_page)
  qed
  then have "kmem_rep kend ?s (F - {p})"
    using ps assms unfolding kmem_rep_def by auto
  then show ?thesis
    using kalloc_Cons [OF ps(1)] ps(3) assms by (auto simp: kmem_frees_def kmem_rep_def)
qed

lemma kalloc_frame:
  assumes "kalloc s = (p, s')" and "\<not> in_page p x"
  shows "pmem s' x = pmem s x"
  using assms by (auto simp: kalloc_def Let_def memset_page split: if_splits)

interpretation kmem: page_allocator kalloc "kfree kend" "kmem_rep kend" "kmem_frees kend" pmem
proof unfold_locales
  show "kmem_rep kend s F \<Longrightarrow> p \<in> F \<Longrightarrow> page_aligned p \<and> p \<noteq> 0" for s F p
    by (auto simp: kmem_rep_def dest: page_okD)
  show "kmem_rep kend s F \<Longrightarrow> finite F" for s F
    by (auto simp: kmem_rep_def)
  show "kmem_rep kend s {} \<Longrightarrow> kalloc s = (0, s)" for s
    by (auto simp: kmem_rep_def kalloc_def Let_def)
  show "kmem_rep kend s F \<Longrightarrow> F \<noteq> {} \<Longrightarrow>
      \<exists>p s'. kalloc s = (p, s') \<and> p \<in> F \<and> kmem_rep kend s' (F - {p}) \<and> kmem_frees kend s' p" for s F
    by (rule kalloc_some)
  show "kalloc s = (p, s') \<Longrightarrow> \<not> in_page p x \<Longrightarrow> pmem s' x = pmem s x" for s p s' x
    by (rule kalloc_frame)
  show "kmem_rep kend s F \<Longrightarrow> kmem_frees kend s p \<Longrightarrow> p \<notin> F \<Longrightarrow>
      \<exists>s'. kfree kend p s = Ok s' \<and> kmem_rep kend s' (insert p F)" for s F p
    unfolding kmem_frees_def by (rule kfree_rep)
qed


section \<open>Boot: every page of usable memory becomes free\<close>

lemma page_step:
  assumes "page_aligned p" and "p < PHYSTOP"
  shows "page_aligned (p + PGSIZE)" "unat (p + PGSIZE) = unat p + 4096" "p + PGSIZE \<le> PHYSTOP"
proof -
  have lt: "unat p < 0x88000000" and al: "unat p mod 4096 = 0"
    using assms by (simp_all add: PHYSTOP_eq word_less_nat_alt page_aligned_def)
  show eq: "unat (p + PGSIZE) = unat p + 4096"
    using lt by (simp add: PGSIZE_def unat_plus_no_wrap)
  show "page_aligned (p + PGSIZE)"
    using al eq by (simp add: page_aligned_def)
  have "unat p + 4096 \<le> 0x88000000" using lt al by (intro aligned_less_step) auto
  then show "p + PGSIZE \<le> PHYSTOP"
    using eq by (simp add: PHYSTOP_eq word_le_nat_alt)
qed

lemma pages_from_step:
  assumes "page_aligned p" and "p < PHYSTOP"
  shows "{q. page_aligned q \<and> p \<le> q \<and> q < PHYSTOP} =
    insert p {q. page_aligned q \<and> p + PGSIZE \<le> q \<and> q < PHYSTOP}"
proof -
  have "p + PGSIZE \<le> q" if "page_aligned q" "p \<le> q" "q \<noteq> p" for q
  proof -
    have "unat p mod 4096 = 0" "unat q mod 4096 = 0" "unat p < unat q"
      using assms that by (auto simp: page_aligned_def word_le_nat_alt word_unat_eq_iff)
    then have "unat p + 4096 \<le> unat q" by (rule aligned_less_step)
    then show ?thesis using page_step [OF assms] by (simp add: word_le_nat_alt)
  qed
  moreover have "p \<le> q" if "p + PGSIZE \<le> q" for q
    using that page_step [OF assms] by (simp add: word_le_nat_alt)
  ultimately show ?thesis using assms by auto
qed

lemma freerange_loop_rep:
  assumes "kmem_rep kend s F" and "page_aligned p" and "KERNBASE \<le> kend" and "kend \<le> p" and "p \<le> PHYSTOP"
    and "\<And>q. q \<in> F \<Longrightarrow> q < p"
  shows "\<exists>s'. freerange_loop kend p PHYSTOP s = Ok s' \<and>
    kmem_rep kend s' (F \<union> {q. page_aligned q \<and> p \<le> q \<and> q < PHYSTOP})"
  using assms
proof (induction kend p "PHYSTOP" s arbitrary: F rule: freerange_loop.induct)
  case (1 kend p s)
  show ?case
  proof (cases "p + PGSIZE \<le> PHYSTOP")
    case False
    then have "\<not> p < PHYSTOP" using page_step(3) "1.prems"(2) by auto
    then have empty: "{q. page_aligned q \<and> p \<le> q \<and> q < PHYSTOP} = {}" by auto
    show ?thesis
      unfolding empty using False "1.prems"(1) by (simp add: freerange_loop.simps)
  next
    case True
    have lt: "p < PHYSTOP"
    proof (rule ccontr)
      assume "\<not> p < PHYSTOP"
      then have "p = PHYSTOP" using "1.prems" by simp
      then show False using True by (simp add: PHYSTOP_eq PGSIZE_def)
    qed
    then have ok: "page_ok kend p" using "1.prems" by (simp add: page_ok_def)
    have "p \<notin> F" using "1.prems"(6) by auto
    then obtain s1 where s1: "kfree kend p s = Ok s1" "kmem_rep kend s1 (insert p F)"
      using kfree_rep [OF "1.prems"(1) ok] by blast
    note step = page_step [OF "1.prems"(2) lt]
    have "\<exists>s'. freerange_loop kend (p + PGSIZE) PHYSTOP s1 = Ok s' \<and>
      kmem_rep kend s' (insert p F \<union> {q. page_aligned q \<and> p + PGSIZE \<le> q \<and> q < PHYSTOP})"
    proof (rule "1.hyps" [OF True s1(1) s1(2) step(1) "1.prems"(3) _ step(3)])
      show "kend \<le> p + PGSIZE"
        using "1.prems"(4) step by (simp add: word_le_nat_alt)
      show "q < p + PGSIZE" if "q \<in> insert p F" for q
        using that "1.prems"(6) step by (fastforce simp: word_less_nat_alt)
    qed
    then show ?thesis
      using True s1 by (subst freerange_loop.simps) (simp add: pages_from_step [OF "1.prems"(2) lt])
  qed
qed

lemma PGROUNDUP_ge:
  assumes "a \<le> PHYSTOP"
  shows "a \<le> PGROUNDUP a" "PGROUNDUP a \<le> PHYSTOP" "page_aligned (PGROUNDUP a)"
proof -
  have a: "unat a \<le> 0x88000000"
    using assms by (simp add: PHYSTOP_eq word_le_nat_alt)
  then have "unat (PGROUNDUP a) = (unat a + 4095) div 4096 * 4096"
    by (simp add: PGROUNDUP_down unat_PGROUNDDOWN unat_plus_no_wrap)
  then show "a \<le> PGROUNDUP a" "PGROUNDUP a \<le> PHYSTOP"
    using a by (simp_all add: PHYSTOP_eq word_le_nat_alt)
  show "page_aligned (PGROUNDUP a)" by (simp add: PGROUNDUP_down)
qed

text \<open>
  C39: at boot, \<open>kinit\<close> returns without panicking and the allocator then holds exactly the whole
  pages between the end of the kernel image and \<open>PHYSTOP\<close>, each once.
\<close>

theorem kinit_frees_all_memory:
  assumes "KERNBASE \<le> kend" and "kend \<le> PHYSTOP" and "freelist s = 0"
  shows "\<exists>s'. kinit kend s = Ok s' \<and>
    kmem_rep kend s' {p. page_aligned p \<and> PGROUNDUP kend \<le> p \<and> p < PHYSTOP}"
proof -
  have "kmem_rep kend s {}"
    using assms by (auto simp: kmem_rep_def intro: exI [of _ "[]"])
  from freerange_loop_rep [OF this PGROUNDUP_ge(3) [OF assms(2)] assms(1)
      PGROUNDUP_ge(1,2) [OF assms(2)]]
  show ?thesis by (simp add: kinit_def freerange_def)
qed

theorem kinit_frees_all_memory_witness:
  "\<exists>s'. kinit 0x80021234 \<lparr>pmem = (\<lambda>_. 0), freelist = 0\<rparr> = Ok s' \<and>
    kmem_rep 0x80021234 s' {p. page_aligned p \<and> PGROUNDUP 0x80021234 \<le> p \<and> p < PHYSTOP}"
  by (rule kinit_frees_all_memory) (simp_all add: KERNBASE_def PHYSTOP_def)

end
