(* ===== verification/Vm.thy ===== *)
theory Vm
  imports Kalloc
begin

text \<open>
  Virtual memory, \<^verbatim>\<open>kernel/vm.c\<close>: the three-level Sv39 page-table walk, mapping and unmapping,
  growing, shrinking, copying and freeing a user address space, and the copies between kernel and
  user memory. Page tables live in physical memory, so every routine reads and writes
  \<^verbatim>\<open>pmem\<close>; the kernel's direct map makes kernel pointers physical addresses. A null page-table
  entry pointer is 0, C results are returned beside the new state.
\<close>

section \<open>Walking the page table\<close>

fun walk_loop :: "nat \<Rightarrow> u64 \<Rightarrow> u64 \<Rightarrow> bool \<Rightarrow> phys \<Rightarrow> u64 \<times> phys" where
  "walk_loop 0 pagetable va alloc s = (pte_addr pagetable (PX 0 va), s)"
| "walk_loop (Suc level) pagetable va alloc s =
     (let pte = pte_addr pagetable (PX (Suc level) va) in
      if load64 (pmem s) pte AND PTE_V \<noteq> 0
      then walk_loop level (PTE2PA (load64 (pmem s) pte)) va alloc s
      else if \<not> alloc then (0, s)
      else let (pg, s1) = kalloc s in
        if pg = 0 then (0, s1)
        else
          let m1 = memset (pmem s1) pg 0 (ucast PGSIZE);
              m2 = store64 m1 pte (PA2PTE pg OR PTE_V)
          in walk_loop level pg va alloc (s1\<lparr>pmem := m2\<rparr>))"

definition walk :: "u64 \<Rightarrow> u64 \<Rightarrow> bool \<Rightarrow> phys \<Rightarrow> (u64 \<times> phys) outcome" where
  "walk pagetable va alloc s =
     (if va \<ge> MAXVA then Panic ''walk'' else Ok (walk_loop 2 pagetable va alloc s))"

definition walkaddr :: "u64 \<Rightarrow> u64 \<Rightarrow> phys \<Rightarrow> (u64 \<times> phys) outcome" where
  "walkaddr pagetable va s =
     (if va \<ge> MAXVA then Ok (0, s)
      else obind (walk pagetable va False s) (\<lambda>(pte, s).
        if pte = 0 then Ok (0, s)
        else if load64 (pmem s) pte AND PTE_V = 0 then Ok (0, s)
        else if load64 (pmem s) pte AND PTE_U = 0 then Ok (0, s)
        else Ok (PTE2PA (load64 (pmem s) pte), s)))"

section \<open>Mapping and unmapping\<close>

function mappages_loop :: "u64 \<Rightarrow> u64 \<Rightarrow> u64 \<Rightarrow> u64 \<Rightarrow> u64 \<Rightarrow> phys \<Rightarrow> (int \<times> phys) outcome" where
  "mappages_loop pagetable a lastva pa perm s =
     obind (walk pagetable a True s) (\<lambda>(pte, s1).
       if pte = 0 then Ok (-1, s1)
       else if load64 (pmem s1) pte AND PTE_V \<noteq> 0 then Panic ''remap''
       else
         let s2 = s1\<lparr>pmem := store64 (pmem s1) pte (PA2PTE pa OR perm OR PTE_V)\<rparr> in
         if a = lastva then Ok (0, s2)
         else mappages_loop pagetable (a + PGSIZE) lastva (pa + PGSIZE) perm s2)"
  by pat_completeness auto

lemma walk_OkD: "walk pagetable va alloc s = Ok r \<Longrightarrow> va < MAXVA"
  by (auto simp: walk_def split: if_splits)

lemma walk_next_page:
  assumes "walk pagetable a alloc s = Ok r"
  shows "unat (a + PGSIZE) = unat a + 4096" and "unat a < 2 ^ 38"
proof -
  show "unat a < 2 ^ 38"
    using walk_OkD [OF assms] by (simp add: MAXVA_eq word_less_nat_alt)
  then show "unat (a + PGSIZE) = unat a + 4096"
    by (simp add: PGSIZE_def unat_plus_no_wrap)
qed

lemma next_page_measure:
  assumes "walk pagetable a alloc s = Ok r"
  shows "2 ^ 39 - unat (a + PGSIZE) < 2 ^ 39 - unat a"
  using walk_next_page [OF assms] by simp

termination mappages_loop
  by (relation "measure (\<lambda>(pagetable, a, lastva, pa, perm, s). 2 ^ 39 - unat a)")
    (use next_page_measure in auto)

declare mappages_loop.simps [simp del]

definition mappages :: "u64 \<Rightarrow> u64 \<Rightarrow> u64 \<Rightarrow> u64 \<Rightarrow> u64 \<Rightarrow> phys \<Rightarrow> (int \<times> phys) outcome" where
  "mappages pagetable va sz pa perm s =
     mappages_loop pagetable (PGROUNDDOWN va) (PGROUNDDOWN (va + sz - 1)) pa perm s"

definition kvmmap :: "u64 \<Rightarrow> u64 \<Rightarrow> u64 \<Rightarrow> u64 \<Rightarrow> u64 \<Rightarrow> phys \<Rightarrow> phys outcome" where
  "kvmmap kpgtbl va pa sz perm s =
     obind (mappages kpgtbl va sz pa perm s) (\<lambda>(r, s1).
       if r \<noteq> 0 then Panic ''kvmmap'' else Ok s1)"

function uvmunmap_loop :: "u64 \<Rightarrow> u64 \<Rightarrow> u64 \<Rightarrow> u64 \<Rightarrow> bool \<Rightarrow> phys \<Rightarrow> phys outcome" where
  "uvmunmap_loop kend pagetable a aend do_free s =
     (if a < aend then
        obind (walk pagetable a False s) (\<lambda>(pte, s1).
          if pte = 0 then Panic ''uvmunmap: walk''
          else if load64 (pmem s1) pte AND PTE_V = 0 then Panic ''uvmunmap: not mapped''
          else if PTE_FLAGS (load64 (pmem s1) pte) = PTE_V then Panic ''uvmunmap: not a leaf''
          else obind (if do_free then kfree kend (PTE2PA (load64 (pmem s1) pte)) s1 else Ok s1) (\<lambda>s2.
            uvmunmap_loop kend pagetable (a + PGSIZE) aend do_free
              (s2\<lparr>pmem := store64 (pmem s2) pte 0\<rparr>)))
      else Ok s)"
  by pat_completeness auto

termination uvmunmap_loop
  by (relation "measure (\<lambda>(kend, pagetable, a, aend, do_free, s). 2 ^ 39 - unat a)")
    (use next_page_measure in auto)

declare uvmunmap_loop.simps [simp del]

definition uvmunmap :: "u64 \<Rightarrow> u64 \<Rightarrow> u64 \<Rightarrow> u64 \<Rightarrow> bool \<Rightarrow> phys \<Rightarrow> phys outcome" where
  "uvmunmap kend pagetable va npages do_free s =
     (if va mod PGSIZE \<noteq> 0 then Panic ''uvmunmap: not aligned''
      else uvmunmap_loop kend pagetable va (va + npages * PGSIZE) do_free s)"

section \<open>User address spaces\<close>

definition uvmcreate :: "phys \<Rightarrow> u64 \<times> phys" where
  "uvmcreate s =
     (let (pagetable, s1) = kalloc s in
      if pagetable = 0 then (0, s1)
      else (pagetable, s1\<lparr>pmem := memset (pmem s1) pagetable 0 (ucast PGSIZE)\<rparr>))"

definition uvminit :: "u64 \<Rightarrow> u64 \<Rightarrow> u32 \<Rightarrow> phys \<Rightarrow> phys outcome" where
  "uvminit pagetable src sz s =
     (if ucast sz \<ge> PGSIZE then Panic ''inituvm: more than a page''
      else
        let (mem, s1) = kalloc s;
            s2 = s1\<lparr>pmem := memset (pmem s1) mem 0 (ucast PGSIZE)\<rparr>
        in obind (mappages pagetable 0 PGSIZE mem (PTE_W OR PTE_R OR PTE_X OR PTE_U) s2)
             (\<lambda>(r, s3). Ok (s3\<lparr>pmem := memmove (pmem s3) mem src sz\<rparr>)))"

text \<open>The page count of \<^verbatim>\<open>uvmdealloc\<close> passes through a C \<open>int\<close>.\<close>

definition uvmdealloc :: "u64 \<Rightarrow> u64 \<Rightarrow> u64 \<Rightarrow> u64 \<Rightarrow> phys \<Rightarrow> (u64 \<times> phys) outcome" where
  "uvmdealloc kend pagetable oldsz newsz s =
     (if newsz \<ge> oldsz then Ok (oldsz, s)
      else if PGROUNDUP newsz < PGROUNDUP oldsz then
        let npages = (ucast ((PGROUNDUP oldsz - PGROUNDUP newsz) div PGSIZE) :: u32)
        in obind (uvmunmap kend pagetable (PGROUNDUP newsz) (scast npages) True s)
             (\<lambda>s1. Ok (newsz, s1))
      else Ok (newsz, s))"

function uvmalloc_loop :: "u64 \<Rightarrow> u64 \<Rightarrow> u64 \<Rightarrow> u64 \<Rightarrow> u64 \<Rightarrow> phys \<Rightarrow> (u64 \<times> phys) outcome" where
  "uvmalloc_loop kend pagetable a oldsz newsz s =
     (if a < newsz then
        let (mem, s1) = kalloc s in
        if mem = 0 then
          obind (uvmdealloc kend pagetable a oldsz s1) (\<lambda>(r, s2). Ok (0, s2))
        else
          let s2 = s1\<lparr>pmem := memset (pmem s1) mem 0 (ucast PGSIZE)\<rparr> in
          obind (mappages pagetable a PGSIZE mem (PTE_W OR PTE_X OR PTE_R OR PTE_U) s2) (\<lambda>(r, s3).
            if r \<noteq> 0 then
              obind (kfree kend mem s3) (\<lambda>s4.
              obind (uvmdealloc kend pagetable a oldsz s4) (\<lambda>(r', s5). Ok (0, s5)))
            else uvmalloc_loop kend pagetable (a + PGSIZE) oldsz newsz s3)
      else Ok (newsz, s))"
  by pat_completeness auto

lemma mappages_Ok_walk:
  assumes "mappages pagetable va sz pa perm s = Ok r"
  shows "\<exists>r'. walk pagetable (PGROUNDDOWN va) True s = Ok r'"
  using assms by (auto simp: mappages_def mappages_loop.simps [of _ "PGROUNDDOWN va"] outcome_simps)

lemma mappages_measure:
  assumes "mappages pagetable a sz pa perm s = Ok r"
  shows "2 ^ 39 - unat (a + PGSIZE) < 2 ^ 39 - unat a"
proof -
  have "PGROUNDDOWN a < MAXVA"
    using mappages_Ok_walk [OF assms] walk_OkD by blast
  then have "unat a div 4096 * 4096 < 2 ^ 38"
    by (simp add: word_less_nat_alt MAXVA_eq unat_PGROUNDDOWN)
  then have "unat a < 2 ^ 38 + 4096"
    by (metis add.commute add_less_mono div_mult_mod_eq mod_less_divisor zero_less_numeral)
  then show ?thesis
    by (simp add: PGSIZE_def unat_plus_no_wrap)
qed

termination uvmalloc_loop
  by (relation "measure (\<lambda>(kend, pagetable, a, oldsz, newsz, s). 2 ^ 39 - unat a)")
    (use mappages_measure in auto)

declare uvmalloc_loop.simps [simp del]

definition uvmalloc :: "u64 \<Rightarrow> u64 \<Rightarrow> u64 \<Rightarrow> u64 \<Rightarrow> phys \<Rightarrow> (u64 \<times> phys) outcome" where
  "uvmalloc kend pagetable oldsz newsz s =
     (if newsz < oldsz then Ok (oldsz, s)
      else let oldsz' = PGROUNDUP oldsz in uvmalloc_loop kend pagetable oldsz' oldsz' newsz s)"

text \<open>
  \<^verbatim>\<open>freewalk\<close> recurses to the depth of the page table; \<open>fuel\<close> bounds that depth and
  \<open>None\<close> is a run that needs more. A table of three levels needs three.
\<close>

fun freewalk :: "u64 \<Rightarrow> nat \<Rightarrow> u64 \<Rightarrow> phys \<Rightarrow> phys outcome option"
and freewalk_entries :: "u64 \<Rightarrow> nat \<Rightarrow> u64 \<Rightarrow> nat \<Rightarrow> phys \<Rightarrow> phys outcome option" where
  "freewalk kend 0 pagetable s = None"
| "freewalk kend (Suc fuel) pagetable s =
     (case freewalk_entries kend fuel pagetable 512 s of
        None \<Rightarrow> None
      | Some r \<Rightarrow> Some (obind r (\<lambda>s1. kfree kend pagetable s1)))"
| "freewalk_entries kend fuel pagetable 0 s = Some (Ok s)"
| "freewalk_entries kend fuel pagetable (Suc n) s =
     (let slot = pte_addr pagetable (of_nat (511 - n));
          pte = load64 (pmem s) slot
      in if pte AND PTE_V \<noteq> 0 \<and> pte AND (PTE_R OR PTE_W OR PTE_X) = 0 then
           (case freewalk kend fuel (PTE2PA pte) s of
              None \<Rightarrow> None
            | Some (Ok s1) \<Rightarrow>
                freewalk_entries kend fuel pagetable n (s1\<lparr>pmem := store64 (pmem s1) slot 0\<rparr>)
            | Some (Panic e) \<Rightarrow> Some (Panic e)
            | Some Blocked \<Rightarrow> Some Blocked)
         else if pte AND PTE_V \<noteq> 0 then Some (Panic ''freewalk: leaf'')
         else freewalk_entries kend fuel pagetable n s)"

definition uvmfree :: "u64 \<Rightarrow> nat \<Rightarrow> u64 \<Rightarrow> u64 \<Rightarrow> phys \<Rightarrow> phys outcome option" where
  "uvmfree kend fuel pagetable sz s =
     (case (if sz > 0 then uvmunmap kend pagetable 0 (PGROUNDUP sz div PGSIZE) True s else Ok s) of
        Ok s1 \<Rightarrow> freewalk kend fuel pagetable s1
      | Panic e \<Rightarrow> Some (Panic e)
      | Blocked \<Rightarrow> Some Blocked)"

function uvmcopy_loop :: "u64 \<Rightarrow> u64 \<Rightarrow> u64 \<Rightarrow> u64 \<Rightarrow> u64 \<Rightarrow> phys \<Rightarrow> (int \<times> phys) outcome" where
  "uvmcopy_loop kend old new i sz s =
     (if i < sz then
        obind (walk old i False s) (\<lambda>(pte, s1).
          if pte = 0 then Panic ''uvmcopy: pte should exist''
          else if load64 (pmem s1) pte AND PTE_V = 0 then Panic ''uvmcopy: page not present''
          else
            let pa = PTE2PA (load64 (pmem s1) pte);
                flags = PTE_FLAGS (load64 (pmem s1) pte);
                (mem, s2) = kalloc s1
            in if mem = 0 then
                 obind (uvmunmap kend new 0 (i div PGSIZE) True s2) (\<lambda>s3. Ok (-1, s3))
               else
                 let s3 = s2\<lparr>pmem := memmove (pmem s2) mem pa (ucast PGSIZE)\<rparr> in
                 obind (mappages new i PGSIZE mem flags s3) (\<lambda>(r, s4).
                   if r \<noteq> 0 then
                     obind (kfree kend mem s4) (\<lambda>s5.
                     obind (uvmunmap kend new 0 (i div PGSIZE) True s5) (\<lambda>s6. Ok (-1, s6)))
                   else uvmcopy_loop kend old new (i + PGSIZE) sz s4))
      else Ok (0, s))"
  by pat_completeness auto

termination uvmcopy_loop
  by (relation "measure (\<lambda>(kend, old, new, i, sz, s). 2 ^ 39 - unat i)")
    (use next_page_measure in auto)

declare uvmcopy_loop.simps [simp del]

definition uvmcopy :: "u64 \<Rightarrow> u64 \<Rightarrow> u64 \<Rightarrow> u64 \<Rightarrow> phys \<Rightarrow> (int \<times> phys) outcome" where
  "uvmcopy kend old new sz s = uvmcopy_loop kend old new 0 sz s"

definition uvmclear :: "u64 \<Rightarrow> u64 \<Rightarrow> phys \<Rightarrow> phys outcome" where
  "uvmclear pagetable va s =
     obind (walk pagetable va False s) (\<lambda>(pte, s1).
       if pte = 0 then Panic ''uvmclear''
       else Ok (s1\<lparr>pmem := store64 (pmem s1) pte (load64 (pmem s1) pte AND NOT PTE_U)\<rparr>))"

section \<open>Copies between kernel and user memory\<close>

text \<open>\<open>chunk va len\<close>: the bytes of a copy that lie on the page of \<open>va\<close>.\<close>

definition chunk :: "u64 \<Rightarrow> u64 \<Rightarrow> u64" where
  "chunk va len = (let n = PGSIZE - (va - PGROUNDDOWN va) in if n > len then len else n)"

lemma unat_chunk: "unat (chunk va len) = min (4096 - unat (va - PGROUNDDOWN va)) (unat len)"
proof -
  have "unat (PGSIZE - (va - PGROUNDDOWN va)) = 4096 - unat (va - PGROUNDDOWN va)"
    using page_offset_less [of va]
    by (simp add: PGSIZE_def unat_sub_if word_le_nat_alt)
  then show ?thesis
    by (auto simp: chunk_def Let_def word_less_nat_alt min_def)
qed

lemma chunk_bounds:
  assumes "len \<noteq> 0"
  shows "0 < unat (chunk va len)" "unat (chunk va len) \<le> unat len" "unat (chunk va len) \<le> 4096"
  using assms page_offset_less [of va] by (auto simp: unat_chunk unat_gt_0 min_def)

lemma chunk_measure: "len \<noteq> 0 \<Longrightarrow> unat (len - chunk va len) < unat len"
  using chunk_bounds [of len va] by (simp add: unat_minus_le word_le_nat_alt)

function copyout :: "u64 \<Rightarrow> u64 \<Rightarrow> u64 \<Rightarrow> u64 \<Rightarrow> phys \<Rightarrow> (int \<times> phys) outcome" where
  "copyout pagetable dstva src len s =
     (if len > 0 then
        let va0 = PGROUNDDOWN dstva in
        obind (walkaddr pagetable va0 s) (\<lambda>(pa0, s1).
          if pa0 = 0 then Ok (-1, s1)
          else
            let n = chunk dstva len;
                s2 = s1\<lparr>pmem := memmove (pmem s1) (pa0 + (dstva - va0)) src (ucast n)\<rparr>
            in copyout pagetable (va0 + PGSIZE) (src + n) (len - n) s2)
      else Ok (0, s))"
  by pat_completeness auto

termination copyout
  by (relation "measure (\<lambda>(pagetable, dstva, src, len, s). unat len)")
    (auto simp: chunk_measure word_neq_0_conv)

declare copyout.simps [simp del]

function copyin :: "u64 \<Rightarrow> u64 \<Rightarrow> u64 \<Rightarrow> u64 \<Rightarrow> phys \<Rightarrow> (int \<times> phys) outcome" where
  "copyin pagetable dst srcva len s =
     (if len > 0 then
        let va0 = PGROUNDDOWN srcva in
        obind (walkaddr pagetable va0 s) (\<lambda>(pa0, s1).
          if pa0 = 0 then Ok (-1, s1)
          else
            let n = chunk srcva len;
                s2 = s1\<lparr>pmem := memmove (pmem s1) dst (pa0 + (srcva - va0)) (ucast n)\<rparr>
            in copyin pagetable (dst + n) (va0 + PGSIZE) (len - n) s2)
      else Ok (0, s))"
  by pat_completeness auto

termination copyin
  by (relation "measure (\<lambda>(pagetable, dst, srcva, len, s). unat len)")
    (auto simp: chunk_measure word_neq_0_conv)

declare copyin.simps [simp del]

text \<open>
  The inner loop of \<^verbatim>\<open>copyinstr\<close> over the \<open>n\<close> bytes left on a page: whether it met the NUL, where
  \<open>dst\<close> points and how many bytes were copied.
\<close>

fun copyinstr_page :: "memory \<Rightarrow> u64 \<Rightarrow> u64 \<Rightarrow> nat \<Rightarrow> memory \<times> bool \<times> u64" where
  "copyinstr_page m p dst 0 = (m, False, dst)"
| "copyinstr_page m p dst (Suc n) =
     (if m p = 0 then (m(dst := 0), True, dst)
      else copyinstr_page (m(dst := m p)) (p + 1) (dst + 1) n)"

function copyinstr :: "u64 \<Rightarrow> u64 \<Rightarrow> u64 \<Rightarrow> u64 \<Rightarrow> phys \<Rightarrow> (int \<times> phys) outcome" where
  "copyinstr pagetable dst srcva maxlen s =
     (if maxlen > 0 then
        let va0 = PGROUNDDOWN srcva in
        obind (walkaddr pagetable va0 s) (\<lambda>(pa0, s1).
          if pa0 = 0 then Ok (-1, s1)
          else
            let n = chunk srcva maxlen;
                (m, got_null, dst') =
                  copyinstr_page (pmem s1) (pa0 + (srcva - va0)) dst (unat n);
                s2 = s1\<lparr>pmem := m\<rparr>
            in if got_null then Ok (0, s2)
               else copyinstr pagetable dst' (va0 + PGSIZE) (maxlen - n) s2)
      else Ok (-1, s))"
  by pat_completeness auto

termination copyinstr
  by (relation "measure (\<lambda>(pagetable, dst, srcva, maxlen, s). unat maxlen)")
    (auto simp: chunk_measure word_neq_0_conv)

declare copyinstr.simps [simp del]

end
