(* ===== verification/Vm_Table.thy ===== *)
theory Vm_Table
  imports Vm
begin

text \<open>
  What a page table in memory means. \<open>pt_leaf\<close> follows the levels of the table without changing
  it, \<open>pt_trans\<close> is the translation it defines (the valid leaf entry of an address), and
  \<open>pt_tree\<close> says that the table pages reachable from the root form a tree: they are aligned and
  no page is used twice. The lemmas show that writing a leaf entry changes one translation only,
  that \<open>walk\<close> with allocation adds table pages and changes no translation, and that both keep the
  tree and the free list apart.
\<close>

section \<open>Translation\<close>

fun pt_leaf :: "memory \<Rightarrow> nat \<Rightarrow> u64 \<Rightarrow> u64 \<Rightarrow> u64 option" where
  "pt_leaf m 0 pt va = Some (pte_addr pt (PX 0 va))"
| "pt_leaf m (Suc l) pt va =
     (let e = load64 m (pte_addr pt (PX (Suc l) va))
      in if bit e 0 then pt_leaf m l (PTE2PA e) va else None)"

definition pt_trans :: "memory \<Rightarrow> nat \<Rightarrow> u64 \<Rightarrow> u64 \<Rightarrow> u64 option" where
  "pt_trans m l pt va =
     (case pt_leaf m l pt va of None \<Rightarrow> None
      | Some a \<Rightarrow> if bit (load64 m a) 0 then Some (load64 m a) else None)"

text \<open>The entry an address translates through in the three-level table at \<open>root\<close>.\<close>

definition translate :: "memory \<Rightarrow> u64 \<Rightarrow> u64 \<Rightarrow> u64 option" where
  "translate m root va = pt_trans m 2 root va"

section \<open>Tables as trees\<close>

fun pt_tree :: "memory \<Rightarrow> nat \<Rightarrow> u64 \<Rightarrow> u64 set \<Rightarrow> bool" where
  "pt_tree m 0 pt T \<longleftrightarrow> page_aligned pt \<and> pt \<noteq> 0 \<and> T = {pt}"
| "pt_tree m (Suc l) pt T \<longleftrightarrow> page_aligned pt \<and> pt \<noteq> 0 \<and>
     (\<exists>C. (\<forall>i. unat i < 512 \<longrightarrow>
            (if bit (load64 m (pte_addr pt i)) 0
             then pt_tree m l (PTE2PA (load64 m (pte_addr pt i))) (C i) else C i = {}))
        \<and> (\<forall>i j. unat i < 512 \<longrightarrow> unat j < 512 \<longrightarrow> i \<noteq> j \<longrightarrow> C i \<inter> C j = {})
        \<and> (\<forall>i. unat i < 512 \<longrightarrow> pt \<notin> C i)
        \<and> T = insert pt (\<Union>i\<in>{i. unat i < 512}. C i))"

declare pt_tree.simps(2) [simp del]

lemma pt_tree_SucE:
  assumes "pt_tree m (Suc l) pt T"
  obtains C where "page_aligned pt" "pt \<noteq> 0"
    "\<And>i. unat i < 512 \<Longrightarrow> bit (load64 m (pte_addr pt i)) 0 \<Longrightarrow>
       pt_tree m l (PTE2PA (load64 m (pte_addr pt i))) (C i)"
    "\<And>i. unat i < 512 \<Longrightarrow> \<not> bit (load64 m (pte_addr pt i)) 0 \<Longrightarrow> C i = {}"
    "\<And>i j q. unat i < 512 \<Longrightarrow> unat j < 512 \<Longrightarrow> i \<noteq> j \<Longrightarrow> q \<in> C i \<Longrightarrow> q \<notin> C j"
    "\<And>i. unat i < 512 \<Longrightarrow> pt \<notin> C i"
    "T = insert pt (\<Union>i\<in>{i. unat i < 512}. C i)"
proof -
  from assms obtain C where C: "page_aligned pt" "pt \<noteq> 0"
    and 1: "\<forall>i. unat i < 512 \<longrightarrow>
            (if bit (load64 m (pte_addr pt i)) 0
             then pt_tree m l (PTE2PA (load64 m (pte_addr pt i))) (C i) else C i = {})"
    and 2: "\<forall>i j. unat i < 512 \<longrightarrow> unat j < 512 \<longrightarrow> i \<noteq> j \<longrightarrow> C i \<inter> C j = {}"
    and 3: "\<forall>i. unat i < 512 \<longrightarrow> pt \<notin> C i"
    and 4: "T = insert pt (\<Union>i\<in>{i. unat i < 512}. C i)"
    unfolding pt_tree.simps(2) by (elim conjE exE)
  show thesis
  proof (rule that [of C])
    show "pt_tree m l (PTE2PA (load64 m (pte_addr pt i))) (C i)"
      if "unat i < 512" "bit (load64 m (pte_addr pt i)) 0" for i
      using that 1 by presburger
    show "C i = {}" if "unat i < 512" "\<not> bit (load64 m (pte_addr pt i)) 0" for i
      using that 1 by presburger
    show "q \<notin> C j" if "unat i < 512" "unat j < 512" "i \<noteq> j" "q \<in> C i" for i j q
      using that 2 by blast
  qed (use C 3 4 in blast)+
qed

lemma pt_tree_SucI:
  assumes "page_aligned pt" "pt \<noteq> 0"
    and "\<And>i. unat i < 512 \<Longrightarrow> bit (load64 m (pte_addr pt i)) 0 \<Longrightarrow>
       pt_tree m l (PTE2PA (load64 m (pte_addr pt i))) (C i)"
    and "\<And>i. unat i < 512 \<Longrightarrow> \<not> bit (load64 m (pte_addr pt i)) 0 \<Longrightarrow> C i = {}"
    and "\<And>i j q. unat i < 512 \<Longrightarrow> unat j < 512 \<Longrightarrow> i \<noteq> j \<Longrightarrow> q \<in> C i \<Longrightarrow> q \<notin> C j"
    and "\<And>i. unat i < 512 \<Longrightarrow> pt \<notin> C i"
    and "T = insert pt (\<Union>i\<in>{i. unat i < 512}. C i)"
  shows "pt_tree m (Suc l) pt T"
  unfolding pt_tree.simps(2)
proof (intro conjI exI [of _ C])
  show "\<forall>i. unat i < 512 \<longrightarrow> (if bit (load64 m (pte_addr pt i)) 0
      then pt_tree m l (PTE2PA (load64 m (pte_addr pt i))) (C i) else C i = {})"
    using assms(3,4) by simp
  show "\<forall>i j. unat i < 512 \<longrightarrow> unat j < 512 \<longrightarrow> i \<noteq> j \<longrightarrow> C i \<inter> C j = {}"
    using assms(5) by blast
qed (use assms(1,2,6,7) in blast)+

lemma pt_tree_root: "pt_tree m l pt T \<Longrightarrow> pt \<in> T \<and> page_aligned pt \<and> pt \<noteq> 0"
  by (cases l) (auto simp: pt_tree.simps(2))

lemma pt_tree_pages: "pt_tree m l pt T \<Longrightarrow> q \<in> T \<Longrightarrow> page_aligned q \<and> q \<noteq> 0"
proof (induction l arbitrary: pt T)
  case 0
  then show ?case by simp
next
  case (Suc l)
  obtain C where C: "page_aligned pt" "pt \<noteq> 0"
    "\<And>i. unat i < 512 \<Longrightarrow> bit (load64 m (pte_addr pt i)) 0 \<Longrightarrow>
       pt_tree m l (PTE2PA (load64 m (pte_addr pt i))) (C i)"
    "\<And>i. unat i < 512 \<Longrightarrow> \<not> bit (load64 m (pte_addr pt i)) 0 \<Longrightarrow> C i = {}"
    "T = insert pt (\<Union>i\<in>{i. unat i < 512}. C i)"
    using Suc.prems(1) by (rule pt_tree_SucE) blast
  show ?case
  proof (cases "q = pt")
    case False
    then obtain i where i: "unat i < 512" "q \<in> C i" using C Suc.prems by auto
    then have "bit (load64 m (pte_addr pt i)) 0" using C(4) by auto
    with i C(3) show ?thesis using Suc.IH by blast
  qed (use C in simp)
qed

text \<open>A table reads only its own pages.\<close>

lemma pt_leaf_cong:
  assumes "pt_tree m l pt T" and "\<And>q x. q \<in> T \<Longrightarrow> in_page q x \<Longrightarrow> m' x = m x"
  shows "pt_leaf m' l pt va = pt_leaf m l pt va"
  using assms
proof (induction l arbitrary: pt T)
  case 0
  then show ?case by simp
next
  case (Suc l)
  from Suc.prems(1) obtain C where C:
    "\<And>i. unat i < 512 \<Longrightarrow> bit (load64 m (pte_addr pt i)) 0 \<Longrightarrow>
       pt_tree m l (PTE2PA (load64 m (pte_addr pt i))) (C i)"
    and T: "T = insert pt (\<Union>i\<in>{i. unat i < 512}. C i)"
    by (rule pt_tree_SucE) blast
  let ?i = "PX (Suc l) va"
  have e: "load64 m' (pte_addr pt ?i) = load64 m (pte_addr pt ?i)"
    using Suc.prems(2) [of pt] T PX_less by (intro load64_in_page_cong) auto
  show ?case
  proof (cases "bit (load64 m (pte_addr pt ?i)) 0")
    case True
    then have "pt_tree m l (PTE2PA (load64 m (pte_addr pt ?i))) (C ?i)"
      using C PX_less by simp
    moreover have "m' x = m x" if "q \<in> C ?i" "in_page q x" for q x
      using that Suc.prems(2) [of q x] T PX_less [of "Suc l" va] by auto
    ultimately show ?thesis using Suc.IH e by (simp add: Let_def)
  qed (simp add: e Let_def)
qed

lemma pt_tree_frame:
  assumes "pt_tree m l pt T" and "\<And>q x. q \<in> T \<Longrightarrow> in_page q x \<Longrightarrow> m' x = m x"
  shows "pt_tree m' l pt T"
  using assms
proof (induction l arbitrary: pt T)
  case 0
  then show ?case by simp
next
  case (Suc l)
  from Suc.prems(1) obtain C where C: "page_aligned pt" "pt \<noteq> 0"
    "\<And>i. unat i < 512 \<Longrightarrow> bit (load64 m (pte_addr pt i)) 0 \<Longrightarrow>
       pt_tree m l (PTE2PA (load64 m (pte_addr pt i))) (C i)"
    "\<And>i. unat i < 512 \<Longrightarrow> \<not> bit (load64 m (pte_addr pt i)) 0 \<Longrightarrow> C i = {}"
    "\<And>i j q. unat i < 512 \<Longrightarrow> unat j < 512 \<Longrightarrow> i \<noteq> j \<Longrightarrow> q \<in> C i \<Longrightarrow> q \<notin> C j"
    "\<And>i. unat i < 512 \<Longrightarrow> pt \<notin> C i"
    and T: "T = insert pt (\<Union>i\<in>{i. unat i < 512}. C i)"
    by (rule pt_tree_SucE) blast
  have e: "load64 m' (pte_addr pt i) = load64 m (pte_addr pt i)" if "unat i < 512" for i
    using Suc.prems(2) [of pt] T that by (intro load64_in_page_cong) auto
  have sub: "pt_tree m' l (PTE2PA (load64 m (pte_addr pt i))) (C i)"
    if "unat i < 512" "bit (load64 m (pte_addr pt i)) 0" for i
    using that Suc.prems(2) T by (intro Suc.IH [OF C(3)]) auto
  show ?case
    by (rule pt_tree_SucI [where C = C]) (use C T sub e in auto)
qed

text \<open>The leaf entry of an address lies in a page of the tree.\<close>

lemma pt_leaf_in_tree:
  assumes "pt_tree m l pt T" and "pt_leaf m l pt va = Some a"
  shows "\<exists>q\<in>T. a = pte_addr q (PX 0 va)"
  using assms
proof (induction l arbitrary: pt T)
  case 0
  then show ?case by simp
next
  case (Suc l)
  from Suc.prems(1) obtain C where C:
    "\<And>i. unat i < 512 \<Longrightarrow> bit (load64 m (pte_addr pt i)) 0 \<Longrightarrow>
       pt_tree m l (PTE2PA (load64 m (pte_addr pt i))) (C i)"
    and T: "T = insert pt (\<Union>i\<in>{i. unat i < 512}. C i)"
    by (rule pt_tree_SucE) blast
  have "bit (load64 m (pte_addr pt (PX (Suc l) va))) 0"
    "pt_leaf m l (PTE2PA (load64 m (pte_addr pt (PX (Suc l) va)))) va = Some a"
    using Suc.prems(2) by (auto simp: Let_def split: if_splits)
  then have "\<exists>q\<in>C (PX (Suc l) va). a = pte_addr q (PX 0 va)"
    using Suc.IH C PX_less by blast
  then show ?case using T PX_less by auto
qed

lemma pt_trans_frame:
  assumes "pt_tree m l pt T" and "\<And>q x. q \<in> T \<Longrightarrow> in_page q x \<Longrightarrow> m' x = m x"
  shows "pt_trans m' l pt va = pt_trans m l pt va"
proof (cases "pt_leaf m l pt va")
  case None
  then show ?thesis using pt_leaf_cong [OF assms] by (simp add: pt_trans_def)
next
  case (Some a)
  then obtain q where q: "q \<in> T" "a = pte_addr q (PX 0 va)"
    using pt_leaf_in_tree [OF assms(1)] by blast
  have "load64 m' a = load64 m a"
    unfolding q(2) using assms(2) q PX_less by (intro load64_in_page_cong) auto
  then show ?thesis using pt_leaf_cong [OF assms] Some by (simp add: pt_trans_def)
qed

section \<open>Writing a leaf entry\<close>

lemma pt_tree_leaf_update:
  assumes "pt_tree m l pt T" and "pt_leaf m l pt va = Some a"
  shows "pt_tree (store64 m a v) l pt T \<and> pt_leaf (store64 m a v) l pt va' = pt_leaf m l pt va'"
  using assms
proof (induction l arbitrary: pt T)
  case 0
  then show ?case by simp
next
  case (Suc l)
  let ?m = "store64 m a v" and ?i = "PX (Suc l) va"
  from Suc.prems(1) obtain C where C: "page_aligned pt" "pt \<noteq> 0"
    "\<And>i. unat i < 512 \<Longrightarrow> bit (load64 m (pte_addr pt i)) 0 \<Longrightarrow>
       pt_tree m l (PTE2PA (load64 m (pte_addr pt i))) (C i)"
    "\<And>i. unat i < 512 \<Longrightarrow> \<not> bit (load64 m (pte_addr pt i)) 0 \<Longrightarrow> C i = {}"
    "\<And>i j q. unat i < 512 \<Longrightarrow> unat j < 512 \<Longrightarrow> i \<noteq> j \<Longrightarrow> q \<in> C i \<Longrightarrow> q \<notin> C j"
    "\<And>i. unat i < 512 \<Longrightarrow> pt \<notin> C i"
    and T: "T = insert pt (\<Union>i\<in>{i. unat i < 512}. C i)"
    by (rule pt_tree_SucE) blast
  have b: "bit (load64 m (pte_addr pt ?i)) 0"
    and leaf: "pt_leaf m l (PTE2PA (load64 m (pte_addr pt ?i))) va = Some a"
    using Suc.prems(2) by (auto simp: Let_def split: if_splits)
  have ti: "pt_tree m l (PTE2PA (load64 m (pte_addr pt ?i))) (C ?i)"
    using C(3) b PX_less by blast
  obtain q where q: "q \<in> C ?i" "a = pte_addr q (PX 0 va)"
    using pt_leaf_in_tree [OF ti leaf] by blast
  have qa: "page_aligned q" using pt_tree_pages [OF ti q(1)] by simp
  have out: "?m x = m x" if "\<not> in_page q x" for x
    unfolding q(2) using that PX_less by (intro store64_in_page) auto
  have e: "load64 ?m (pte_addr pt i) = load64 m (pte_addr pt i)" if i: "unat i < 512" for i
  proof -
    have "(pt, i) \<noteq> (q, PX 0 va)" using C(6) [OF PX_less] q(1) by auto
    then show ?thesis
      unfolding q(2) using C(1) qa i PX_less by (intro load64_store64_pte) auto
  qed
  have other: "?m x = m x" if "unat j < 512" "j \<noteq> ?i" "r \<in> C j" "in_page r x" for j r x
  proof (rule out)
    have "r \<noteq> q" using C(5) [of j ?i r] that q(1) PX_less by auto
    moreover have "page_aligned r"
      using that T pt_tree_pages [OF Suc.prems(1), of r] by auto
    ultimately show "\<not> in_page q x" using that qa in_page_disjoint [of r q x] by simp
  qed
  have sub: "pt_tree ?m l (PTE2PA (load64 m (pte_addr pt j))) (C j) \<and>
      pt_leaf ?m l (PTE2PA (load64 m (pte_addr pt j))) va' =
      pt_leaf m l (PTE2PA (load64 m (pte_addr pt j))) va'"
    if j: "unat j < 512" "bit (load64 m (pte_addr pt j)) 0" for j
  proof (cases "j = ?i")
    case True
    then show ?thesis using Suc.IH [OF ti leaf] by simp
  next
    case False
    then show ?thesis
      using j other C(3) pt_tree_frame [OF C(3) [OF j], of ?m] pt_leaf_cong [OF C(3) [OF j], of ?m]
      by blast
  qed
  have "pt_tree ?m (Suc l) pt T"
    by (rule pt_tree_SucI [where C = C]) (use C T sub e in auto)
  moreover have "pt_leaf ?m (Suc l) pt va' = pt_leaf m (Suc l) pt va'"
    using e [OF PX_less] sub [OF PX_less] by (simp add: Let_def)
  ultimately show ?case by simp
qed


text \<open>Addresses with different indices have different leaf entries.\<close>

lemma pt_leaf_distinct:
  assumes "pt_tree m l pt T" and "pt_leaf m l pt va = Some a" and "pt_leaf m l pt va' = Some a'"
    and "k \<le> l" and "PX k va \<noteq> PX k va'"
  shows "\<exists>q q'. q \<in> T \<and> q' \<in> T \<and> a = pte_addr q (PX 0 va) \<and> a' = pte_addr q' (PX 0 va') \<and>
    (q, PX 0 va) \<noteq> (q', PX 0 va')"
  using assms
proof (induction l arbitrary: pt T)
  case 0
  then show ?case by auto
next
  case (Suc l)
  let ?i = "PX (Suc l) va" and ?j = "PX (Suc l) va'"
  from Suc.prems(1) obtain C where
    C: "\<And>i. unat i < 512 \<Longrightarrow> bit (load64 m (pte_addr pt i)) 0 \<Longrightarrow>
       pt_tree m l (PTE2PA (load64 m (pte_addr pt i))) (C i)"
    "\<And>i j q. unat i < 512 \<Longrightarrow> unat j < 512 \<Longrightarrow> i \<noteq> j \<Longrightarrow> q \<in> C i \<Longrightarrow> q \<notin> C j"
    and T: "T = insert pt (\<Union>i\<in>{i. unat i < 512}. C i)"
    by (rule pt_tree_SucE) blast
  have l1: "bit (load64 m (pte_addr pt ?i)) 0"
    "pt_leaf m l (PTE2PA (load64 m (pte_addr pt ?i))) va = Some a"
    and l2: "bit (load64 m (pte_addr pt ?j)) 0"
    "pt_leaf m l (PTE2PA (load64 m (pte_addr pt ?j))) va' = Some a'"
    using Suc.prems(2,3) by (auto simp: Let_def split: if_splits)
  show ?case
  proof (cases "?i = ?j")
    case True
    then have "k \<le> l" using Suc.prems by (cases "k = Suc l") auto
    then show ?thesis
      using Suc.IH [OF C(1) [OF PX_less l1(1)] l1(2)] l2(2) True Suc.prems(5) T PX_less [of "Suc l" va]
      by auto
  next
    case False
    obtain q where q: "q \<in> C ?i" "a = pte_addr q (PX 0 va)"
      using pt_leaf_in_tree [OF C(1) [OF PX_less l1(1)] l1(2)] by blast
    obtain q' where q': "q' \<in> C ?j" "a' = pte_addr q' (PX 0 va')"
      using pt_leaf_in_tree [OF C(1) [OF PX_less l2(1)] l2(2)] by blast
    have "q \<noteq> q'" using C(2) [OF PX_less PX_less False q(1)] q'(1) by auto
    then show ?thesis using q q' T PX_less by blast
  qed
qed

lemma pt_leaf_PX_cong:
  assumes "\<And>k. k \<le> l \<Longrightarrow> PX k va = PX k va'"
  shows "pt_leaf m l pt va = pt_leaf m l pt va'"
  using assms by (induction l arbitrary: pt) (auto simp: Let_def)

lemma pt_trans_leaf_update:
  assumes "pt_tree m l pt T" and "pt_leaf m l pt va = Some a"
  shows "pt_trans (store64 m a v) l pt va' =
    (if \<forall>k\<le>l. PX k va = PX k va' then (if bit v 0 then Some v else None) else pt_trans m l pt va')"
proof -
  have leaf: "pt_leaf (store64 m a v) l pt va' = pt_leaf m l pt va'"
    using pt_tree_leaf_update [OF assms] by simp
  show ?thesis
  proof (cases "\<forall>k\<le>l. PX k va = PX k va'")
    case True
    then have "pt_leaf m l pt va' = Some a" using assms(2) pt_leaf_PX_cong [of l va va'] by simp
    then show ?thesis using True leaf by (simp add: pt_trans_def)
  next
    case False
    then obtain k where k: "k \<le> l" "PX k va \<noteq> PX k va'" by auto
    show ?thesis
    proof (cases "pt_leaf m l pt va'")
      case None
      then show ?thesis using leaf False by (auto simp: pt_trans_def)
    next
      case (Some a')
      obtain q q' where q: "q \<in> T" "q' \<in> T" "a = pte_addr q (PX 0 va)"
          "a' = pte_addr q' (PX 0 va')" "(q, PX 0 va) \<noteq> (q', PX 0 va')"
        using pt_leaf_distinct [OF assms Some k] by blast
      have "load64 (store64 m a v) a' = load64 m a'"
        unfolding q(3,4) using q pt_tree_pages [OF assms(1)] PX_less
        by (intro load64_store64_pte) auto
      then show ?thesis using leaf False Some by (auto simp: pt_trans_def)
    qed
  qed
qed

section \<open>Fresh table pages\<close>

lemma load_le_zero: "(\<And>i. i < k \<Longrightarrow> m (a + of_nat i) = 0) \<Longrightarrow> load_le m a k = 0"
proof (induction k arbitrary: a)
  case 0
  then show ?case by simp
next
  case (Suc k)
  have "m (a + 1 + of_nat i) = 0" if "i < k" for i
    using Suc.prems [of "Suc i"] that by (simp add: add.assoc)
  then show ?case using Suc.IH [of "a + 1"] Suc.prems [of 0] by simp
qed

lemma load64_zero_page:
  assumes "\<And>x. in_page p x \<Longrightarrow> m x = 0" and "unat i < 512"
  shows "load64 m (pte_addr p i) = 0"
proof -
  have "load64 m (pte_addr p i) = load64 (\<lambda>_. 0) (pte_addr p i)"
    using assms by (intro load64_in_page_cong) auto
  then show ?thesis by (simp add: load64_def load_le_zero)
qed

lemma pt_tree_zero_page:
  assumes "\<And>x. in_page p x \<Longrightarrow> m x = 0" and "page_aligned p" and "p \<noteq> 0"
  shows "pt_tree m l p {p}"
proof (cases l)
  case 0
  then show ?thesis using assms by simp
next
  case (Suc l')
  show ?thesis
    unfolding Suc by (rule pt_tree_SucI [where C = "\<lambda>_. {}"]) (use assms load64_zero_page in auto)
qed

lemma pt_trans_zero_page:
  assumes "\<And>x. in_page p x \<Longrightarrow> m x = 0"
  shows "pt_trans m l p va = None"
  using load64_zero_page [of p m, OF assms PX_less]
  by (cases l) (auto simp: pt_trans_def Let_def)

text \<open>Memory changes outside the free pages leave the allocator's state as it is.\<close>

lemma kmem_rep_frame:
  assumes "kmem_rep kend s F" and "\<And>q x. q \<in> F \<Longrightarrow> in_page q x \<Longrightarrow> m x = pmem s x"
  shows "kmem_rep kend (s\<lparr>pmem := m\<rparr>) F"
proof -
  obtain ps where ps: "run_chain (pmem s) (freelist s) ps" "distinct ps" "F = set ps"
    using assms by (auto simp: kmem_rep_def)
  have "run_chain m (freelist s) ps"
    using ps(1) by (rule run_chain_frame) (use assms(2) ps in auto)
  then show ?thesis using assms(1) ps by (auto simp: kmem_rep_def)
qed

section \<open>Walking with allocation\<close>

text \<open>
  \<open>vm_inv kend s l pt T F\<close>: the table at \<open>pt\<close> is a tree over the pages \<open>T\<close>, the allocator holds
  the free pages \<open>F\<close>, and no page is both.
\<close>

definition vm_inv :: "u64 \<Rightarrow> phys \<Rightarrow> nat \<Rightarrow> u64 \<Rightarrow> u64 set \<Rightarrow> u64 set \<Rightarrow> bool" where
  "vm_inv kend s l pt T F \<longleftrightarrow> pt_tree (pmem s) l pt T \<and> kmem_rep kend s F \<and> T \<inter> F = {}"

lemma bit_PTE_table [simp]: "bit (PA2PTE pg OR PTE_V) 0"
  by (simp add: PTE_V_def bit_simps)

lemma PTE2PA_table [simp]: "page_aligned pg \<Longrightarrow> PTE2PA (PA2PTE pg OR PTE_V) = pg"
  by (rule PTE2PA_PA2PTE) (simp_all add: PTE_V_def)

lemma walk_loop_noalloc: "walk_loop l pt va False s = (case pt_leaf (pmem s) l pt va of None \<Rightarrow> 0 | Some a \<Rightarrow> a, s)"
  by (induction l arbitrary: pt) (auto simp: Let_def and_PTE_eq_0_iff)

end
