(* ===== verification/Vm_Map.thy ===== *)
theory Vm_Map
  imports Vm_Table
begin

text \<open>
  Correctness of \<open>walk\<close>, \<open>mappages\<close> and \<open>uvmunmap\<close> on tables that satisfy \<open>vm_inv\<close>: which
  translations they add, remove and keep, which pages move between the free list and the table,
  and when they fail.
\<close>

section \<open>walk with allocation\<close>

definition walk_post :: "u64 \<Rightarrow> nat \<Rightarrow> u64 \<Rightarrow> u64 \<Rightarrow> phys \<Rightarrow> u64 set \<Rightarrow> u64 set \<Rightarrow> u64 \<Rightarrow> phys \<Rightarrow>
    u64 set \<Rightarrow> u64 set \<Rightarrow> bool" where
  "walk_post kend l pt va s T F pte s' T' F' \<longleftrightarrow>
     vm_inv kend s' l pt T' F' \<and> T \<subseteq> T' \<and> F' \<subseteq> F \<and> T' \<union> F' = T \<union> F \<and>
     (\<forall>va'. pt_trans (pmem s') l pt va' = pt_trans (pmem s) l pt va') \<and>
     (pte \<noteq> 0 \<longrightarrow> pt_leaf (pmem s') l pt va = Some pte) \<and> (pte = 0 \<longrightarrow> F' = {}) \<and>
     (\<forall>x. (\<forall>q\<in>T \<union> F. \<not> in_page q x) \<longrightarrow> pmem s' x = pmem s x)"

lemma pt_trans_Suc:
  "pt_trans m (Suc l) pt va =
     (let e = load64 m (pte_addr pt (PX (Suc l) va))
      in if bit e 0 then pt_trans m l (PTE2PA e) va else None)"
  by (simp add: pt_trans_def Let_def)

lemma pte_addr_nonzero:
  assumes "page_aligned q" and "q \<noteq> 0" and "unat i < 512"
  shows "pte_addr q i \<noteq> 0"
proof
  assume "pte_addr q i = 0"
  then have "in_page q 0"
    using in_page_word [of i 0 q] assms(3) by (simp add: pte_addr_def)
  then have "PGROUNDDOWN 0 = q" using assms(1) by (simp add: in_page_iff)
  moreover have "PGROUNDDOWN 0 = 0" by (simp add: PGROUNDDOWN_def)
  ultimately show False using assms(2) by simp
qed

lemma pt_leaf_nonzero:
  assumes "pt_tree m l pt T" and "pt_leaf m l pt va = Some a"
  shows "a \<noteq> 0"
proof -
  obtain q where "q \<in> T" "a = pte_addr q (PX 0 va)"
    using pt_leaf_in_tree [OF assms] by blast
  then show ?thesis
    using pt_tree_pages [OF assms(1) \<open>q \<in> T\<close>] pte_addr_nonzero [OF _ _ PX_less] by simp
qed

lemma pt_tree_unique: "pt_tree m k p A \<Longrightarrow> pt_tree m k p B \<Longrightarrow> A = B"
proof (induction k arbitrary: p A B)
  case 0
  then show ?case by simp
next
  case (Suc k)
  from Suc.prems(1) obtain C where C:
    "\<And>i. unat i < 512 \<Longrightarrow> bit (load64 m (pte_addr p i)) 0 \<Longrightarrow>
       pt_tree m k (PTE2PA (load64 m (pte_addr p i))) (C i)"
    "\<And>i. unat i < 512 \<Longrightarrow> \<not> bit (load64 m (pte_addr p i)) 0 \<Longrightarrow> C i = {}"
    and A: "A = insert p (\<Union>i\<in>{i. unat i < 512}. C i)"
    by (rule pt_tree_SucE) blast
  from Suc.prems(2) obtain D where D:
    "\<And>i. unat i < 512 \<Longrightarrow> bit (load64 m (pte_addr p i)) 0 \<Longrightarrow>
       pt_tree m k (PTE2PA (load64 m (pte_addr p i))) (D i)"
    "\<And>i. unat i < 512 \<Longrightarrow> \<not> bit (load64 m (pte_addr p i)) 0 \<Longrightarrow> D i = {}"
    and B: "B = insert p (\<Union>i\<in>{i. unat i < 512}. D i)"
    by (rule pt_tree_SucE) blast
  have "C i = D i" if "unat i < 512" for i
  proof (cases "bit (load64 m (pte_addr p i)) 0")
    case True
    then show ?thesis using Suc.IH [OF C(1) D(1)] that by blast
  qed (use C(2) D(2) that in simp)
  then show ?case using A B by auto
qed

text \<open>Replacing one child subtree of a table, the rest of the table untouched.\<close>

lemma pt_tree_replace_child:
  assumes tree: "pt_tree m (Suc l) pt T"
    and i: "unat i < 512"
    and child: "pt_tree m' l (PTE2PA (load64 m' (pte_addr pt i))) Ci'"
      "bit (load64 m' (pte_addr pt i)) 0"
    and fresh: "Ci' \<inter> T \<subseteq> Ci" "pt \<notin> Ci'"
    and Ci: "bit (load64 m (pte_addr pt i)) 0 \<Longrightarrow>
        pt_tree m l (PTE2PA (load64 m (pte_addr pt i))) Ci"
      "\<not> bit (load64 m (pte_addr pt i)) 0 \<Longrightarrow> Ci = {}"
    and keep: "\<And>q x. q \<in> T \<Longrightarrow> q \<noteq> pt \<Longrightarrow> q \<notin> Ci \<Longrightarrow> in_page q x \<Longrightarrow> m' x = m x"
    and root: "\<And>j. unat j < 512 \<Longrightarrow> j \<noteq> i \<Longrightarrow> load64 m' (pte_addr pt j) = load64 m (pte_addr pt j)"
    and sub: "Ci \<subseteq> Ci'"
  shows "pt_tree m' (Suc l) pt (T \<union> Ci') \<and>
    (\<forall>va. PX (Suc l) va \<noteq> i \<longrightarrow> pt_trans m' (Suc l) pt va = pt_trans m (Suc l) pt va)"
proof -
  from tree obtain C where C: "page_aligned pt" "pt \<noteq> 0"
    "\<And>i. unat i < 512 \<Longrightarrow> bit (load64 m (pte_addr pt i)) 0 \<Longrightarrow>
       pt_tree m l (PTE2PA (load64 m (pte_addr pt i))) (C i)"
    "\<And>i. unat i < 512 \<Longrightarrow> \<not> bit (load64 m (pte_addr pt i)) 0 \<Longrightarrow> C i = {}"
    "\<And>i j q. unat i < 512 \<Longrightarrow> unat j < 512 \<Longrightarrow> i \<noteq> j \<Longrightarrow> q \<in> C i \<Longrightarrow> q \<notin> C j"
    "\<And>i. unat i < 512 \<Longrightarrow> pt \<notin> C i"
    and T: "T = insert pt (\<Union>i\<in>{i. unat i < 512}. C i)"
    by (rule pt_tree_SucE) blast
  have Ci_eq: "C i = Ci"
    using pt_tree_unique C(3,4) [OF i] Ci by (cases "bit (load64 m (pte_addr pt i)) 0") auto
  have same: "m' x = m x" if "unat j < 512" "j \<noteq> i" "q \<in> C j" "in_page q x" for j q x
  proof (rule keep [OF _ _ _ that(4)])
    show "q \<in> T" using that T by auto
    show "q \<noteq> pt" using C(6) that by auto
    show "q \<notin> Ci" using C(5) [of j i q] that i Ci_eq by auto
  qed
  have subtree: "pt_tree m' l (PTE2PA (load64 m (pte_addr pt j))) (C j) \<and>
      (\<forall>va. pt_trans m' l (PTE2PA (load64 m (pte_addr pt j))) va =
        pt_trans m l (PTE2PA (load64 m (pte_addr pt j))) va)"
    if "unat j < 512" "j \<noteq> i" "bit (load64 m (pte_addr pt j)) 0" for j
    using same [OF that(1,2)] pt_tree_frame [OF C(3) [OF that(1,3)], of m']
      pt_trans_frame [OF C(3) [OF that(1,3)], of m'] by blast
  let ?C = "C(i := Ci')"
  have "pt_tree m' (Suc l) pt (T \<union> Ci')"
  proof (rule pt_tree_SucI [where C = ?C])
    show "pt_tree m' l (PTE2PA (load64 m' (pte_addr pt j))) (?C j)"
      if "unat j < 512" "bit (load64 m' (pte_addr pt j)) 0" for j
      using that child subtree root by (cases "j = i") auto
    show "?C j = {}" if "unat j < 512" "\<not> bit (load64 m' (pte_addr pt j)) 0" for j
      using that child root C(4) by (cases "j = i") auto
    show "q \<notin> ?C k" if "unat j < 512" "unat k < 512" "j \<noteq> k" "q \<in> ?C j" for j k q
    proof -
      have "q \<notin> C k'" if "q \<in> Ci'" "unat k' < 512" "k' \<noteq> i" for k'
        using that fresh(1) C(5) [of i k' q] i T Ci_eq by auto
      then show ?thesis using that C(5) [of j k q] by (auto split: if_splits)
    qed
    show "pt \<notin> ?C j" if "unat j < 512" for j
      using that C(6) fresh(2) by auto
    show "T \<union> Ci' = insert pt (\<Union>j\<in>{j. unat j < 512}. ?C j)"
      using T i sub Ci_eq by (auto split: if_splits)
  qed (use C in auto)
  moreover have "pt_trans m' (Suc l) pt va = pt_trans m (Suc l) pt va" if "PX (Suc l) va \<noteq> i" for va
    using that root [OF PX_less that] subtree [OF PX_less that] by (simp add: pt_trans_Suc Let_def)
  ultimately show ?thesis by blast
qed


lemma walk_loop_alloc_valid:
  assumes inv: "vm_inv kend s (Suc l) pt T F"
    and e: "bit (load64 (pmem s) (pte_addr pt (PX (Suc l) va))) 0"
    and IH: "\<And>T F. vm_inv kend s l (PTE2PA (load64 (pmem s) (pte_addr pt (PX (Suc l) va)))) T F \<Longrightarrow>
      \<exists>T' F'. walk_post kend l (PTE2PA (load64 (pmem s) (pte_addr pt (PX (Suc l) va)))) va s T F
        pte s' T' F'"
  shows "\<exists>T' F'. walk_post kend (Suc l) pt va s T F pte s' T' F'"
proof -
  let ?i = "PX (Suc l) va"
  let ?e = "load64 (pmem s) (pte_addr pt ?i)"
  have tree: "pt_tree (pmem s) (Suc l) pt T" and rep: "kmem_rep kend s F" and TF: "T \<inter> F = {}"
    using inv by (auto simp: vm_inv_def)
  from tree obtain C where C: "page_aligned pt"
    "\<And>i. unat i < 512 \<Longrightarrow> bit (load64 (pmem s) (pte_addr pt i)) 0 \<Longrightarrow>
       pt_tree (pmem s) l (PTE2PA (load64 (pmem s) (pte_addr pt i))) (C i)"
    "\<And>i. unat i < 512 \<Longrightarrow> pt \<notin> C i"
    and T: "T = insert pt (\<Union>i\<in>{i. unat i < 512}. C i)"
    by (rule pt_tree_SucE) blast
  have ti: "pt_tree (pmem s) l (PTE2PA ?e) (C ?i)" using C(2) PX_less e by blast
  have CT: "C ?i \<subseteq> T" using T PX_less by auto
  have "vm_inv kend s l (PTE2PA ?e) (C ?i) F"
    using ti rep TF CT by (auto simp: vm_inv_def)
  from IH [OF this] obtain Ci' F' where post: "walk_post kend l (PTE2PA ?e) va s (C ?i) F pte s' Ci' F'"
    by blast
  then have inv': "pt_tree (pmem s') l (PTE2PA ?e) Ci'" "kmem_rep kend s' F'" "Ci' \<inter> F' = {}"
    and sub: "C ?i \<subseteq> Ci'" "F' \<subseteq> F" "Ci' \<union> F' = C ?i \<union> F"
    and tr: "\<And>va'. pt_trans (pmem s') l (PTE2PA ?e) va' = pt_trans (pmem s) l (PTE2PA ?e) va'"
    and leaf: "pte \<noteq> 0 \<Longrightarrow> pt_leaf (pmem s') l (PTE2PA ?e) va = Some pte" "pte = 0 \<Longrightarrow> F' = {}"
    and frame: "\<And>x. (\<And>q. q \<in> C ?i \<union> F \<Longrightarrow> \<not> in_page q x) \<Longrightarrow> pmem s' x = pmem s x"
    by (auto simp: walk_post_def vm_inv_def)
  have al: "page_aligned q" if "q \<in> T \<union> F" for q
    using that pt_tree_pages [OF tree] kmem.rep_page [OF rep] by auto
  have keep: "pmem s' x = pmem s x" if "q \<in> T" "q \<notin> C ?i" "in_page q x" for q x
  proof (rule frame)
    fix r assume r: "r \<in> C ?i \<union> F"
    then have "q \<noteq> r" using that TF by auto
    then show "\<not> in_page r x" using that r CT al in_page_disjoint [of q r x] by auto
  qed
  have ptC: "pt \<in> T" "pt \<notin> C ?i" using T C(3) PX_less by auto
  have root: "load64 (pmem s') (pte_addr pt j) = load64 (pmem s) (pte_addr pt j)" if "unat j < 512" for j
    using that keep ptC by (intro load64_in_page_cong) auto
  have e': "load64 (pmem s') (pte_addr pt ?i) = ?e" by (rule root [OF PX_less])
  have rep: "pt_tree (pmem s') (Suc l) pt (T \<union> Ci') \<and> (\<forall>va'. PX (Suc l) va' \<noteq> ?i \<longrightarrow>
      pt_trans (pmem s') (Suc l) pt va' = pt_trans (pmem s) (Suc l) pt va')"
  proof (rule pt_tree_replace_child [OF tree PX_less, where Ci = "C ?i"])
    show "pt \<notin> Ci'" "Ci' \<inter> T \<subseteq> C ?i" using ptC sub TF by auto
  qed (use inv' e e' ti keep root sub in auto)
  have "pt_trans (pmem s') (Suc l) pt va' = pt_trans (pmem s) (Suc l) pt va'" for va'
    using rep tr e' e by (cases "PX (Suc l) va' = ?i") (auto simp: pt_trans_Suc Let_def)
  moreover have "pt_leaf (pmem s') (Suc l) pt va = Some pte" if "pte \<noteq> 0"
    using that leaf e e' by (simp add: Let_def)
  moreover have "(T \<union> Ci') \<inter> F' = {}" "T \<union> Ci' \<union> F' = T \<union> F"
    using inv'(3) sub TF CT by auto
  moreover have "\<forall>x. (\<forall>q\<in>T \<union> F. \<not> in_page q x) \<longrightarrow> pmem s' x = pmem s x"
    using frame CT by blast
  ultimately have "walk_post kend (Suc l) pt va s T F pte s' (T \<union> Ci') F'"
    using rep inv' sub leaf unfolding walk_post_def vm_inv_def by blast
  then show ?thesis by blast
qed


text \<open>The state \<open>walk\<close> leaves after it linked a fresh, zeroed table page.\<close>

definition link_table :: "u64 \<Rightarrow> u64 \<Rightarrow> phys \<Rightarrow> phys" where
  "link_table pte pg s1 =
     s1\<lparr>pmem := store64 (memset (pmem s1) pg 0 4096) pte (PA2PTE pg OR PTE_V)\<rparr>"

lemma link_table_other:
  assumes "\<not> in_page pg x" and "\<not> in_page pt x" and "unat i < 512"
  shows "pmem (link_table (pte_addr pt i) pg s1) x = pmem s1 x"
  using assms store64_in_page [OF assms(3,2)] by (simp add: link_table_def memset_page)

lemma link_table_zero:
  assumes "in_page pg x" and "page_aligned pg" "page_aligned pt" "pg \<noteq> pt" and "unat i < 512"
  shows "pmem (link_table (pte_addr pt i) pg s1) x = 0"
proof -
  have "\<not> in_page pt x" using assms in_page_disjoint by blast
  then show ?thesis
    using assms store64_in_page [OF assms(5)] by (simp add: link_table_def memset_page)
qed

lemma walk_loop_alloc_fresh:
  assumes inv: "vm_inv kend s (Suc l) pt T F"
    and e: "\<not> bit (load64 (pmem s) (pte_addr pt (PX (Suc l) va))) 0"
    and alloc: "kalloc s = (pg, s1)" "pg \<noteq> 0"
    and IH: "\<And>T F. vm_inv kend (link_table (pte_addr pt (PX (Suc l) va)) pg s1) l pg T F \<Longrightarrow>
      \<exists>T' F'. walk_post kend l pg va (link_table (pte_addr pt (PX (Suc l) va)) pg s1) T F pte s' T' F'"
  shows "\<exists>T' F'. walk_post kend (Suc l) pt va s T F pte s' T' F'"
proof -
  let ?i = "PX (Suc l) va"
  let ?s2 = "link_table (pte_addr pt ?i) pg s1"
  have tree: "pt_tree (pmem s) (Suc l) pt T" and rep: "kmem_rep kend s F" and TF: "T \<inter> F = {}"
    using inv by (auto simp: vm_inv_def)
  have "F \<noteq> {}" using kmem.alloc_zero_iff [OF rep] alloc by auto
  then have pg: "pg \<in> F" and rep1: "kmem_rep kend s1 (F - {pg})"
    using kmem.alloc_some [OF rep] alloc(1) by auto
  have ptT: "pt \<in> T" using pt_tree_root [OF tree] by simp
  have al: "page_aligned q" if "q \<in> T \<union> F" for q
    using that pt_tree_pages [OF tree] kmem.rep_page [OF rep] by auto
  have ne: "pg \<noteq> pt" using pg ptT TF by auto
  have apart: "\<not> in_page r x" if "q \<in> T \<union> F" "r \<in> T \<union> F" "q \<noteq> r" "in_page q x" for q r x
    using that al in_page_disjoint by blast
  have s2: "pmem ?s2 x = pmem s x" if "\<not> in_page pg x" "\<not> in_page pt x" for x
    using that link_table_other [OF that PX_less] kalloc_frame [OF alloc(1) that(1)] by simp
  have zero: "pmem ?s2 x = 0" if "in_page pg x" for x
    using that link_table_zero ne al pg ptT PX_less by auto
  have "kmem_rep kend ?s2 (F - {pg})"
  proof -
    have "store64 (memset (pmem s1) pg 0 4096) (pte_addr pt ?i) (PA2PTE pg OR PTE_V) x = pmem s1 x"
      if "q \<in> F - {pg}" "in_page q x" for q x
      using link_table_other [of pg x pt ?i s1] apart [of q pg x] apart [of q pt x] that pg ptT TF PX_less
      by (auto simp: link_table_def)
    then show ?thesis unfolding link_table_def by (rule kmem_rep_frame [OF rep1])
  qed
  moreover have "pt_tree (pmem ?s2) l pg {pg}"
    using zero al pg kmem.rep_page [OF rep pg] by (intro pt_tree_zero_page) auto
  ultimately have "vm_inv kend ?s2 l pg {pg} (F - {pg})" by (simp add: vm_inv_def)
  from IH [OF this] obtain T1 F' where post: "walk_post kend l pg va ?s2 {pg} (F - {pg}) pte s' T1 F'"
    by blast
  then have inv': "pt_tree (pmem s') l pg T1" "kmem_rep kend s' F'" "T1 \<inter> F' = {}"
    and sub: "pg \<in> T1" "F' \<subseteq> F" "T1 \<union> F' = F"
    and tr: "\<And>va'. pt_trans (pmem s') l pg va' = pt_trans (pmem ?s2) l pg va'"
    and leaf: "pte \<noteq> 0 \<Longrightarrow> pt_leaf (pmem s') l pg va = Some pte" "pte = 0 \<Longrightarrow> F' = {}"
    and frame: "\<And>x. (\<And>q. q \<in> F \<Longrightarrow> \<not> in_page q x) \<Longrightarrow> pmem s' x = pmem ?s2 x"
    using pg by (auto simp: walk_post_def vm_inv_def)
  have s': "pmem s' x = pmem ?s2 x" if "q \<in> T" "in_page q x" for q x
    using that apart TF by (intro frame) blast
  have keep: "pmem s' x = pmem s x" if "q \<in> T" "q \<noteq> pt" "in_page q x" for q x
    using s' [OF that(1,3)] s2 [of x] apart [of q pg x] apart [of q pt x] that pg ptT TF by auto
  have root: "load64 (pmem s') (pte_addr pt j) = (if j = ?i then PA2PTE pg OR PTE_V
      else load64 (pmem s) (pte_addr pt j))" if j: "unat j < 512" for j
  proof -
    have "load64 (pmem s') (pte_addr pt j) = load64 (pmem ?s2) (pte_addr pt j)"
      using j s' ptT by (intro load64_in_page_cong) auto
    also have "\<dots> = (if j = ?i then PA2PTE pg OR PTE_V
        else load64 (memset (pmem s1) pg 0 4096) (pte_addr pt j))"
      using load64_store64_pte [of pt pt j ?i] j al ptT PX_less by (auto simp: link_table_def)
    also have "load64 (memset (pmem s1) pg 0 4096) (pte_addr pt j) = load64 (pmem s) (pte_addr pt j)"
      using j apart [of pt pg] ptT pg ne kalloc_frame [OF alloc(1)]
      by (intro load64_in_page_cong) (auto simp: memset_page)
    finally show ?thesis .
  qed
  have e': "load64 (pmem s') (pte_addr pt ?i) = PA2PTE pg OR PTE_V" by (simp add: root PX_less)
  have pga: "page_aligned pg" using al pg by simp
  have new: "pt_tree (pmem s') (Suc l) pt (T \<union> T1) \<and> (\<forall>va'. PX (Suc l) va' \<noteq> ?i \<longrightarrow>
      pt_trans (pmem s') (Suc l) pt va' = pt_trans (pmem s) (Suc l) pt va')"
    by (rule pt_tree_replace_child [OF tree PX_less, where Ci = "{}"])
      (use inv' e e' pga keep root sub TF ptT PX_less in auto)
  have "pt_trans (pmem s') (Suc l) pt va' = pt_trans (pmem s) (Suc l) pt va'" for va'
    using new tr [of va'] e' e pga pt_trans_zero_page [of pg "pmem ?s2" l va'] zero
    by (cases "PX (Suc l) va' = ?i") (auto simp: pt_trans_Suc Let_def)
  moreover have "pt_leaf (pmem s') (Suc l) pt va = Some pte" if "pte \<noteq> 0"
    using that leaf e' pga by (simp add: Let_def)
  moreover have "(T \<union> T1) \<inter> F' = {}" "T \<union> T1 \<union> F' = T \<union> F"
    using inv'(3) sub TF by auto
  moreover have "pmem s' x = pmem s x" if "\<forall>q\<in>T \<union> F. \<not> in_page q x" for x
    using that frame [of x] s2 [of x] pg ptT by auto
  ultimately have "walk_post kend (Suc l) pt va s T F pte s' (T \<union> T1) F'"
    using new inv' sub leaf unfolding walk_post_def vm_inv_def by blast
  then show ?thesis by blast
qed

lemma walk_loop_alloc:
  assumes "vm_inv kend s l pt T F" and "walk_loop l pt va True s = (pte, s')"
  shows "\<exists>T' F'. walk_post kend l pt va s T F pte s' T' F'"
  using assms
proof (induction l arbitrary: pt s T F)
  case 0
  then have pte: "pte = pte_addr pt (PX 0 va)" "s' = s" by simp_all
  have "pte \<noteq> 0"
    using 0 pt_tree_root [of "pmem s" 0 pt T] pte_addr_nonzero [OF _ _ PX_less]
    unfolding pte vm_inv_def by blast
  then have "walk_post kend 0 pt va s T F pte s' T F"
    using 0 pte unfolding walk_post_def by simp
  then show ?case by blast
next
  case (Suc l)
  let ?pte = "pte_addr pt (PX (Suc l) va)"
  show ?case
  proof (cases "bit (load64 (pmem s) ?pte) 0")
    case True
    then have "walk_loop l (PTE2PA (load64 (pmem s) ?pte)) va True s = (pte, s')"
      using Suc.prems(2) by (simp add: Let_def and_PTE_eq_0_iff)
    with Suc.IH show ?thesis by (intro walk_loop_alloc_valid [OF Suc.prems(1) True]) blast
  next
    case False
    obtain pg s1 where alloc: "kalloc s = (pg, s1)" by (cases "kalloc s")
    have rep: "kmem_rep kend s F" using Suc.prems(1) by (simp add: vm_inv_def)
    show ?thesis
    proof (cases "pg = 0")
      case True
      then have "F = {}" using kmem.alloc_zero_iff [OF rep] alloc by simp
      then have "s1 = s" using kmem.alloc_none rep alloc by auto
      then have "pte = 0" "s' = s"
        using True False Suc.prems(2) alloc by (simp_all add: Let_def and_PTE_eq_0_iff)
      then have "walk_post kend (Suc l) pt va s T F pte s' T F"
        using Suc.prems(1) \<open>F = {}\<close> unfolding walk_post_def by simp
      then show ?thesis by blast
    next
      case pg: False
      then have "walk_loop l pg va True (link_table ?pte pg s1) = (pte, s')"
        using Suc.prems(2) False alloc by (simp add: Let_def and_PTE_eq_0_iff link_table_def)
      with Suc.IH show ?thesis
        by (intro walk_loop_alloc_fresh [OF Suc.prems(1) False alloc pg]) blast
    qed
  qed
qed

end
