(* ===== verification/Vm_Ops.thy ===== *)
theory Vm_Ops
  imports Vm_Map
begin

text \<open>
  Correctness of the operations of \<^verbatim>\<open>kernel/vm.c\<close> that the rest of the kernel calls:
  \<open>mappages\<close> adds exactly the requested translations, \<open>uvmunmap\<close> removes exactly the requested
  ones and returns the pages to the allocator, \<open>walkaddr\<close> reads the translation. The shared step
  lemmas say what one iteration of each loop does to translations, table pages and free pages.
\<close>

section \<open>One entry at a time\<close>

lemma level_le_2: "(\<forall>k\<le>2. P k) \<longleftrightarrow> P 2 \<and> P 1 \<and> P (0::nat)"
  by (auto simp: le_Suc_eq numeral_2_eq_2)

lemma same_PX_iff:
  assumes "va < MAXVA" and "va' < MAXVA"
  shows "(\<forall>k\<le>2. PX k va = PX k va') \<longleftrightarrow> PGROUNDDOWN va = PGROUNDDOWN va'"
proof
  assume "\<forall>k\<le>2. PX k va = PX k va'"
  then show "PGROUNDDOWN va = PGROUNDDOWN va'"
    using PX_inj [OF assms] by (simp add: level_le_2)
next
  assume "PGROUNDDOWN va = PGROUNDDOWN va'"
  then show "\<forall>k\<le>2. PX k va = PX k va'" by (metis PX_PGROUNDDOWN)
qed

lemma translate_store_leaf:
  assumes "pt_tree m 2 root T" and "pt_leaf m 2 root va = Some a" and "va < MAXVA" and "va' < MAXVA"
  shows "translate (store64 m a v) root va' =
    (if PGROUNDDOWN va' = PGROUNDDOWN va then (if bit v 0 then Some v else None)
     else translate m root va')"
  using pt_trans_leaf_update [OF assms(1,2), of v va'] same_PX_iff [OF assms(3,4)]
  unfolding translate_def by (metis (no_types, lifting))

lemma vm_inv_store_leaf:
  assumes inv: "vm_inv kend s l pt T F" and leaf: "pt_leaf (pmem s) l pt va = Some a"
  shows "vm_inv kend (s\<lparr>pmem := store64 (pmem s) a v\<rparr>) l pt T F"
    and "\<And>x. (\<And>q. q \<in> T \<Longrightarrow> \<not> in_page q x) \<Longrightarrow> store64 (pmem s) a v x = pmem s x"
proof -
  have tree: "pt_tree (pmem s) l pt T" and rep: "kmem_rep kend s F" and TF: "T \<inter> F = {}"
    using inv by (auto simp: vm_inv_def)
  obtain q where q: "q \<in> T" "a = pte_addr q (PX 0 va)"
    using pt_leaf_in_tree [OF tree leaf] by blast
  have out: "store64 (pmem s) a v x = pmem s x" if "\<not> in_page q x" for x
    unfolding q(2) using that by (intro store64_in_page [OF PX_less])
  then show "store64 (pmem s) a v x = pmem s x" if "\<And>q. q \<in> T \<Longrightarrow> \<not> in_page q x" for x
    using that q by blast
  have "store64 (pmem s) a v x = pmem s x" if "r \<in> F" "in_page r x" for r x
    using out that q TF pt_tree_pages [OF tree] kmem.rep_page [OF rep] in_page_disjoint by blast
  then have "kmem_rep kend (s\<lparr>pmem := store64 (pmem s) a v\<rparr>) F"
    by (intro kmem_rep_frame [OF rep])
  then show "vm_inv kend (s\<lparr>pmem := store64 (pmem s) a v\<rparr>) l pt T F"
    using pt_tree_leaf_update [OF tree leaf] TF by (simp add: vm_inv_def)
qed

section \<open>mappages\<close>

text \<open>
  \<open>vm_grow\<close>: a step that may move free pages into the table and touches no other memory.
\<close>

definition vm_grow :: "u64 \<Rightarrow> u64 \<Rightarrow> phys \<Rightarrow> u64 set \<Rightarrow> u64 set \<Rightarrow> phys \<Rightarrow> u64 set \<Rightarrow> u64 set \<Rightarrow> bool" where
  "vm_grow kend pt s T F s' T' F' \<longleftrightarrow>
     vm_inv kend s' 2 pt T' F' \<and> T \<subseteq> T' \<and> F' \<subseteq> F \<and> T' \<union> F' = T \<union> F \<and>
     (\<forall>x. (\<forall>q\<in>T \<union> F. \<not> in_page q x) \<longrightarrow> pmem s' x = pmem s x)"

lemma vm_grow_trans:
  "vm_grow kend pt s T F s1 T1 F1 \<Longrightarrow> vm_grow kend pt s1 T1 F1 s2 T2 F2 \<Longrightarrow>
   vm_grow kend pt s T F s2 T2 F2"
  unfolding vm_grow_def by (elim conjE) (intro conjI; simp)

lemma mappages_step:
  assumes inv: "vm_inv kend s 2 pt T F" and a: "a < MAXVA"
    and free: "translate (pmem s) pt a = None"
    and walk: "walk pt a True s = Ok (pte, s1)"
  shows "\<exists>T' F'. (pte = 0 \<longrightarrow> F' = {} \<and> vm_grow kend pt s T F s1 T' F' \<and>
        (\<forall>va. translate (pmem s1) pt va = translate (pmem s) pt va)) \<and>
      (pte \<noteq> 0 \<longrightarrow> \<not> bit (load64 (pmem s1) pte) 0 \<and>
        vm_grow kend pt s T F (s1\<lparr>pmem := store64 (pmem s1) pte v\<rparr>) T' F' \<and>
        (\<forall>va<MAXVA. translate (store64 (pmem s1) pte v) pt va =
           (if PGROUNDDOWN va = PGROUNDDOWN a then (if bit v 0 then Some v else None)
            else translate (pmem s) pt va)))"
proof -
  have "walk_loop 2 pt a True s = (pte, s1)"
    using walk a by (simp add: walk_def not_le split: if_splits)
  then obtain T' F' where post: "walk_post kend 2 pt a s T F pte s1 T' F'"
    using walk_loop_alloc [OF inv] by blast
  then have inv1: "vm_inv kend s1 2 pt T' F'" and grow: "vm_grow kend pt s T F s1 T' F'"
    and tr: "\<And>va. translate (pmem s1) pt va = translate (pmem s) pt va"
    and leaf: "pte \<noteq> 0 \<Longrightarrow> pt_leaf (pmem s1) 2 pt a = Some pte" and full: "pte = 0 \<Longrightarrow> F' = {}"
    by (simp_all add: walk_post_def vm_grow_def translate_def)
  show ?thesis
  proof (cases "pte = 0")
    case True
    then show ?thesis using full grow tr by blast
  next
    case False
    note leaf = leaf [OF False]
    have tree: "pt_tree (pmem s1) 2 pt T'" using inv1 by (simp add: vm_inv_def)
    have "translate (pmem s1) pt a = None" using tr free by simp
    then have nv: "\<not> bit (load64 (pmem s1) pte) 0"
      using leaf by (auto simp: translate_def pt_trans_def split: if_splits)
    have TT: "T' \<subseteq> T \<union> F" using grow by (auto simp: vm_grow_def)
    have "vm_grow kend pt s T F (s1\<lparr>pmem := store64 (pmem s1) pte v\<rparr>) T' F'"
      using grow vm_inv_store_leaf(1) [OF inv1 leaf, of v] vm_inv_store_leaf(2) [OF inv1 leaf, of _ v] TT
      unfolding vm_grow_def by (auto simp: subset_iff)
    then show ?thesis
      using False nv translate_store_leaf [OF tree leaf a, of _ v] tr by auto
  qed
qed


text \<open>The pages of the range from \<open>a\<close> to \<open>b\<close>, both page addresses included.\<close>

definition page_range :: "u64 \<Rightarrow> u64 \<Rightarrow> u64 \<Rightarrow> bool" where
  "page_range a b va \<longleftrightarrow> a \<le> PGROUNDDOWN va \<and> PGROUNDDOWN va \<le> b"

lemma MAXVA_page_step:
  assumes "page_aligned a" and "page_aligned b" and "a < b" and "b < MAXVA"
  shows "unat (a + PGSIZE) = unat a + 4096" "page_aligned (a + PGSIZE)" "a + PGSIZE \<le> b"
proof -
  have al: "unat a mod 4096 = 0" "unat b mod 4096 = 0" "unat a < unat b" "unat b < 2 ^ 38"
    using assms by (simp_all add: page_aligned_def word_less_nat_alt MAXVA_eq)
  show eq: "unat (a + PGSIZE) = unat a + 4096"
    using al by (simp add: PGSIZE_def unat_plus_no_wrap)
  show "page_aligned (a + PGSIZE)" using al eq by (simp add: page_aligned_def)
  have "unat a + 4096 \<le> unat b" using al by (intro aligned_less_step) auto
  then show "a + PGSIZE \<le> b" using eq by (simp add: word_le_nat_alt)
qed

lemma page_range_step:
  assumes "page_aligned a" and "page_aligned b" and "a < b" and "b < MAXVA"
  shows "page_range a b va \<longleftrightarrow> PGROUNDDOWN va = a \<or> page_range (a + PGSIZE) b va"
proof -
  note step = MAXVA_page_step [OF assms]
  have "a + PGSIZE \<le> PGROUNDDOWN va" if "a \<le> PGROUNDDOWN va" "PGROUNDDOWN va \<noteq> a"
  proof -
    have "unat a mod 4096 = 0" "unat (PGROUNDDOWN va) mod 4096 = 0" "unat a < unat (PGROUNDDOWN va)"
      using assms(1) that page_aligned_PGROUNDDOWN [of va]
      by (auto simp: page_aligned_def word_le_nat_alt word_unat_eq_iff)
    then have "unat a + 4096 \<le> unat (PGROUNDDOWN va)" by (rule aligned_less_step)
    then show ?thesis using step by (simp add: word_le_nat_alt)
  qed
  moreover have "a \<le> PGROUNDDOWN va" if "a + PGSIZE \<le> PGROUNDDOWN va"
    using that step by (simp add: word_le_nat_alt)
  ultimately show ?thesis using assms(3) by (auto simp: page_range_def)
qed

lemma page_range_not_next:
  assumes "page_aligned a" and "page_aligned b" and "a < b" and "b < MAXVA"
  shows "page_range (a + PGSIZE) b va \<Longrightarrow> PGROUNDDOWN va \<noteq> a"
  using MAXVA_page_step [OF assms] by (auto simp: page_range_def word_le_nat_alt)

lemma page_range_self: "page_aligned a \<Longrightarrow> page_range a a va \<longleftrightarrow> PGROUNDDOWN va = a"
  by (auto simp: page_range_def)

lemma bit_leaf [simp]: "bit (PA2PTE pa OR perm OR PTE_V) 0"
  by (simp add: PTE_V_def bit_simps)

text \<open>
  \<open>mapped_by\<close>: the translations of \<open>m'\<close> are those of \<open>m\<close> with the range replaced by entries that
  map page after page from \<open>pa\<close>.
\<close>

definition mapped_by :: "memory \<Rightarrow> u64 \<Rightarrow> u64 \<Rightarrow> u64 \<Rightarrow> u64 \<Rightarrow> u64 \<Rightarrow> memory \<Rightarrow> bool" where
  "mapped_by m pt a b pa perm m' \<longleftrightarrow> (\<forall>va<MAXVA. translate m' pt va =
     (if page_range a b va then Some (PA2PTE (pa + (PGROUNDDOWN va - a)) OR perm OR PTE_V)
      else translate m pt va))"

lemma mappages_loop_spec:
  assumes "vm_inv kend s 2 pt T F" and "page_aligned a" and "page_aligned b" and "a \<le> b" and "b < MAXVA"
    and "\<And>va. va < MAXVA \<Longrightarrow> page_range a b va \<Longrightarrow> translate (pmem s) pt va = None"
  shows "\<exists>r s' T' F'. mappages_loop pt a b pa perm s = Ok (r, s') \<and> vm_grow kend pt s T F s' T' F' \<and>
    (r = 0 \<and> mapped_by (pmem s) pt a b pa perm (pmem s') \<or>
     r = -1 \<and> F' = {} \<and> (\<forall>va<MAXVA. \<not> page_range a b va \<longrightarrow>
       translate (pmem s') pt va = translate (pmem s) pt va))"
  using assms
proof (induction pt a b pa perm s arbitrary: T F rule: mappages_loop.induct)
  case (1 pt a b pa perm s)
  note inv = "1.prems"(1) and al = "1.prems"(2,3) and ab = "1.prems"(4,5) and free = "1.prems"(6)
  let ?v = "PA2PTE pa OR perm OR PTE_V"
  have a: "a < MAXVA" using ab by simp
  have ra: "page_range a b a" using al ab by (simp add: page_range_def)
  obtain pte s1 where walk: "walk pt a True s = Ok (pte, s1)"
    using a by (cases "walk_loop 2 pt a True s") (simp add: walk_def not_le)
  let ?s2 = "s1\<lparr>pmem := store64 (pmem s1) pte ?v\<rparr>"
  obtain T1 F1 where
    bad: "pte = 0 \<Longrightarrow> F1 = {} \<and> vm_grow kend pt s T F s1 T1 F1 \<and>
      (\<forall>va. translate (pmem s1) pt va = translate (pmem s) pt va)" and
    good: "pte \<noteq> 0 \<Longrightarrow> \<not> bit (load64 (pmem s1) pte) 0 \<and> vm_grow kend pt s T F ?s2 T1 F1 \<and>
      (\<forall>va<MAXVA. translate (pmem ?s2) pt va =
         (if PGROUNDDOWN va = a then Some ?v else translate (pmem s) pt va))"
    using mappages_step [OF inv a free [OF a ra] walk, of ?v] al(1) by auto
  show ?case
  proof (cases "pte = 0")
    case True
    then show ?thesis
      using bad walk by (subst mappages_loop.simps) auto
  next
    case False
    note good = good [OF False]
    have unf: "mappages_loop pt a b pa perm s =
        (if a = b then Ok (0, ?s2) else mappages_loop pt (a + PGSIZE) b (pa + PGSIZE) perm ?s2)"
      using False good walk by (subst mappages_loop.simps) (simp add: and_PTE_eq_0_iff Let_def)
    show ?thesis
    proof (cases "a = b")
      case True
      have "mapped_by (pmem s) pt a b pa perm (pmem ?s2)"
        using good True al by (auto simp: mapped_by_def page_range_self)
      then show ?thesis using unf True good by auto
    next
      case ne: False
      then have lt: "a < b" using ab by simp
      note step = MAXVA_page_step [OF al lt ab(2)]
        and range = page_range_step [OF al lt ab(2)] page_range_not_next [OF al lt ab(2)]
      have inv2: "vm_inv kend ?s2 2 pt T1 F1" using good by (simp add: vm_grow_def)
      have free2: "translate (pmem ?s2) pt va = None"
        if "va < MAXVA" "page_range (a + PGSIZE) b va" for va
        using that range good free by auto
      obtain r s' T' F' where IH: "mappages_loop pt (a + PGSIZE) b (pa + PGSIZE) perm ?s2 = Ok (r, s')"
        "vm_grow kend pt ?s2 T1 F1 s' T' F'"
        "r = 0 \<and> mapped_by (pmem ?s2) pt (a + PGSIZE) b (pa + PGSIZE) perm (pmem s') \<or>
         r = -1 \<and> F' = {} \<and> (\<forall>va<MAXVA. \<not> page_range (a + PGSIZE) b va \<longrightarrow>
           translate (pmem s') pt va = translate (pmem ?s2) pt va)"
        using "1.IH" [OF walk refl False _ refl ne inv2 step(2) al(2) step(3) ab(2) free2] good
        by (simp add: and_PTE_eq_0_iff) blast
      have "mapped_by (pmem s) pt a b pa perm (pmem s')"
        if "mapped_by (pmem ?s2) pt (a + PGSIZE) b (pa + PGSIZE) perm (pmem s')"
        using that good range unfolding mapped_by_def by (auto simp: algebra_simps)
      moreover have "vm_grow kend pt s T F s' T' F'"
        using vm_grow_trans good IH(2) by blast
      ultimately show ?thesis
        using unf ne IH(1,3) good range by auto
    qed
  qed
qed


section \<open>uvmunmap\<close>

text \<open>
  The virtual pages of the half-open range from \<open>a\<close> to \<open>aend\<close>, and the physical pages behind them.
\<close>

definition vpages :: "u64 \<Rightarrow> u64 \<Rightarrow> u64 set" where
  "vpages a aend = {va. page_aligned va \<and> a \<le> va \<and> va < aend}"

definition leaf_page :: "memory \<Rightarrow> u64 \<Rightarrow> u64 \<Rightarrow> u64" where
  "leaf_page m pt va = PTE2PA (the (translate m pt va))"

text \<open>
  \<open>unmappable\<close>: every page of the range is mapped by a leaf entry to a page of its own that the
  allocator can take back.
\<close>

definition unmappable :: "u64 \<Rightarrow> memory \<Rightarrow> u64 \<Rightarrow> u64 set \<Rightarrow> u64 set \<Rightarrow> u64 set \<Rightarrow> bool" where
  "unmappable kend m pt V T F \<longleftrightarrow> inj_on (leaf_page m pt) V \<and>
     (\<forall>va\<in>V. translate m pt va \<noteq> None \<and> PTE_FLAGS (the (translate m pt va)) \<noteq> PTE_V \<and>
        page_ok kend (leaf_page m pt va) \<and> leaf_page m pt va \<notin> T \<union> F)"

lemma vpages_step:
  assumes "page_aligned a" and "page_aligned aend" and "a < aend" and "aend \<le> MAXVA"
  shows "vpages a aend = insert a (vpages (a + PGSIZE) aend)" "a \<notin> vpages (a + PGSIZE) aend"
    "page_aligned (a + PGSIZE)" "a + PGSIZE \<le> aend"
proof -
  have al: "unat a mod 4096 = 0" "unat aend mod 4096 = 0" "unat a < unat aend" "unat aend \<le> 2 ^ 38"
    using assms by (simp_all add: page_aligned_def word_less_nat_alt word_le_nat_alt MAXVA_eq)
  have eq: "unat (a + PGSIZE) = unat a + 4096"
    using al by (simp add: PGSIZE_def unat_plus_no_wrap)
  have "a + PGSIZE \<le> va" if "page_aligned va" "a \<le> va" "va \<noteq> a" for va
    using that al aligned_less_step [of "unat a" 4096 "unat va"] eq
    by (auto simp: page_aligned_def word_le_nat_alt word_unat_eq_iff)
  then show "vpages a aend = insert a (vpages (a + PGSIZE) aend)"
    using assms eq by (auto simp: vpages_def word_le_nat_alt)
  show "a \<notin> vpages (a + PGSIZE) aend" using eq by (simp add: vpages_def word_le_nat_alt)
  show "page_aligned (a + PGSIZE)" using al eq by (simp add: page_aligned_def)
  show "a + PGSIZE \<le> aend"
    using al eq aligned_less_step [of "unat a" 4096 "unat aend"] by (simp add: word_le_nat_alt)
qed

lemma vm_inv_kfree:
  assumes inv: "vm_inv kend s l pt T F" and p: "page_ok kend p" "p \<notin> T \<union> F"
  shows "\<exists>s'. kfree kend p s = Ok s' \<and> vm_inv kend s' l pt T (insert p F) \<and>
    (\<forall>va. pt_leaf (pmem s') l pt va = pt_leaf (pmem s) l pt va) \<and>
    (\<forall>va. pt_trans (pmem s') l pt va = pt_trans (pmem s) l pt va) \<and>
    (\<forall>x. \<not> in_page p x \<longrightarrow> pmem s' x = pmem s x)"
proof -
  have tree: "pt_tree (pmem s) l pt T" and rep: "kmem_rep kend s F" and TF: "T \<inter> F = {}"
    using inv by (auto simp: vm_inv_def)
  obtain s' where s': "kfree kend p s = Ok s'" "kmem_rep kend s' (insert p F)"
    using kfree_rep [OF rep p(1)] p(2) by auto
  have same: "pmem s' x = pmem s x" if "q \<in> T" "in_page q x" for q x
    using that p page_okD(1) [OF p(1)] pt_tree_pages [OF tree] in_page_disjoint [of q p x]
      kfree_frame [OF s'(1), of x] by auto
  show ?thesis
    using s' TF p pt_tree_frame [OF tree same] pt_leaf_cong [OF tree same] pt_trans_frame [OF tree same]
      kfree_frame [OF s'(1)]
    by (auto simp: vm_inv_def)
qed

lemma walk_mapped:
  assumes "translate (pmem s) pt va = Some e" and "va < MAXVA"
  shows "\<exists>pte. walk pt va False s = Ok (pte, s) \<and> pt_leaf (pmem s) 2 pt va = Some pte \<and>
    load64 (pmem s) pte = e \<and> bit e 0"
  using assms walk_loop_noalloc [of 2 pt va s]
  by (auto simp: translate_def pt_trans_def walk_def not_le split: option.splits if_splits)

text \<open>One iteration: the entry of \<open>a\<close> is cleared and its page freed.\<close>

lemma uvmunmap_step:
  assumes inv: "vm_inv kend s 2 pt T F" and a: "a < MAXVA" "page_aligned a"
    and e: "translate (pmem s) pt a = Some e" "PTE_FLAGS e \<noteq> PTE_V"
    and pa: "page_ok kend (PTE2PA e)" "PTE2PA e \<notin> T \<union> F"
  shows "\<exists>s'. vm_inv kend s' 2 pt T (insert (PTE2PA e) F) \<and>
    (\<forall>va<MAXVA. translate (pmem s') pt va =
      (if PGROUNDDOWN va = a then None else translate (pmem s) pt va)) \<and>
    (\<forall>x. (\<forall>q\<in>insert (PTE2PA e) T. \<not> in_page q x) \<longrightarrow> pmem s' x = pmem s x) \<and>
    (a < aend \<longrightarrow> uvmunmap_loop kend pt a aend True s = uvmunmap_loop kend pt (a + PGSIZE) aend True s')"
proof -
  obtain pte where w: "walk pt a False s = Ok (pte, s)" "pt_leaf (pmem s) 2 pt a = Some pte"
      "load64 (pmem s) pte = e" "bit e 0"
    using walk_mapped [OF e(1) a(1)] by blast
  have nz: "pte \<noteq> 0" using pt_leaf_nonzero [OF _ w(2)] inv unfolding vm_inv_def by blast
  obtain s1 where s1: "kfree kend (PTE2PA e) s = Ok s1" "vm_inv kend s1 2 pt T (insert (PTE2PA e) F)"
      "\<And>va. pt_leaf (pmem s1) 2 pt va = pt_leaf (pmem s) 2 pt va"
      "\<And>va. translate (pmem s1) pt va = translate (pmem s) pt va"
      "\<And>x. \<not> in_page (PTE2PA e) x \<Longrightarrow> pmem s1 x = pmem s x"
    using vm_inv_kfree [OF inv pa] by (auto simp: translate_def)
  let ?s2 = "s1\<lparr>pmem := store64 (pmem s1) pte 0\<rparr>"
  have leaf: "pt_leaf (pmem s1) 2 pt a = Some pte" using s1 w by simp
  have tree: "pt_tree (pmem s1) 2 pt T" using s1 by (simp add: vm_inv_def)
  have "uvmunmap_loop kend pt a aend True s = uvmunmap_loop kend pt (a + PGSIZE) aend True ?s2"
    if "a < aend"
    using that w nz e s1(1) by (subst uvmunmap_loop.simps) (simp add: and_PTE_eq_0_iff)
  moreover have "translate (pmem ?s2) pt va = (if PGROUNDDOWN va = a then None
      else translate (pmem s) pt va)" if "va < MAXVA" for va
    using translate_store_leaf [OF tree leaf a(1) that, of 0] s1(4) a(2) by simp
  ultimately show ?thesis
    using vm_inv_store_leaf(1) [OF s1(2) leaf, of 0] vm_inv_store_leaf(2) [OF s1(2) leaf, of _ 0] s1(5)
    by (intro exI [of _ ?s2]) auto
qed

lemma unmappable_step:
  assumes un: "unmappable kend m pt (insert a V) T F" and "a \<notin> V"
    and tr: "\<And>va. va \<in> V \<Longrightarrow> translate m' pt va = translate m pt va"
  shows "unmappable kend m' pt V T (insert (leaf_page m pt a) F)"
    and "leaf_page m' pt ` V = leaf_page m pt ` V"
proof -
  have eq: "leaf_page m' pt va = leaf_page m pt va" if "va \<in> V" for va
    using tr that by (simp add: leaf_page_def)
  show "leaf_page m' pt ` V = leaf_page m pt ` V" using eq by simp
  have "inj_on (leaf_page m' pt) V"
    using un eq by (auto simp: unmappable_def inj_on_def)
  moreover have "leaf_page m pt va \<noteq> leaf_page m pt a" if "va \<in> V" for va
    using un that assms(2) unfolding unmappable_def inj_on_def by blast
  ultimately show "unmappable kend m' pt V T (insert (leaf_page m pt a) F)"
    using un tr eq by (auto simp: unmappable_def)
qed

lemma vpages_translate_neq:
  assumes "va \<in> vpages (a + PGSIZE) aend" and "a \<notin> vpages (a + PGSIZE) aend" and "aend \<le> MAXVA"
  shows "va < MAXVA" "PGROUNDDOWN va \<noteq> a"
  using assms by (auto simp: vpages_def)

lemma uvmunmap_loop_free:
  assumes "vm_inv kend s 2 pt T F" and "page_aligned a" "page_aligned aend" "a \<le> aend" "aend \<le> MAXVA"
    and "unmappable kend (pmem s) pt (vpages a aend) T F"
  shows "\<exists>s'. uvmunmap_loop kend pt a aend True s = Ok s' \<and>
    vm_inv kend s' 2 pt T (F \<union> leaf_page (pmem s) pt ` vpages a aend) \<and>
    (\<forall>va<MAXVA. translate (pmem s') pt va =
      (if PGROUNDDOWN va \<in> vpages a aend then None else translate (pmem s) pt va)) \<and>
    (\<forall>x. (\<forall>q\<in>T \<union> leaf_page (pmem s) pt ` vpages a aend. \<not> in_page q x) \<longrightarrow> pmem s' x = pmem s x)"
  using assms
proof (induction "2 ^ 39 - unat a" arbitrary: a s F rule: less_induct)
  case less
  note inv = less.prems(1) and al = less.prems(2,3) and ae = less.prems(4,5) and un = less.prems(6)
  show ?case
  proof (cases "a < aend")
    case False
    then have "vpages a aend = {}" by (auto simp: vpages_def)
    then show ?thesis using inv False by (subst uvmunmap_loop.simps) auto
  next
    case True
    note V = vpages_step [OF al True ae(2)]
    have aM: "a < MAXVA" using True ae by simp
    obtain e where e: "translate (pmem s) pt a = Some e" using un V(1) by (auto simp: unmappable_def)
    have lp: "leaf_page (pmem s) pt a = PTE2PA e" using e by (simp add: leaf_page_def)
    have fl: "PTE_FLAGS e \<noteq> PTE_V" and pa: "page_ok kend (PTE2PA e)" "PTE2PA e \<notin> T \<union> F"
      using un V(1) e lp by (auto simp: unmappable_def)
    from uvmunmap_step [OF inv aM al(1) e fl pa, of aend] obtain s1 where
      s1: "vm_inv kend s1 2 pt T (insert (PTE2PA e) F)"
      "\<And>va. va < MAXVA \<Longrightarrow> translate (pmem s1) pt va =
        (if PGROUNDDOWN va = a then None else translate (pmem s) pt va)"
      "\<And>x. (\<And>q. q \<in> insert (PTE2PA e) T \<Longrightarrow> \<not> in_page q x) \<Longrightarrow> pmem s1 x = pmem s x"
      and unf: "uvmunmap_loop kend pt a aend True s = uvmunmap_loop kend pt (a + PGSIZE) aend True s1"
      using True by blast
    have tr: "translate (pmem s1) pt va = translate (pmem s) pt va"
      if "va \<in> vpages (a + PGSIZE) aend" for va
      using s1(2) [of va] vpages_translate_neq [OF that V(2) ae(2)] by simp
    have un1: "unmappable kend (pmem s1) pt (vpages (a + PGSIZE) aend) T (insert (PTE2PA e) F)"
      "leaf_page (pmem s1) pt ` vpages (a + PGSIZE) aend = leaf_page (pmem s) pt ` vpages (a + PGSIZE) aend"
      using unmappable_step [OF un [unfolded V(1)] V(2) tr] lp by simp_all
    have meas: "2 ^ 39 - unat (a + PGSIZE) < 2 ^ 39 - unat a"
      using walk_mapped [OF e aM] next_page_measure by blast
    from less.hyps [OF meas s1(1) V(3) al(2) V(4) ae(2) un1(1)] obtain s' where
      s': "uvmunmap_loop kend pt (a + PGSIZE) aend True s1 = Ok s'"
      "vm_inv kend s' 2 pt T (insert (PTE2PA e) F \<union> leaf_page (pmem s1) pt ` vpages (a + PGSIZE) aend)"
      "\<forall>va<MAXVA. translate (pmem s') pt va =
        (if PGROUNDDOWN va \<in> vpages (a + PGSIZE) aend then None else translate (pmem s1) pt va)"
      "\<forall>x. (\<forall>q\<in>T \<union> leaf_page (pmem s1) pt ` vpages (a + PGSIZE) aend. \<not> in_page q x) \<longrightarrow>
        pmem s' x = pmem s1 x"
      by (elim exE conjE)
    have img: "leaf_page (pmem s) pt ` vpages a aend =
        insert (PTE2PA e) (leaf_page (pmem s1) pt ` vpages (a + PGSIZE) aend)"
      unfolding V(1) image_insert lp un1(2) ..
    have "pmem s' x = pmem s x"
      if "\<forall>q\<in>T \<union> leaf_page (pmem s) pt ` vpages a aend. \<not> in_page q x" for x
      using that s'(4) s1(3) [of x] unfolding img by auto
    moreover have "translate (pmem s') pt va = (if PGROUNDDOWN va \<in> vpages a aend then None
        else translate (pmem s) pt va)" if "va < MAXVA" for va
      using that s'(3) s1(2) unfolding V(1) by simp
    moreover have "vm_inv kend s' 2 pt T (F \<union> leaf_page (pmem s) pt ` vpages a aend)"
      using s'(2) unfolding img by simp
    ultimately show ?thesis using s'(1) unf by simp
  qed
qed

lemma uvmunmap_PGSIZE_end:
  assumes "page_aligned va" and "unat va + unat npages * 4096 \<le> 2 ^ 38"
  shows "page_aligned (va + npages * PGSIZE)" "va \<le> va + npages * PGSIZE" "va + npages * PGSIZE \<le> MAXVA"
proof -
  have np: "unat (npages * PGSIZE) = unat npages * 4096"
    using assms(2) by (simp add: PGSIZE_def unat_word_ariths)
  then have "unat (va + npages * PGSIZE) = unat va + unat npages * 4096"
    using assms(2) by (simp add: unat_plus_no_wrap)
  then show "page_aligned (va + npages * PGSIZE)" "va \<le> va + npages * PGSIZE" "va + npages * PGSIZE \<le> MAXVA"
    using assms by (simp_all add: page_aligned_def word_le_nat_alt MAXVA_eq)
qed


section \<open>The properties\<close>

text \<open>A boot-like state for the examples: an empty table and a free list of two pages.\<close>

definition example_phys :: phys where
  "example_phys = \<lparr>pmem = store64 (\<lambda>_. 0) 0x80002000 0x80003000, freelist = 0x80002000\<rparr>"

lemma example_vm_inv:
  "vm_inv 0x80000000 example_phys 2 0x80001000 {0x80001000} {0x80002000, 0x80003000}"
  "translate (pmem example_phys) 0x80001000 va = None"
proof -
  have far: "8 \<le> unat (x - 0x80002000)" if "\<not> in_page 0x80002000 x" for x :: u64
    using that by (simp add: in_page_def)
  have zero: "pmem example_phys x = 0" if "\<not> in_page 0x80002000 x" for x
    using that store64_other [OF far] by (simp add: example_phys_def)
  have z1: "pmem example_phys x = 0" if "in_page 0x80001000 x" for x
    using that in_page_disjoint [of "0x80001000" "0x80002000" x] zero by (simp add: page_aligned_def)
  have z3: "load64 (pmem example_phys) 0x80003000 = 0"
  proof -
    have "pmem example_phys x = 0" if "in_page 0x80003000 x" for x
      using that in_page_disjoint [of "0x80003000" "0x80002000" x] zero by (simp add: page_aligned_def)
    then show ?thesis using load64_zero_page [of "0x80003000" _ 0] by simp
  qed
  have "kmem_rep 0x80000000 example_phys {0x80002000, 0x80003000}"
    unfolding kmem_rep_def
  proof (intro conjI exI [of _ "[0x80002000, 0x80003000]"])
    show "run_chain (pmem example_phys) (freelist example_phys) [0x80002000, 0x80003000]"
      using z3 by (simp add: example_phys_def)
  qed (auto simp: page_ok_def page_aligned_def PHYSTOP_def KERNBASE_def)
  moreover have "pt_tree (pmem example_phys) 2 0x80001000 {0x80001000}"
    using z1 by (intro pt_tree_zero_page) (auto simp: page_aligned_def)
  ultimately show "vm_inv 0x80000000 example_phys 2 0x80001000 {0x80001000} {0x80002000, 0x80003000}"
    by (simp add: vm_inv_def)
  show "translate (pmem example_phys) 0x80001000 va = None"
    unfolding translate_def using z1 by (rule pt_trans_zero_page)
qed

text \<open>
  C7: \<open>mappages\<close> on a range of unmapped pages below \<open>MAXVA\<close> never panics. When it returns 0, the
  pages of the range translate to consecutive physical pages from \<open>pa\<close> with the requested
  permissions and every other translation is unchanged; it returns -1 only with the allocator
  empty, and then changes no translation outside the range. Table pages come from the free list,
  the table stays a tree disjoint from it, and no other memory is written.
\<close>

theorem mappages_maps_range:
  assumes "vm_inv kend s 2 pt T F" and "sz \<noteq> 0" and "unat va + unat sz \<le> 2 ^ 38"
    and "\<And>v. v < MAXVA \<Longrightarrow> page_range (PGROUNDDOWN va) (PGROUNDDOWN (va + sz - 1)) v \<Longrightarrow>
      translate (pmem s) pt v = None"
  shows "\<exists>r s' T' F'. mappages pt va sz pa perm s = Ok (r, s') \<and> vm_grow kend pt s T F s' T' F' \<and>
    (r = 0 \<and> mapped_by (pmem s) pt (PGROUNDDOWN va) (PGROUNDDOWN (va + sz - 1)) pa perm (pmem s') \<or>
     r = -1 \<and> F' = {} \<and>
       (\<forall>v<MAXVA. \<not> page_range (PGROUNDDOWN va) (PGROUNDDOWN (va + sz - 1)) v \<longrightarrow>
         translate (pmem s') pt v = translate (pmem s) pt v))"
proof -
  have sz: "0 < unat sz" using assms(2) by (simp add: unat_gt_0)
  have "unat (va + sz) = unat va + unat sz" using assms(3) by (simp add: unat_plus_no_wrap)
  then have e: "unat (va + sz - 1) = unat va + unat sz - 1"
    using sz by (simp add: unat_sub_if word_le_nat_alt)
  have "PGROUNDDOWN va \<le> PGROUNDDOWN (va + sz - 1)"
    using e sz by (simp add: word_le_nat_alt unat_PGROUNDDOWN div_le_mono)
  moreover have "PGROUNDDOWN (va + sz - 1) < MAXVA"
  proof -
    have "PGROUNDDOWN (va + sz - 1) \<le> va + sz - 1" by (rule PGROUNDDOWN_le)
    also have "\<dots> < MAXVA" using e assms(3) sz by (simp add: word_less_nat_alt MAXVA_eq)
    finally show ?thesis .
  qed
  ultimately show ?thesis
    unfolding mappages_def
    by (intro mappages_loop_spec [OF assms(1) _ _ _ _ assms(4)]) simp_all
qed

theorem mappages_maps_range_witness:
  "\<exists>r s' T' F'. mappages 0x80001000 0x1000 4096 0x80004000 PTE_R example_phys = Ok (r, s') \<and>
    vm_grow 0x80000000 0x80001000 example_phys {0x80001000} {0x80002000, 0x80003000} s' T' F' \<and>
    (r = 0 \<and> mapped_by (pmem example_phys) 0x80001000 (PGROUNDDOWN 0x1000)
       (PGROUNDDOWN (0x1000 + 4096 - 1)) 0x80004000 PTE_R (pmem s') \<or>
     r = -1 \<and> F' = {} \<and>
       (\<forall>v<MAXVA. \<not> page_range (PGROUNDDOWN 0x1000) (PGROUNDDOWN (0x1000 + 4096 - 1)) v \<longrightarrow>
         translate (pmem s') 0x80001000 v = translate (pmem example_phys) 0x80001000 v))"
  by (rule mappages_maps_range [OF example_vm_inv(1)]) (simp_all add: example_vm_inv(2))

text \<open>
  C40: \<open>uvmunmap\<close> with \<open>do_free\<close> on a range of mapped leaf pages never panics, returns exactly the
  physical pages behind the range to the allocator, removes exactly the translations of the range,
  keeps the table a tree disjoint from the free list, and writes no memory outside the table and
  the freed pages.
\<close>

theorem uvmunmap_frees_range:
  assumes "vm_inv kend s 2 pt T F" and "page_aligned va" and "unat va + unat npages * 4096 \<le> 2 ^ 38"
    and "unmappable kend (pmem s) pt (vpages va (va + npages * PGSIZE)) T F"
  shows "\<exists>s'. uvmunmap kend pt va npages True s = Ok s' \<and>
    vm_inv kend s' 2 pt T (F \<union> leaf_page (pmem s) pt ` vpages va (va + npages * PGSIZE)) \<and>
    (\<forall>v<MAXVA. translate (pmem s') pt v =
      (if PGROUNDDOWN v \<in> vpages va (va + npages * PGSIZE) then None else translate (pmem s) pt v)) \<and>
    (\<forall>x. (\<forall>q\<in>T \<union> leaf_page (pmem s) pt ` vpages va (va + npages * PGSIZE). \<not> in_page q x) \<longrightarrow>
      pmem s' x = pmem s x)"
  unfolding uvmunmap_def page_aligned_mod [THEN iffD2, OF assms(2)] not_not
  using uvmunmap_loop_free [OF assms(1,2) uvmunmap_PGSIZE_end [OF assms(2,3)] assms(4)] by simp


text \<open>A table of three pages that maps page 0 to 0x80004000, for the examples.\<close>

definition mapped_phys :: phys where
  "mapped_phys = \<lparr>pmem = store64 (store64 (store64 (\<lambda>_. 0) 0x80001000 (PA2PTE 0x80002000 OR PTE_V))
     0x80002000 (PA2PTE 0x80003000 OR PTE_V)) 0x80003000 (PA2PTE 0x80004000 OR 0x17), freelist = 0\<rparr>"

lemma mapped_phys_load:
  assumes "unat i < 512"
  shows "load64 (pmem mapped_phys) (pte_addr 0x80001000 i) = (if i = 0 then PA2PTE 0x80002000 OR PTE_V else 0)"
    "load64 (pmem mapped_phys) (pte_addr 0x80002000 i) = (if i = 0 then PA2PTE 0x80003000 OR PTE_V else 0)"
    "load64 (pmem mapped_phys) (pte_addr 0x80003000 i) = (if i = 0 then PA2PTE 0x80004000 OR 0x17 else 0)"
proof -
  have st: "load64 (store64 m q v) (pte_addr p i) =
      (if p = q \<and> i = 0 then v else load64 m (pte_addr p i))"
    if "page_aligned p" "page_aligned q" for m p q v
    using that assms load64_store64_pte [of p q i 0 m v] by auto
  have z: "load64 (\<lambda>_. 0) a = 0" for a by (simp add: load64_def load_le_zero)
  show "load64 (pmem mapped_phys) (pte_addr 0x80001000 i) = (if i = 0 then PA2PTE 0x80002000 OR PTE_V else 0)"
    "load64 (pmem mapped_phys) (pte_addr 0x80002000 i) = (if i = 0 then PA2PTE 0x80003000 OR PTE_V else 0)"
    "load64 (pmem mapped_phys) (pte_addr 0x80003000 i) = (if i = 0 then PA2PTE 0x80004000 OR 0x17 else 0)"
    by (simp_all add: mapped_phys_def st z page_aligned_def)
qed

lemma mapped_phys_inv:
  "vm_inv 0x80000000 mapped_phys 2 0x80001000 {0x80001000, 0x80002000, 0x80003000} {}"
  "translate (pmem mapped_phys) 0x80001000 0 = Some (PA2PTE 0x80004000 OR 0x17)"
proof -
  note ld = mapped_phys_load
  have 1: "pt_tree (pmem mapped_phys) (Suc 0) 0x80002000 {0x80002000, 0x80003000}"
    by (rule pt_tree_SucI [where C = "\<lambda>i. if i = 0 then {0x80003000} else {}"])
      (auto simp: ld page_aligned_def simp del: UN_simps split: if_splits)
  have "pt_tree (pmem mapped_phys) (Suc (Suc 0)) 0x80001000 {0x80001000, 0x80002000, 0x80003000}"
    by (rule pt_tree_SucI [where C = "\<lambda>i. if i = 0 then {0x80002000, 0x80003000} else {}"])
      (auto simp: ld page_aligned_def 1 simp del: UN_simps split: if_splits)
  then show "vm_inv 0x80000000 mapped_phys 2 0x80001000 {0x80001000, 0x80002000, 0x80003000} {}"
    by (auto simp: vm_inv_def kmem_rep_def numeral_2_eq_2 mapped_phys_def intro: exI [of _ "[]"])
  have px: "PX l 0 = 0" for l by (simp add: PX_def)
  have al: "page_aligned 0x80002000" "page_aligned 0x80003000" by (simp_all add: page_aligned_def)
  have lb: "bit (PA2PTE 0x80004000 OR 0x17) 0" by (simp add: PA2PTE_def)
  show "translate (pmem mapped_phys) 0x80001000 0 = Some (PA2PTE 0x80004000 OR 0x17)"
    using ld [of 0] al by (simp add: translate_def pt_trans_def numeral_2_eq_2 Let_def px lb)
qed

theorem uvmunmap_frees_range_witness:
  "\<exists>s'. uvmunmap 0x80000000 0x80001000 0 1 True mapped_phys = Ok s' \<and>
    vm_inv 0x80000000 s' 2 0x80001000 {0x80001000, 0x80002000, 0x80003000}
      ({} \<union> leaf_page (pmem mapped_phys) 0x80001000 ` vpages 0 (0 + 1 * PGSIZE)) \<and>
    (\<forall>v<MAXVA. translate (pmem s') 0x80001000 v =
      (if PGROUNDDOWN v \<in> vpages 0 (0 + 1 * PGSIZE) then None
       else translate (pmem mapped_phys) 0x80001000 v)) \<and>
    (\<forall>x. (\<forall>q\<in>{0x80001000, 0x80002000, 0x80003000} \<union>
        leaf_page (pmem mapped_phys) 0x80001000 ` vpages 0 (0 + 1 * PGSIZE). \<not> in_page q x) \<longrightarrow>
      pmem s' x = pmem mapped_phys x)"
proof (rule uvmunmap_frees_range [OF mapped_phys_inv(1)])
  have V: "vpages 0 (0 + 1 * PGSIZE) = {0}"
    by (auto simp: vpages_def page_aligned_def word_less_nat_alt PGSIZE_def word_unat_eq_iff)
  show "unmappable 0x80000000 (pmem mapped_phys) 0x80001000 (vpages 0 (0 + 1 * PGSIZE))
      {0x80001000, 0x80002000, 0x80003000} {}"
    unfolding V unmappable_def
    by (simp add: leaf_page_def mapped_phys_inv(2) page_aligned_def page_ok_def KERNBASE_def PHYSTOP_def
        PTE_FLAGS_def PA2PTE_def PTE2PA_def PTE_V_def)
qed (simp_all add: page_aligned_def)

end
