(* ===== verification/Locks.thy ===== *)
theory Locks
  imports Prelude
begin

text \<open>
  Locks: \<^verbatim>\<open>kernel/spinlock.c\<close> and \<^verbatim>\<open>kernel/sleeplock.c\<close>. First the routines as functions on the
  lock and on the calling CPU's interrupt state; then spin locks under interleaving, with one
  transition for each atomic memory access of \<open>acquire\<close> and \<open>release\<close> by any CPU. The reachable
  states keep at most one CPU between the two accesses, which justifies that the other theories
  treat a critical section as one step. The locale \<open>owned_lock\<close> is the contract the users of a
  lock rely on; both kinds of lock are interpretations of it.
\<close>

section \<open>Interrupt nesting\<close>

record cpu =
  intr_on :: bool
  noff :: int
  intena :: bool

definition push_off :: "cpu \<Rightarrow> cpu" where
  "push_off c =
     (let old = intr_on c;
          c1 = c\<lparr>intr_on := False\<rparr>;
          c2 = (if noff c1 = 0 then c1\<lparr>intena := old\<rparr> else c1)
      in c2\<lparr>noff := noff c2 + 1\<rparr>)"

definition pop_off :: "cpu \<Rightarrow> cpu outcome" where
  "pop_off c =
     (if intr_on c then Panic ''pop_off - interruptible''
      else if noff c < 1 then Panic ''pop_off''
      else
        let c1 = c\<lparr>noff := noff c - 1\<rparr>
        in Ok (if noff c1 = 0 \<and> intena c1 then c1\<lparr>intr_on := True\<rparr> else c1))"

section \<open>Spin locks\<close>

text \<open>CPUs are numbers; \<open>lk_cpu\<close> is \<open>None\<close> for the null pointer.\<close>

record spinlock =
  lk_locked :: bool
  lk_cpu :: "nat option"

definition initlock :: spinlock where
  "initlock = \<lparr>lk_locked = False, lk_cpu = None\<rparr>"

definition holding :: "nat \<Rightarrow> spinlock \<Rightarrow> bool" where
  "holding me lk \<longleftrightarrow> lk_locked lk \<and> lk_cpu lk = Some me"

text \<open>\<open>Blocked\<close> is an \<open>acquire\<close> that spins until another CPU releases the lock.\<close>

definition acquire :: "nat \<Rightarrow> spinlock \<times> cpu \<Rightarrow> (spinlock \<times> cpu) outcome" where
  "acquire me = (\<lambda>(lk, c).
     let c1 = push_off c in
     if holding me lk then Panic ''acquire''
     else if lk_locked lk then Blocked
     else Ok (lk\<lparr>lk_locked := True, lk_cpu := Some me\<rparr>, c1))"

definition release :: "nat \<Rightarrow> spinlock \<times> cpu \<Rightarrow> (spinlock \<times> cpu) outcome" where
  "release me = (\<lambda>(lk, c).
     if \<not> holding me lk then Panic ''release''
     else obind (pop_off c) (\<lambda>c1. Ok (lk\<lparr>lk_cpu := None, lk_locked := False\<rparr>, c1)))"

section \<open>Sleep locks\<close>

text \<open>
  The spin lock inside a sleep lock makes each routine one step. \<open>Blocked\<close> is an \<open>acquiresleep\<close>
  that sleeps until the owner's \<open>releasesleep\<close> wakes it.
\<close>

record sleeplock =
  sl_locked :: bool
  sl_pid :: int

definition initsleeplock :: sleeplock where
  "initsleeplock = \<lparr>sl_locked = False, sl_pid = 0\<rparr>"

definition acquiresleep :: "int \<Rightarrow> sleeplock \<Rightarrow> sleeplock outcome" where
  "acquiresleep pid lk =
     (if sl_locked lk then Blocked else Ok (lk\<lparr>sl_locked := True, sl_pid := pid\<rparr>))"

definition releasesleep :: "sleeplock \<Rightarrow> sleeplock" where
  "releasesleep lk = lk\<lparr>sl_locked := False, sl_pid := 0\<rparr>"

definition holdingsleep :: "int \<Rightarrow> sleeplock \<Rightarrow> bool" where
  "holdingsleep pid lk \<longleftrightarrow> sl_locked lk \<and> sl_pid lk = pid"

section \<open>The contract of a lock\<close>

locale owned_lock =
  fixes acq :: "'o \<Rightarrow> 'l \<Rightarrow> 'l outcome"
    and rel :: "'o \<Rightarrow> 'l \<Rightarrow> 'l outcome"
    and held :: "'o \<Rightarrow> 'l \<Rightarrow> bool"
    and free :: "'l \<Rightarrow> bool"
  assumes acq_free: "free l \<Longrightarrow> \<exists>l'. acq p l = Ok l' \<and> held p l'"
    and acq_ok: "acq p l = Ok l' \<Longrightarrow> free l \<and> held p l'"
    and held_unique: "held p l \<Longrightarrow> held q l \<Longrightarrow> p = q"
    and held_not_free: "held p l \<Longrightarrow> \<not> free l"
    and rel_ok: "rel p l = Ok l' \<Longrightarrow> held p l \<and> free l'"
begin

lemma no_double_acquire:
  assumes "acq p l = Ok l1"
  shows "\<not> is_ok (acq q l1)"
  using acq_ok [OF assms] acq_ok [of q l1] held_not_free [of p l1] by (cases "acq q l1") auto

lemma only_owner_releases:
  assumes "acq p l = Ok l1" and "rel q l1 = Ok l2"
  shows "q = p"
  using acq_ok [OF assms(1)] rel_ok [OF assms(2)] held_unique by blast

lemma reacquire_after_release:
  assumes "acq p l = Ok l1" and "rel p l1 = Ok l2"
  shows "\<exists>l3. acq q l2 = Ok l3 \<and> held q l3"
  using rel_ok [OF assms(2)] acq_free by blast

end

text \<open>
  A spin lock is owned by a CPU; its free states are those in which the lock is not taken. A sleep
  lock is owned by a process; only its owner calls \<open>releasesleep\<close> (every caller checks
  \<open>holdingsleep\<close> first, as \<open>brelse\<close> and \<open>iunlock\<close> do).
\<close>

interpretation spin: owned_lock acquire release "\<lambda>me (lk, c). holding me lk" "\<lambda>(lk, c). \<not> lk_locked lk"
  by unfold_locales
    (auto simp: acquire_def release_def holding_def Let_def outcome_simps split: if_splits)

interpretation sleepl: owned_lock acquiresleep
  "\<lambda>pid lk. if holdingsleep pid lk then Ok (releasesleep lk) else Panic ''releasesleep''"
  holdingsleep "\<lambda>lk. \<not> sl_locked lk"
  by unfold_locales
    (auto simp: acquiresleep_def releasesleep_def holdingsleep_def split: if_splits)

section \<open>Spin locks under interleaving\<close>

text \<open>
  Where a CPU is in its use of the lock: outside; in the loop of \<^verbatim>\<open>__sync_lock_test_and_set\<close>; after
  the successful swap, before \<^verbatim>\<open>lk->cpu = mycpu()\<close>; in the critical section; in \<open>release\<close> between
  \<^verbatim>\<open>lk->cpu = 0\<close> and \<^verbatim>\<open>__sync_lock_release\<close>; after it, before \<open>pop_off\<close>.
\<close>

datatype lockpc = Out | Spin | Swapped | Crit | Clearing | Released

record lksys =
  lsl :: spinlock
  lcpu :: "nat \<Rightarrow> cpu"
  lpc :: "nat \<Rightarrow> lockpc"

definition upd_cpu :: "nat \<Rightarrow> cpu \<Rightarrow> lockpc \<Rightarrow> lksys \<Rightarrow> lksys" where
  "upd_cpu i c p s = s\<lparr>lcpu := (lcpu s)(i := c), lpc := (lpc s)(i := p)\<rparr>"

inductive lk_step :: "lksys \<Rightarrow> lksys \<Rightarrow> bool" where
  acq_enter: "lpc s i = Out \<Longrightarrow> \<not> holding i (lsl s) \<Longrightarrow>
    lk_step s (upd_cpu i (push_off (lcpu s i)) Spin s)"
| acq_retry: "lpc s i = Spin \<Longrightarrow> lk_locked (lsl s) \<Longrightarrow>
    lk_step s (s\<lparr>lsl := (lsl s)\<lparr>lk_locked := True\<rparr>\<rparr>)"
| acq_swap: "lpc s i = Spin \<Longrightarrow> \<not> lk_locked (lsl s) \<Longrightarrow>
    lk_step s (upd_cpu i (lcpu s i) Swapped (s\<lparr>lsl := (lsl s)\<lparr>lk_locked := True\<rparr>\<rparr>))"
| acq_own: "lpc s i = Swapped \<Longrightarrow>
    lk_step s (upd_cpu i (lcpu s i) Crit (s\<lparr>lsl := (lsl s)\<lparr>lk_cpu := Some i\<rparr>\<rparr>))"
| rel_clear: "lpc s i = Crit \<Longrightarrow> holding i (lsl s) \<Longrightarrow>
    lk_step s (upd_cpu i (lcpu s i) Clearing (s\<lparr>lsl := (lsl s)\<lparr>lk_cpu := None\<rparr>\<rparr>))"
| rel_unlock: "lpc s i = Clearing \<Longrightarrow>
    lk_step s (upd_cpu i (lcpu s i) Released (s\<lparr>lsl := (lsl s)\<lparr>lk_locked := False\<rparr>\<rparr>))"
| rel_pop: "lpc s i = Released \<Longrightarrow> pop_off (lcpu s i) = Ok c \<Longrightarrow>
    lk_step s (upd_cpu i c Out s)"

definition lk_init :: "lksys \<Rightarrow> bool" where
  "lk_init s \<longleftrightarrow> lsl s = initlock \<and> (\<forall>i. lpc s i = Out \<and> noff (lcpu s i) \<ge> 0 \<and>
     (noff (lcpu s i) > 0 \<longrightarrow> \<not> intr_on (lcpu s i)))"

inductive lk_reach :: "lksys \<Rightarrow> bool" where
  lk_start: "lk_init s \<Longrightarrow> lk_reach s"
| lk_next: "lk_reach s \<Longrightarrow> lk_step s s' \<Longrightarrow> lk_reach s'"

text \<open>The CPUs that own the lock word.\<close>

definition lk_owner :: "lksys \<Rightarrow> nat \<Rightarrow> bool" where
  "lk_owner s i \<longleftrightarrow> lpc s i \<in> {Swapped, Crit, Clearing}"

definition lk_excl :: "lksys \<Rightarrow> bool" where
  "lk_excl s \<longleftrightarrow> (\<forall>i j. lk_owner s i \<longrightarrow> lk_owner s j \<longrightarrow> i = j) \<and>
     (lk_locked (lsl s) \<longleftrightarrow> (\<exists>i. lk_owner s i))"

definition lk_named :: "lksys \<Rightarrow> bool" where
  "lk_named s \<longleftrightarrow> (\<forall>i. lk_cpu (lsl s) = Some i \<longleftrightarrow> lpc s i = Crit)"

definition lk_quiet :: "lksys \<Rightarrow> bool" where
  "lk_quiet s \<longleftrightarrow> (\<forall>i. noff (lcpu s i) \<ge> 0 \<and> (lpc s i \<noteq> Out \<longrightarrow> noff (lcpu s i) \<ge> 1) \<and>
     (noff (lcpu s i) > 0 \<longrightarrow> \<not> intr_on (lcpu s i)))"

definition lk_inv :: "lksys \<Rightarrow> bool" where
  "lk_inv s \<longleftrightarrow> lk_excl s \<and> lk_named s \<and> lk_quiet s"

lemmas lk_upd_simps = upd_cpu_def lk_owner_def

lemma push_off_facts:
  "noff (push_off c) = noff c + 1" "\<not> intr_on (push_off c)"
  by (simp_all add: push_off_def Let_def)

lemma pop_off_facts:
  assumes "pop_off c = Ok c'"
  shows "noff c' = noff c - 1" "noff c \<ge> 1" "intr_on c' \<longleftrightarrow> noff c = 1 \<and> intena c"
  using assms by (auto simp: pop_off_def Let_def split: if_splits)

lemma lk_excl_step: "lk_step s s' \<Longrightarrow> lk_excl s \<Longrightarrow> lk_excl s'"
proof (induction rule: lk_step.induct)
  case (acq_swap s i)
  then have "\<not> lk_owner s j" for j by (auto simp: lk_excl_def)
  then show ?case by (auto simp: lk_excl_def lk_upd_simps)
next
  case (rel_unlock s i)
  then have "lk_owner s i" by (simp add: lk_owner_def)
  then have "lk_owner s j \<Longrightarrow> j = i" for j using rel_unlock by (auto simp: lk_excl_def)
  then show ?case by (auto simp: lk_excl_def lk_upd_simps)
next
  case (acq_own s i)
  then have "lk_owner (upd_cpu i (lcpu s i) Crit (s\<lparr>lsl := (lsl s)\<lparr>lk_cpu := Some i\<rparr>\<rparr>)) j = lk_owner s j" for j
    by (simp add: lk_upd_simps)
  then show ?case using acq_own.prems by (simp add: lk_excl_def) (simp add: upd_cpu_def)
next
  case (rel_clear s i)
  then have "lk_owner (upd_cpu i (lcpu s i) Clearing (s\<lparr>lsl := (lsl s)\<lparr>lk_cpu := None\<rparr>\<rparr>)) j = lk_owner s j" for j
    by (simp add: lk_upd_simps)
  then show ?case using rel_clear.prems by (simp add: lk_excl_def) (simp add: upd_cpu_def)
next
  case (acq_enter s i)
  then have "lk_owner (upd_cpu i (push_off (lcpu s i)) Spin s) j = lk_owner s j" for j
    by (simp add: lk_upd_simps)
  then show ?case using acq_enter.prems by (simp add: lk_excl_def) (simp add: upd_cpu_def)
next
  case (rel_pop s i c)
  then have "lk_owner (upd_cpu i c Out s) j = lk_owner s j" for j
    by (simp add: lk_upd_simps)
  then show ?case using rel_pop.prems by (simp add: lk_excl_def) (simp add: upd_cpu_def)
qed (simp add: lk_excl_def lk_owner_def)

lemma lk_named_step:
  assumes "lk_step s s'" and "lk_excl s" and "lk_named s"
  shows "lk_named s'"
  using assms
proof (induction rule: lk_step.induct)
  case (acq_own s i)
  then have "lpc s j \<noteq> Crit" if "j \<noteq> i" for j
    using that by (auto simp: lk_excl_def lk_owner_def)
  then show ?case by (auto simp: lk_named_def upd_cpu_def)
next
  case (rel_clear s i)
  then have "lpc s j \<noteq> Crit" if "j \<noteq> i" for j
    using that by (auto simp: lk_excl_def lk_owner_def)
  then show ?case by (auto simp: lk_named_def upd_cpu_def)
qed (auto simp: lk_named_def upd_cpu_def)

lemma lk_quiet_step: "lk_step s s' \<Longrightarrow> lk_quiet s \<Longrightarrow> lk_quiet s'"
proof (induction rule: lk_step.induct)
  case (acq_enter s i)
  then have "noff (lcpu s i) \<ge> 0" by (auto simp: lk_quiet_def dest: spec [of _ i])
  then show ?case using acq_enter.prems by (simp add: lk_quiet_def upd_cpu_def push_off_facts)
next
  case (rel_pop s i c)
  then have "noff (lcpu s i) \<ge> 1" by (auto simp: lk_quiet_def dest: spec [of _ i])
  then show ?case
    using rel_pop.prems pop_off_facts [OF rel_pop.hyps(2)] by (simp add: lk_quiet_def upd_cpu_def)
qed (auto simp: lk_quiet_def upd_cpu_def dest: spec)

lemma lk_reach_inv: "lk_reach s \<Longrightarrow> lk_inv s"
proof (induction rule: lk_reach.induct)
  case (lk_start s)
  then show ?case
    by (auto simp: lk_init_def lk_inv_def lk_excl_def lk_named_def lk_quiet_def lk_owner_def initlock_def)
next
  case (lk_next s s')
  then show ?case
    using lk_excl_step lk_named_step lk_quiet_step unfolding lk_inv_def by blast
qed

text \<open>
  C9: in every reachable interleaving of CPUs that use a spin lock, at most one CPU is between the
  successful swap of \<open>acquire\<close> and the final store of \<open>release\<close>; the CPU in the critical section
  passes the \<open>holding\<close> check of \<open>release\<close> and a CPU outside passes the check of \<open>acquire\<close>, so
  neither panics; interrupts are off on every CPU inside, and its \<open>pop_off\<close> does not panic.
\<close>

theorem spinlock_mutual_exclusion:
  assumes "lk_reach s"
  shows "(\<forall>i j. lk_owner s i \<longrightarrow> lk_owner s j \<longrightarrow> i = j) \<and>
    (\<forall>i. lpc s i = Crit \<longrightarrow> holding i (lsl s)) \<and> (\<forall>i. lpc s i = Out \<longrightarrow> \<not> holding i (lsl s)) \<and>
    (\<forall>i. lpc s i \<noteq> Out \<longrightarrow> \<not> intr_on (lcpu s i) \<and> is_ok (pop_off (lcpu s i)))"
proof -
  have inv: "lk_excl s" "lk_named s" "lk_quiet s"
    using lk_reach_inv [OF assms] by (auto simp: lk_inv_def)
  have q: "lpc s i \<noteq> Out \<Longrightarrow> noff (lcpu s i) \<ge> 1"
      "noff (lcpu s i) > 0 \<Longrightarrow> \<not> intr_on (lcpu s i)" for i
    using inv(3) by (auto simp: lk_quiet_def)
  have "holding i (lsl s)" if "lpc s i = Crit" for i
    using that inv(1,2) by (auto simp: holding_def lk_named_def lk_excl_def lk_owner_def)
  moreover have "\<not> holding i (lsl s)" if "lpc s i = Out" for i
    using that inv(2) by (auto simp: holding_def lk_named_def)
  moreover have "\<not> intr_on (lcpu s i) \<and> is_ok (pop_off (lcpu s i))" if "lpc s i \<noteq> Out" for i
    using that q [of i] by (auto simp: pop_off_def Let_def)
  ultimately show ?thesis using inv(1) by (auto simp: lk_excl_def)
qed

theorem spinlock_mutual_exclusion_witness:
  "let c = \<lparr>intr_on = True, noff = 0, intena = False\<rparr>;
       s = upd_cpu 0 (push_off c) Swapped (upd_cpu 1 (push_off c) Spin
         \<lparr>lsl = \<lparr>lk_locked = True, lk_cpu = None\<rparr>, lcpu = (\<lambda>_. c), lpc = (\<lambda>_. Out)\<rparr>)
   in lk_owner s 0 \<and> \<not> lk_owner s 1 \<and> \<not> intr_on (lcpu s 0)"
proof -
  let ?c = "\<lparr>intr_on = True, noff = 0, intena = False\<rparr>"
  let ?s0 = "\<lparr>lsl = initlock, lcpu = (\<lambda>_. ?c), lpc = (\<lambda>_. Out)\<rparr>"
  let ?s1 = "upd_cpu 1 (push_off ?c) Spin ?s0"
  let ?s2 = "upd_cpu 0 (push_off ?c) Spin ?s1"
  let ?s3 = "upd_cpu 0 (push_off ?c) Swapped (?s2\<lparr>lsl := \<lparr>lk_locked = True, lk_cpu = None\<rparr>\<rparr>)"
  have "lk_reach ?s0" by (rule lk_start) (simp add: lk_init_def)
  moreover have "lk_step ?s0 ?s1"
    using acq_enter [of ?s0 1] by (simp add: holding_def initlock_def)
  moreover have "lk_step ?s1 ?s2"
    using acq_enter [of ?s1 0] by (simp add: holding_def initlock_def upd_cpu_def)
  moreover have "lk_step ?s2 ?s3"
    using acq_swap [of ?s2 0] by (simp add: initlock_def upd_cpu_def)
  ultimately have "lk_reach ?s3" by (meson lk_next)
  then have "lpc ?s3 0 \<noteq> Out \<longrightarrow> \<not> intr_on (lcpu ?s3 0)"
    using spinlock_mutual_exclusion [of ?s3] by blast
  then show ?thesis by (simp add: upd_cpu_def lk_owner_def Let_def)
qed

section \<open>Nesting of push_off and pop_off\<close>

fun pop_offs :: "nat \<Rightarrow> cpu \<Rightarrow> cpu outcome" where
  "pop_offs 0 c = Ok c"
| "pop_offs (Suc m) c = obind (pop_off c) (pop_offs m)"

lemma push_offs:
  assumes "noff c = 0"
  shows "noff ((push_off ^^ n) c) = int n \<and>
    (0 < n \<longrightarrow> \<not> intr_on ((push_off ^^ n) c) \<and> intena ((push_off ^^ n) c) = intr_on c)"
proof (induction n)
  case 0
  then show ?case using assms by simp
next
  case (Suc n)
  then show ?case using assms by (cases n) (auto simp: push_off_def Let_def)
qed

lemma pop_offs_ok:
  assumes "noff c = int n" and "\<not> intr_on c" and "m \<le> n" and "0 < n"
  shows "\<exists>c'. pop_offs m c = Ok c' \<and> noff c' = int n - int m \<and>
    intr_on c' = (m = n \<and> intena c)"
  using assms
proof (induction m arbitrary: c n)
  case 0
  then show ?case by simp
next
  case (Suc m)
  let ?c = "c\<lparr>noff := noff c - 1\<rparr>"
  show ?case
  proof (cases "n = 1")
    case True
    then show ?thesis using Suc.prems by (auto simp: pop_off_def Let_def)
  next
    case False
    then have pop: "pop_off c = Ok ?c" using Suc.prems by (simp add: pop_off_def Let_def)
    have "\<exists>c'. pop_offs m ?c = Ok c' \<and> noff c' = int (n - 1) - int m \<and>
        intr_on c' = (m = n - 1 \<and> intena ?c)"
      by (rule Suc.IH) (use Suc.prems False in auto)
    then show ?thesis using pop Suc.prems by auto
  qed
qed

text \<open>
  \<open>push_off\<close> and \<open>pop_off\<close> nest: after \<open>n\<close> calls of \<open>push_off\<close> on a CPU with no section open,
  up to \<open>n\<close> calls of \<open>pop_off\<close> succeed, interrupts stay off until the last, and the last restores
  the interrupt state from before the first \<open>push_off\<close>.
\<close>

lemma push_off_pop_off_nest:
  assumes "noff c = 0" and "m \<le> n" and "0 < n"
  shows "\<exists>c'. pop_offs m ((push_off ^^ n) c) = Ok c' \<and> noff c' = int n - int m \<and>
    intr_on c' = (m = n \<and> intr_on c)"
  using pop_offs_ok [of "(push_off ^^ n) c" n m] push_offs [OF assms(1), of n] assms by simp

end
