(* ===== verification/Bio.thy ===== *)
theory Bio
  imports Locks
begin

text \<open>
  The buffer cache, \<^verbatim>\<open>kernel/bio.c\<close>: 30 buffers on a circular doubly linked list through
  \<^verbatim>\<open>prev\<close> and \<^verbatim>\<open>next\<close>, ordered by recency of use. A buffer pointer is its index, the list head
  the index after the last buffer. The critical sections of \<^verbatim>\<open>bcache.lock\<close> are atomic
  (see \<open>Locks\<close>). The disk is a map from block numbers to blocks; \<open>dwrites\<close> records the completed
  block writes in order, so that a crash between two of them can be stated. The lemmas relate the
  pointers to the list they represent, and the cache together with the disk to the block contents
  a caller of \<open>bread\<close> sees.
\<close>

type_synonym block = "u8 list"

definition BSIZE :: nat where "BSIZE = 1024"
definition NBUF :: nat where "NBUF = 30"
definition ROOTDEV :: u32 where "ROOTDEV = 1"

record buf =
  b_valid :: bool
  b_dev :: u32
  b_blockno :: u32
  b_lock :: sleeplock
  b_refcnt :: u32
  b_prev :: nat
  b_next :: nat
  b_data :: block

record bstate =
  bufs :: "nat \<Rightarrow> buf"
  disk :: "u32 \<Rightarrow> block"
  dwrites :: "(u32 \<times> block) list"

definition bhead :: nat where "bhead = NBUF"

definition upd_buf :: "nat \<Rightarrow> (buf \<Rightarrow> buf) \<Rightarrow> 'a bstate_scheme \<Rightarrow> 'a bstate_scheme" where
  "upd_buf b f s = s\<lparr>bufs := (bufs s)(b := f (bufs s b))\<rparr>"

section \<open>kernel/bio.c\<close>

fun binit_loop :: "nat \<Rightarrow> nat \<Rightarrow> 'a bstate_scheme \<Rightarrow> 'a bstate_scheme" where
  "binit_loop b 0 s = s"
| "binit_loop b (Suc n) s =
     (let s1 = upd_buf b (\<lambda>x. x\<lparr>b_next := b_next (bufs s bhead)\<rparr>) s;
          s2 = upd_buf b (\<lambda>x. x\<lparr>b_prev := bhead, b_lock := initsleeplock\<rparr>) s1;
          s3 = upd_buf (b_next (bufs s2 bhead)) (\<lambda>x. x\<lparr>b_prev := b\<rparr>) s2;
          s4 = upd_buf bhead (\<lambda>x. x\<lparr>b_next := b\<rparr>) s3
      in binit_loop (Suc b) n s4)"

definition binit :: "'a bstate_scheme \<Rightarrow> 'a bstate_scheme" where
  "binit s = binit_loop 0 NBUF (upd_buf bhead (\<lambda>x. x\<lparr>b_prev := bhead, b_next := bhead\<rparr>) s)"

text \<open>
  The two searches of \<open>bget\<close>. The fuel exceeds the number of nodes, so a search that uses it up
  is on a cycle that misses the head and never returns.
\<close>

fun bget_cached :: "nat \<Rightarrow> (nat \<Rightarrow> buf) \<Rightarrow> u32 \<Rightarrow> u32 \<Rightarrow> nat \<Rightarrow> nat option outcome" where
  "bget_cached 0 bs dev blockno b = Blocked"
| "bget_cached (Suc fuel) bs dev blockno b =
     (if b = bhead then Ok None
      else if b_dev (bs b) = dev \<and> b_blockno (bs b) = blockno then Ok (Some b)
      else bget_cached fuel bs dev blockno (b_next (bs b)))"

fun bget_lru :: "nat \<Rightarrow> (nat \<Rightarrow> buf) \<Rightarrow> nat \<Rightarrow> nat option outcome" where
  "bget_lru 0 bs b = Blocked"
| "bget_lru (Suc fuel) bs b =
     (if b = bhead then Ok None
      else if b_refcnt (bs b) = 0 then Ok (Some b)
      else bget_lru fuel bs (b_prev (bs b)))"

text \<open>\<open>block_lock\<close> is the call \<^verbatim>\<open>acquiresleep(&b->lock)\<close> by process \<open>me\<close>.\<close>

definition block_lock :: "int \<Rightarrow> nat \<Rightarrow> 'a bstate_scheme \<Rightarrow> (nat \<times> 'a bstate_scheme) outcome" where
  "block_lock me b s =
     obind (acquiresleep me (b_lock (bufs s b))) (\<lambda>lk. Ok (b, upd_buf b (\<lambda>x. x\<lparr>b_lock := lk\<rparr>) s))"

definition bget :: "int \<Rightarrow> u32 \<Rightarrow> u32 \<Rightarrow> 'a bstate_scheme \<Rightarrow> (nat \<times> 'a bstate_scheme) outcome" where
  "bget me dev blockno s =
     obind (bget_cached (NBUF + 1) (bufs s) dev blockno (b_next (bufs s bhead))) (\<lambda>r.
     case r of
       Some b \<Rightarrow> block_lock me b (upd_buf b (\<lambda>x. x\<lparr>b_refcnt := b_refcnt x + 1\<rparr>) s)
     | None \<Rightarrow>
         obind (bget_lru (NBUF + 1) (bufs s) (b_prev (bufs s bhead))) (\<lambda>r'.
         case r' of
           Some b \<Rightarrow> block_lock me b (upd_buf b
             (\<lambda>x. x\<lparr>b_dev := dev, b_blockno := blockno, b_valid := False, b_refcnt := 1\<rparr>) s)
         | None \<Rightarrow> Panic ''bget: no buffers''))"

text \<open>
  The block transfer a call of \<^verbatim>\<open>virtio_disk_rw\<close> performs before it returns: the driver
  addresses the disk by block number alone.
\<close>

definition disk_read :: "nat \<Rightarrow> 'a bstate_scheme \<Rightarrow> 'a bstate_scheme" where
  "disk_read b s = upd_buf b (\<lambda>x. x\<lparr>b_data := disk s (b_blockno x)\<rparr>) s"

definition disk_write :: "nat \<Rightarrow> 'a bstate_scheme \<Rightarrow> 'a bstate_scheme" where
  "disk_write b s =
     s\<lparr>disk := (disk s)(b_blockno (bufs s b) := b_data (bufs s b)),
       dwrites := dwrites s @ [(b_blockno (bufs s b), b_data (bufs s b))]\<rparr>"

definition bread :: "int \<Rightarrow> u32 \<Rightarrow> u32 \<Rightarrow> 'a bstate_scheme \<Rightarrow> (nat \<times> 'a bstate_scheme) outcome" where
  "bread me dev blockno s =
     obind (bget me dev blockno s) (\<lambda>(b, s1).
       if \<not> b_valid (bufs s1 b)
       then Ok (b, upd_buf b (\<lambda>x. x\<lparr>b_valid := True\<rparr>) (disk_read b s1))
       else Ok (b, s1))"

definition bwrite :: "int \<Rightarrow> nat \<Rightarrow> 'a bstate_scheme \<Rightarrow> 'a bstate_scheme outcome" where
  "bwrite me b s =
     (if \<not> holdingsleep me (b_lock (bufs s b)) then Panic ''bwrite'' else Ok (disk_write b s))"

definition brelse :: "int \<Rightarrow> nat \<Rightarrow> 'a bstate_scheme \<Rightarrow> 'a bstate_scheme outcome" where
  "brelse me b s =
     (if \<not> holdingsleep me (b_lock (bufs s b)) then Panic ''brelse''
      else
        let s1 = upd_buf b (\<lambda>x. x\<lparr>b_lock := releasesleep (b_lock x)\<rparr>) s;
            s2 = upd_buf b (\<lambda>x. x\<lparr>b_refcnt := b_refcnt x - 1\<rparr>) s1
        in if b_refcnt (bufs s2 b) = 0 then
             let s3 = upd_buf (b_next (bufs s2 b)) (\<lambda>x. x\<lparr>b_prev := b_prev (bufs s2 b)\<rparr>) s2;
                 s4 = upd_buf (b_prev (bufs s3 b)) (\<lambda>x. x\<lparr>b_next := b_next (bufs s3 b)\<rparr>) s3;
                 s5 = upd_buf b (\<lambda>x. x\<lparr>b_next := b_next (bufs s4 bhead)\<rparr>) s4;
                 s6 = upd_buf b (\<lambda>x. x\<lparr>b_prev := bhead\<rparr>) s5;
                 s7 = upd_buf (b_next (bufs s6 bhead)) (\<lambda>x. x\<lparr>b_prev := b\<rparr>) s6;
                 s8 = upd_buf bhead (\<lambda>x. x\<lparr>b_next := b\<rparr>) s7
             in Ok s8
           else Ok s2)"

definition bpin :: "nat \<Rightarrow> 'a bstate_scheme \<Rightarrow> 'a bstate_scheme" where
  "bpin b s = upd_buf b (\<lambda>x. x\<lparr>b_refcnt := b_refcnt x + 1\<rparr>) s"

definition bunpin :: "nat \<Rightarrow> 'a bstate_scheme \<Rightarrow> 'a bstate_scheme" where
  "bunpin b s = upd_buf b (\<lambda>x. x\<lparr>b_refcnt := b_refcnt x - 1\<rparr>) s"

section \<open>What the operations leave alone\<close>

text \<open>Reading, releasing and pinning change only the buffers.\<close>

definition only_bufs :: "'a bstate_scheme \<Rightarrow> 'a bstate_scheme \<Rightarrow> bool" where
  "only_bufs s s' \<longleftrightarrow> s' = s\<lparr>bufs := bufs s'\<rparr>"

lemma only_bufs_upd: "only_bufs s s' \<Longrightarrow> only_bufs s (upd_buf b f s')"
  by (cases s; cases s') (simp add: only_bufs_def upd_buf_def)

lemma only_bufs_refl: "only_bufs s s"
  by (simp add: only_bufs_def)

lemma only_bufs_more: "only_bufs s s' \<Longrightarrow> bstate.more s' = bstate.more s \<and> disk s' = disk s \<and> dwrites s' = dwrites s"
  by (cases s; cases s') (simp add: only_bufs_def)

lemma bread_only_bufs: "bread me dev n s = Ok (b, s') \<Longrightarrow> only_bufs s s'"
  by (auto simp: bread_def bget_def block_lock_def disk_read_def outcome_simps
      intro!: only_bufs_upd only_bufs_refl split: if_splits option.splits)

lemma brelse_only_bufs: "brelse me b s = Ok s' \<Longrightarrow> only_bufs s s'"
  by (auto simp: brelse_def Let_def intro!: only_bufs_upd only_bufs_refl split: if_splits)

section \<open>The list behind the pointers\<close>

fun lnk :: "(nat \<Rightarrow> nat) \<Rightarrow> nat \<Rightarrow> nat list \<Rightarrow> nat \<Rightarrow> bool" where
  "lnk nx a [] z \<longleftrightarrow> nx a = z"
| "lnk nx a (x # xs) z \<longleftrightarrow> nx a = x \<and> lnk nx x xs z"

lemma lnk_cong: "(\<And>x. x \<in> set (a # xs) \<Longrightarrow> nx x = nx' x) \<Longrightarrow> lnk nx a xs z = lnk nx' a xs z"
  by (induction xs arbitrary: a) auto

lemma lnk_append: "lnk nx a (xs @ y # ys) z \<longleftrightarrow> lnk nx a xs y \<and> lnk nx y ys z"
  by (induction xs arbitrary: a) auto

lemma lnk_last: "lnk nx a xs z \<Longrightarrow> nx (last (a # xs)) = z"
  by (induction xs arbitrary: a) auto

lemma lnk_redirect:
  assumes "lnk nx a xs z" and "distinct (a # xs)"
  shows "lnk (nx(last (a # xs) := w)) a xs w"
  using assms
proof (induction xs arbitrary: a)
  case Nil
  then show ?case by simp
next
  case (Cons x xs)
  then have "a \<noteq> last (x # xs)" by (metis distinct.simps(2) last_in_set list.distinct(1))
  with Cons show ?case by auto
qed

lemma lnk_remove:
  assumes "lnk nx a (xs @ b # ys) z" and "distinct (a # xs @ b # ys)"
  shows "lnk (nx(last (a # xs) := nx b)) a (xs @ ys) z"
proof -
  let ?nx = "nx(last (a # xs) := nx b)"
  have split: "lnk nx a xs b" "lnk nx b ys z" using assms(1) by (simp_all add: lnk_append)
  have pre: "lnk ?nx a xs (nx b)" using lnk_redirect [OF split(1)] assms(2) by simp
  show ?thesis
  proof (cases ys)
    case Nil
    then show ?thesis using pre split by simp
  next
    case (Cons y ys')
    have "last (a # xs) \<notin> set ys"
      using assms(2) last_in_set [of "a # xs"] by auto
    then have "lnk ?nx y ys' z = lnk nx y ys' z"
      using Cons by (intro lnk_cong) auto
    then show ?thesis using pre split Cons by (simp add: lnk_append)
  qed
qed

lemma lnk_front:
  assumes "lnk nx a xs z" and "b \<notin> set (a # xs)" and "a \<notin> set xs"
  shows "lnk (nx(b := nx a, a := b)) a (b # xs) z"
proof -
  let ?nx = "nx(b := nx a, a := b)"
  have "lnk ?nx b xs z"
  proof (cases xs)
    case Nil
    then show ?thesis using assms by auto
  next
    case (Cons y ys)
    then have "lnk ?nx y ys z = lnk nx y ys z" using assms by (intro lnk_cong) auto
    then show ?thesis using assms Cons by auto
  qed
  then show ?thesis by simp
qed

lemma lnk_back:
  assumes "lnk nx a xs z" and "b \<notin> set (a # xs)" and "distinct (a # xs)"
  shows "lnk (nx(b := z, last (a # xs) := b)) a (xs @ [b]) z"
proof -
  have b: "b \<noteq> last (a # xs)" using assms(2) last_in_set [of "a # xs"] by auto
  have "lnk (nx(last (a # xs) := b)) a xs b" using lnk_redirect [OF assms(1,3)] .
  moreover have "lnk (nx(b := z, last (a # xs) := b)) a xs b = lnk (nx(last (a # xs) := b)) a xs b"
    using assms(2) by (intro lnk_cong) auto
  ultimately show ?thesis using b by (simp add: lnk_append)
qed

section \<open>The recency list\<close>

definition lru :: "(nat \<Rightarrow> buf) \<Rightarrow> nat list \<Rightarrow> bool" where
  "lru bs L \<longleftrightarrow> distinct L \<and> set L = {..<NBUF} \<and> lnk (\<lambda>i. b_next (bs i)) bhead L bhead \<and>
     lnk (\<lambda>i. b_prev (bs i)) bhead (rev L) bhead"

text \<open>A buffer without its list pointers.\<close>

definition payload :: "buf \<Rightarrow> buf" where
  "payload x = x\<lparr>b_prev := 0, b_next := 0\<rparr>"

lemma payload_eqD:
  assumes "payload x = payload y"
  shows "b_valid x = b_valid y" "b_dev x = b_dev y" "b_blockno x = b_blockno y" "b_lock x = b_lock y"
    "b_refcnt x = b_refcnt y" "b_data x = b_data y"
  using assms by (cases x; cases y; simp add: payload_def)+

lemma payload_upd [simp]:
  "payload (x\<lparr>b_prev := p\<rparr>) = payload x" "payload (x\<lparr>b_next := p\<rparr>) = payload x"
  by (simp_all add: payload_def)

lemma lru_facts:
  assumes "lru bs L"
  shows "bhead \<notin> set L" "length L = NBUF" "b \<in> set L \<longleftrightarrow> b < NBUF"
  using assms distinct_card [of L] by (auto simp: lru_def bhead_def)

lemma lru_cong:
  assumes "\<And>i. b_next (bs i) = b_next (bs' i)" and "\<And>i. b_prev (bs i) = b_prev (bs' i)"
  shows "lru bs L = lru bs' L"
  using assms by (simp add: lru_def)

lemma bget_cached_find:
  assumes "lnk (\<lambda>i. b_next (bs i)) a L bhead" and "bhead \<notin> set L" and "length L < fuel"
  shows "bget_cached fuel bs dev n (b_next (bs a)) =
    Ok (find (\<lambda>b. b_dev (bs b) = dev \<and> b_blockno (bs b) = n) L)"
  using assms
proof (induction L arbitrary: a fuel)
  case Nil
  then show ?case by (cases fuel) auto
next
  case (Cons x L)
  then show ?case by (cases fuel) auto
qed

lemma bget_lru_find:
  assumes "lnk (\<lambda>i. b_prev (bs i)) a L bhead" and "bhead \<notin> set L" and "length L < fuel"
  shows "bget_lru fuel bs (b_prev (bs a)) = Ok (find (\<lambda>b. b_refcnt (bs b) = 0) L)"
  using assms
proof (induction L arbitrary: a fuel)
  case Nil
  then show ?case by (cases fuel) auto
next
  case (Cons x L)
  then show ?case by (cases fuel) auto
qed

text \<open>The pointer updates of \<open>brelse\<close> move the buffer to the front of the list.\<close>

definition set_prev :: "nat \<Rightarrow> nat \<Rightarrow> (nat \<Rightarrow> buf) \<Rightarrow> nat \<Rightarrow> buf" where
  "set_prev i p bs = bs(i := (bs i)\<lparr>b_prev := p\<rparr>)"

definition set_next :: "nat \<Rightarrow> nat \<Rightarrow> (nat \<Rightarrow> buf) \<Rightarrow> nat \<Rightarrow> buf" where
  "set_next i p bs = bs(i := (bs i)\<lparr>b_next := p\<rparr>)"

lemma set_link_simps [simp]:
  "payload (set_prev i p bs j) = payload (bs j)" "payload (set_next i p bs j) = payload (bs j)"
  "b_prev (set_prev i p bs j) = (if j = i then p else b_prev (bs j))"
  "b_next (set_prev i p bs j) = b_next (bs j)"
  "b_next (set_next i p bs j) = (if j = i then p else b_next (bs j))"
  "b_prev (set_next i p bs j) = b_prev (bs j)"
  by (simp_all add: set_prev_def set_next_def)

definition unlink :: "nat \<Rightarrow> (nat \<Rightarrow> buf) \<Rightarrow> nat \<Rightarrow> buf" where
  "unlink b bs =
     (let bs3 = set_prev (b_next (bs b)) (b_prev (bs b)) bs
      in set_next (b_prev (bs3 b)) (b_next (bs3 b)) bs3)"

definition link_front :: "nat \<Rightarrow> (nat \<Rightarrow> buf) \<Rightarrow> nat \<Rightarrow> buf" where
  "link_front b bs =
     (let bs5 = set_next b (b_next (bs bhead)) bs;
          bs6 = set_prev b bhead bs5;
          bs7 = set_prev (b_next (bs6 bhead)) b bs6
      in set_next bhead b bs7)"

definition to_front :: "nat \<Rightarrow> (nat \<Rightarrow> buf) \<Rightarrow> nat \<Rightarrow> buf" where
  "to_front b bs = link_front b (unlink b bs)"

lemma payload_to_front [simp]: "payload (to_front b bs i) = payload (bs i)"
  by (simp add: to_front_def link_front_def unlink_def Let_def)

lemma unlink_links:
  assumes "b_next (bs b) \<noteq> b"
  shows "(\<lambda>i. b_next (unlink b bs i)) = (\<lambda>i. b_next (bs i))(b_prev (bs b) := b_next (bs b))"
    "(\<lambda>i. b_prev (unlink b bs i)) = (\<lambda>i. b_prev (bs i))(b_next (bs b) := b_prev (bs b))"
  using assms by (auto simp: unlink_def Let_def)

lemma link_front_links:
  assumes "b \<noteq> bhead"
  shows "(\<lambda>i. b_next (link_front b bs i)) = (\<lambda>i. b_next (bs i))(b := b_next (bs bhead), bhead := b)"
    "(\<lambda>i. b_prev (link_front b bs i)) = (\<lambda>i. b_prev (bs i))(b := bhead, b_next (bs bhead) := b)"
  using assms by (auto simp: link_front_def Let_def)

lemma lru_to_front:
  assumes L: "lru bs (xs @ b # ys)"
  shows "lru (to_front b bs) (b # xs @ ys)"
proof -
  let ?nx = "\<lambda>i. b_next (bs i)" and ?pv = "\<lambda>i. b_prev (bs i)"
  have d: "distinct (bhead # xs @ b # ys)" and set: "set (xs @ b # ys) = {..<NBUF}"
    using lru_facts [OF L] L by (auto simp: lru_def)
  have N: "lnk ?nx bhead (xs @ b # ys) bhead" and P: "lnk ?pv bhead (rev ys @ b # rev xs) bhead"
    using L by (simp_all add: lru_def)
  define p where "p = last (bhead # xs)"
  define q where "q = last (bhead # rev ys)"
  have pv: "?pv b = p"
  proof -
    have "lnk ?pv b (rev xs) bhead" using P by (simp add: lnk_append)
    then show ?thesis by (cases xs rule: rev_cases) (auto simp: p_def)
  qed
  have nx: "?nx b = q"
  proof -
    have "lnk ?nx b ys bhead" using N by (simp add: lnk_append)
    then show ?thesis by (cases ys) (auto simp: q_def)
  qed
  have bp: "b \<noteq> p" "b \<noteq> q" "b \<noteq> bhead"
    using d last_in_set [of "bhead # xs"] last_in_set [of "bhead # rev ys"] by (auto simp: p_def q_def)
  let ?nx1 = "?nx(p := ?nx b)" and ?pv1 = "?pv(q := ?pv b)"
  have un: "(\<lambda>i. b_next (unlink b bs i)) = ?nx1" "(\<lambda>i. b_prev (unlink b bs i)) = ?pv1"
    using unlink_links [of bs b] bp(2) pv nx by simp_all
  have N1: "lnk ?nx1 bhead (xs @ ys) bhead"
    unfolding p_def using lnk_remove [OF N d] .
  have P1: "lnk ?pv1 bhead (rev ys @ rev xs) bhead"
    unfolding q_def by (rule lnk_remove [OF P]) (use d in auto)
  define r where "r = last (bhead # rev ys @ rev xs)"
  have r: "?nx1 bhead = r"
  proof (cases "xs @ ys")
    case Nil
    then show ?thesis using N1 by (simp add: r_def)
  next
    case (Cons c zs)
    then have "rev ys @ rev xs = rev zs @ [c]" by (metis rev_append rev.simps(2))
    then show ?thesis using N1 Cons by (simp add: r_def)
  qed
  have rb: "r \<noteq> b" using d last_in_set [of "bhead # rev ys @ rev xs"] by (auto simp: r_def)
  have "lnk (?nx1(b := ?nx1 bhead, bhead := b)) bhead (b # xs @ ys) bhead"
    using N1 d by (intro lnk_front) auto
  moreover have "(\<lambda>i. b_next (to_front b bs i)) = ?nx1(b := ?nx1 bhead, bhead := b)"
    unfolding to_front_def link_front_links(1) [OF bp(3)] un(1) fun_cong [OF un(1), of bhead] ..
  moreover have "lnk (?pv1(b := bhead, r := b)) bhead ((rev ys @ rev xs) @ [b]) bhead"
    unfolding r_def using P1 d by (intro lnk_back) auto
  moreover have "(\<lambda>i. b_prev (to_front b bs i)) = ?pv1(b := bhead, r := b)"
    unfolding to_front_def link_front_links(2) [OF bp(3)] un(2) fun_cong [OF un(1), of bhead] r ..
  ultimately show ?thesis
    using d set by (auto simp: lru_def)
qed

lemma upd_buf_links:
  "upd_buf i (\<lambda>x. x\<lparr>b_prev := p\<rparr>) s = s\<lparr>bufs := set_prev i p (bufs s)\<rparr>"
  "upd_buf i (\<lambda>x. x\<lparr>b_next := p\<rparr>) s = s\<lparr>bufs := set_next i p (bufs s)\<rparr>"
  by (simp_all add: upd_buf_def set_prev_def set_next_def)

definition put_buf :: "buf \<Rightarrow> buf" where
  "put_buf x = x\<lparr>b_lock := releasesleep (b_lock x), b_refcnt := b_refcnt x - 1\<rparr>"

lemma brelse_eq:
  assumes "holdingsleep me (b_lock (bufs s b))"
  shows "brelse me b s = Ok (s\<lparr>bufs :=
    (let bs = (bufs s)(b := put_buf (bufs s b))
     in if b_refcnt (bufs s b) = 1 then to_front b bs else bs)\<rparr>)"
proof -
  have 2: "upd_buf b (\<lambda>x. x\<lparr>b_refcnt := b_refcnt x - 1\<rparr>)
      (upd_buf b (\<lambda>x. x\<lparr>b_lock := releasesleep (b_lock x)\<rparr>) s) =
      s\<lparr>bufs := (bufs s)(b := put_buf (bufs s b))\<rparr>"
    by (simp add: upd_buf_def put_buf_def)
  have 0: "b_refcnt (put_buf x) = 0 \<longleftrightarrow> b_refcnt x = 1" for x
    by (simp add: put_buf_def)
  show ?thesis
    using assms unfolding brelse_def Let_def 2 upd_buf_links to_front_def link_front_def unlink_def
    by (simp add: 0 del: fun_upd_apply) (simp add: 0)
qed

section \<open>Initialisation\<close>

definition links :: "(nat \<Rightarrow> buf) \<Rightarrow> nat list \<Rightarrow> bool" where
  "links bs L \<longleftrightarrow> lnk (\<lambda>i. b_next (bs i)) bhead L bhead \<and> lnk (\<lambda>i. b_prev (bs i)) bhead (rev L) bhead"

lemma links_front:
  assumes "links bs L" and "distinct (bhead # L)" and "b \<notin> set (bhead # L)"
  shows "links (link_front b bs) (b # L)"
proof -
  let ?nx = "\<lambda>i. b_next (bs i)" and ?pv = "\<lambda>i. b_prev (bs i)"
  have bh: "b \<noteq> bhead" using assms(3) by auto
  have hd: "?nx bhead = last (bhead # rev L)"
    using assms(1) by (cases L) (auto simp: links_def)
  have "lnk (?nx(b := ?nx bhead, bhead := b)) bhead (b # L) bhead"
    using assms by (intro lnk_front) (auto simp: links_def)
  moreover have "lnk (?pv(b := bhead, last (bhead # rev L) := b)) bhead (rev L @ [b]) bhead"
    using assms by (intro lnk_back) (auto simp: links_def)
  ultimately show ?thesis
    unfolding links_def link_front_links [OF bh] hd by simp
qed

definition init_lock :: "nat \<Rightarrow> (nat \<Rightarrow> buf) \<Rightarrow> nat \<Rightarrow> buf" where
  "init_lock b bs = bs(b := (bs b)\<lparr>b_lock := initsleeplock\<rparr>)"

lemma binit_step:
  assumes "b \<noteq> bhead"
  shows "binit_loop b (Suc n) s = binit_loop (Suc b) n (s\<lparr>bufs := link_front b (init_lock b (bufs s))\<rparr>)"
proof -
  have "upd_buf b (\<lambda>x. x\<lparr>b_prev := bhead, b_lock := initsleeplock\<rparr>)
      (upd_buf b (\<lambda>x. x\<lparr>b_next := b_next (bufs s bhead)\<rparr>) s) =
      s\<lparr>bufs := set_prev b bhead (set_next b (b_next (init_lock b (bufs s) bhead)) (init_lock b (bufs s)))\<rparr>"
    using assms by (cases "bufs s b") (simp add: upd_buf_def set_prev_def set_next_def init_lock_def)
  then show ?thesis
    by (simp only: binit_loop.simps Let_def upd_buf_links link_front_def)
      (simp del: set_link_simps binit_loop.simps)
qed

lemma init_lock_links [simp]:
  "b_next (init_lock b bs i) = b_next (bs i)" "b_prev (init_lock b bs i) = b_prev (bs i)"
  by (simp_all add: init_lock_def)

lemma payload_link_front [simp]: "payload (link_front b bs i) = payload (bs i)"
  by (simp add: link_front_def Let_def)

lemma payload_init_lock [simp]:
  "payload (init_lock b bs i) = (if i = b then (payload (bs i))\<lparr>b_lock := initsleeplock\<rparr> else payload (bs i))"
  by (simp add: init_lock_def payload_def)

lemma binit_loop_spec:
  assumes "links (bufs s) (rev [0..<b])" and "b + n = NBUF"
  shows "\<exists>bs. binit_loop b n s = s\<lparr>bufs := bs\<rparr> \<and> links bs (rev [0..<NBUF]) \<and>
    (\<forall>i. payload (bs i) = (if b \<le> i \<and> i < NBUF then (payload (bufs s i))\<lparr>b_lock := initsleeplock\<rparr>
       else payload (bufs s i)))"
  using assms
proof (induction n arbitrary: b s)
  case 0
  then show ?case by (intro exI [of _ "bufs s"]) auto
next
  case (Suc n)
  have b: "b \<noteq> bhead" using Suc.prems by (simp add: bhead_def)
  let ?s = "s\<lparr>bufs := link_front b (init_lock b (bufs s))\<rparr>"
  have "links (init_lock b (bufs s)) (rev [0..<b])"
    using Suc.prems(1) unfolding links_def by simp
  then have "links (bufs ?s) (rev [0..<Suc b])"
    using links_front [of "init_lock b (bufs s)" "rev [0..<b]" b] Suc.prems(2) b
    by (simp add: bhead_def)
  from Suc.IH [OF this] Suc.prems(2) obtain bs where bs:
    "binit_loop (Suc b) n ?s = ?s\<lparr>bufs := bs\<rparr>" "links bs (rev [0..<NBUF])"
    "\<And>i. payload (bs i) = (if Suc b \<le> i \<and> i < NBUF
       then (payload (bufs ?s i))\<lparr>b_lock := initsleeplock\<rparr> else payload (bufs ?s i))" by auto
  have "payload (bs i) = (if b \<le> i \<and> i < NBUF then (payload (bufs s i))\<lparr>b_lock := initsleeplock\<rparr>
      else payload (bufs s i))" for i
    using bs(3) [of i] Suc.prems(2) by (cases "i = b") auto
  then show ?case using bs(1,2) binit_step [OF b, of n s] by (intro exI [of _ bs]) simp
qed

lemma binit_spec:
  "\<exists>bs. binit s = s\<lparr>bufs := bs\<rparr> \<and> lru bs (rev [0..<NBUF]) \<and>
    (\<forall>i<NBUF. payload (bs i) = (payload (bufs s i))\<lparr>b_lock := initsleeplock\<rparr>)"
proof -
  let ?s = "upd_buf bhead (\<lambda>x. x\<lparr>b_prev := bhead, b_next := bhead\<rparr>) s"
  have "links (bufs ?s) (rev [0..<0])" by (simp add: links_def upd_buf_def)
  from binit_loop_spec [OF this, of NBUF] obtain bs where bs: "binit s = ?s\<lparr>bufs := bs\<rparr>"
    "links bs (rev [0..<NBUF])"
    "\<And>i. i < NBUF \<Longrightarrow> payload (bs i) = (payload (bufs ?s i))\<lparr>b_lock := initsleeplock\<rparr>"
    by (auto simp: binit_def)
  then show ?thesis
    by (intro exI [of _ bs]) (auto simp: lru_def links_def upd_buf_def bhead_def)
qed

section \<open>Recency\<close>

text \<open>Buffers linked in the order of initialisation, for the examples.\<close>

definition ring :: "(nat \<Rightarrow> buf) \<Rightarrow> nat \<Rightarrow> buf" where
  "ring f i = (f i)\<lparr>b_prev := (if i = NBUF then 0 else Suc i), b_next := (if i = 0 then NBUF else i - 1)\<rparr>"

lemma lru_ring: "lru (ring f) (rev [0..<NBUF])"
proof -
  have n: "rev [0..<NBUF] = [29,28,27,26,25,24,23,22,21,20,19,18,17,16,15,14,13,12,11,10,9,8,7,6,5,4,3,2,1,0]"
    by (simp add: NBUF_def upt_conv_Cons)
  have "set (rev [0..<NBUF]) = {..<NBUF}" by auto
  then show ?thesis
    unfolding lru_def by (simp add: n ring_def) (simp add: bhead_def NBUF_def)
qed

text \<open>
  C10: releasing the last reference of a buffer moves it to the front of the recency list, where
  \<open>bget\<close> looks for a cached block first and for a buffer to recycle last, and keeps the other
  buffers in order; the pointers stay a circular doubly linked list of all buffers.
\<close>

theorem brelse_moves_to_front:
  assumes "lru (bufs s) L" and "b < NBUF" and "holdingsleep me (b_lock (bufs s b))"
    and "b_refcnt (bufs s b) = 1"
  shows "\<exists>s'. brelse me b s = Ok s' \<and> lru (bufs s') (b # remove1 b L) \<and> b_refcnt (bufs s' b) = 0 \<and>
    \<not> sl_locked (b_lock (bufs s' b)) \<and> (\<forall>i. i \<noteq> b \<longrightarrow> payload (bufs s' i) = payload (bufs s i))"
proof -
  let ?bs = "(bufs s)(b := put_buf (bufs s b))"
  obtain xs ys where L: "L = xs @ b # ys" using lru_facts(3) [OF assms(1)] assms(2) by (metis in_set_conv_decomp)
  have "distinct L" using assms(1) by (simp add: lru_def)
  then have rm: "remove1 b L = xs @ ys" using L by (simp add: remove1_append)
  have "lru ?bs L" using assms(1) lru_cong [of "bufs s" ?bs L] by (simp add: put_buf_def)
  then have "lru (to_front b ?bs) (b # remove1 b L)"
    using lru_to_front [of ?bs xs b ys] L rm by simp
  moreover have "brelse me b s = Ok (s\<lparr>bufs := to_front b ?bs\<rparr>)"
    using brelse_eq [of me s b] assms(3,4) by simp
  moreover have "payload (to_front b ?bs b) = payload (put_buf (bufs s b))" by simp
  note pb = payload_eqD [OF this]
  ultimately show ?thesis
    using assms(4) pb(4,5) by (auto simp: put_buf_def releasesleep_def)
qed

theorem brelse_moves_to_front_witness:
  "let s = \<lparr>bufs = ring (\<lambda>i. \<lparr>b_valid = True, b_dev = ROOTDEV, b_blockno = of_nat i,
        b_lock = \<lparr>sl_locked = True, sl_pid = 7\<rparr>, b_refcnt = 1, b_prev = 0, b_next = 0, b_data = []\<rparr>),
        disk = (\<lambda>_. []), dwrites = []\<rparr>
   in \<exists>s'. brelse 7 3 s = Ok s' \<and> lru (bufs s') (3 # remove1 3 (rev [0..<NBUF])) \<and>
     b_refcnt (bufs s' 3) = 0 \<and> \<not> sl_locked (b_lock (bufs s' 3)) \<and>
     (\<forall>i. i \<noteq> 3 \<longrightarrow> payload (bufs s' i) = payload (bufs s i))"
  unfolding Let_def
  by (intro brelse_moves_to_front, simp only: bstate.simps, rule lru_ring)
    (simp_all add: holdingsleep_def NBUF_def ring_def)

end
