(* ===== verification/Bio_Cache.thy ===== *)
theory Bio_Cache
  imports Bio
begin

text \<open>
  The contract of the buffer cache. \<open>binv\<close> is the cache invariant, \<open>bview\<close> the block contents that
  the cache and the disk show together, \<open>hold\<close> the state in which one process works: the buffers
  it has locked and the blocks the log has pinned. The locale \<open>block_cache\<close> states what the log and
  the file system rely on, with the combined operations proved once; \<open>bc\<close> interprets it with the
  routines of \<^verbatim>\<open>kernel/bio.c\<close>.
\<close>

section \<open>The cache invariant and the block contents it shows\<close>

definition cached :: "(nat \<Rightarrow> buf) \<Rightarrow> u32 \<Rightarrow> nat \<Rightarrow> bool" where
  "cached bs n b \<longleftrightarrow> b < NBUF \<and> b_dev (bs b) = ROOTDEV \<and> b_blockno (bs b) = n"

definition binv :: "'a bstate_scheme \<Rightarrow> bool" where
  "binv s \<longleftrightarrow> (\<exists>L. lru (bufs s) L) \<and>
     (\<forall>n b c. cached (bufs s) n b \<longrightarrow> cached (bufs s) n c \<longrightarrow> b = c) \<and>
     (\<forall>b<NBUF. b_refcnt (bufs s b) = 0 \<longrightarrow> \<not> sl_locked (b_lock (bufs s b)) \<and>
        (b_dev (bufs s b) = ROOTDEV \<longrightarrow> b_valid (bufs s b) \<longrightarrow>
           b_data (bufs s b) = disk s (b_blockno (bufs s b))))"

text \<open>What \<open>bread\<close> returns for block \<open>n\<close>: the valid cached copy, else the disk's.\<close>

definition bview :: "'a bstate_scheme \<Rightarrow> u32 \<Rightarrow> block" where
  "bview s n =
     (case find (\<lambda>b. cached (bufs s) n b \<and> b_valid (bufs s b)) [0..<NBUF] of
        Some b \<Rightarrow> b_data (bufs s b) | None \<Rightarrow> disk s n)"

lemma find_SomeD: "find P xs = Some y \<Longrightarrow> y \<in> set xs \<and> P y"
  by (induction xs) (auto split: if_splits)

lemma find_unique:
  assumes "x \<in> set xs" and "P x" and "\<And>y. y \<in> set xs \<Longrightarrow> P y \<Longrightarrow> y = x"
  shows "find P xs = Some x"
proof -
  have "find P xs \<noteq> None" using assms(1,2) by (auto simp: find_None_iff)
  then obtain y where "find P xs = Some y" by blast
  then show ?thesis using find_SomeD [of P xs y] assms(3) [of y] by simp
qed

lemma bview_cached:
  assumes "binv s" and "cached (bufs s) n b" and "b_valid (bufs s b)"
  shows "bview s n = b_data (bufs s b)"
proof -
  have "c = b" if "cached (bufs s) n c" for c
    using that assms unfolding binv_def by blast
  moreover have "b \<in> set [0..<NBUF]" using assms(2) by (simp add: cached_def)
  ultimately have "find (\<lambda>b. cached (bufs s) n b \<and> b_valid (bufs s b)) [0..<NBUF] = Some b"
    using assms(2,3) by (intro find_unique) blast+
  then show ?thesis by (simp add: bview_def)
qed

lemma bview_disk:
  assumes "\<And>b. cached (bufs s) n b \<Longrightarrow> \<not> b_valid (bufs s b)"
  shows "bview s n = disk s n"
  using assms by (auto simp: bview_def split: option.split dest: find_SomeD)

lemma cached_payload: "payload (bs' b) = payload (bs b) \<Longrightarrow> cached bs' n b = cached bs n b"
  using payload_eqD [of "bs' b" "bs b"] by (simp add: cached_def)

section \<open>One process at work on the cache\<close>

text \<open>
  \<open>hold me s P H\<close>: process \<open>me\<close> holds the locked buffers of the blocks \<open>H\<close>, the log has pinned the
  blocks \<open>P\<close>, and no other buffer is in use.
\<close>

definition hold :: "int \<Rightarrow> 'a bstate_scheme \<Rightarrow> u32 set \<Rightarrow> u32 set \<Rightarrow> bool" where
  "hold me s P H \<longleftrightarrow> binv s \<and> finite (P \<union> H) \<and> (\<forall>n\<in>P \<union> H. \<exists>b. cached (bufs s) n b \<and> b_valid (bufs s b)) \<and>
     (\<forall>n b. cached (bufs s) n b \<longrightarrow>
        b_refcnt (bufs s b) = (if n \<in> P then 1 else 0) + (if n \<in> H then 1 else 0) \<and>
        sl_locked (b_lock (bufs s b)) = (n \<in> H) \<and> (n \<in> H \<longrightarrow> sl_pid (b_lock (bufs s b)) = me)) \<and>
     (\<forall>b<NBUF. b_dev (bufs s b) \<noteq> ROOTDEV \<longrightarrow> b_refcnt (bufs s b) = 0 \<and> \<not> sl_locked (b_lock (bufs s b)))"

lemma holdD:
  assumes "hold me s P H"
  shows "binv s" "finite (P \<union> H)" "n \<in> P \<union> H \<Longrightarrow> \<exists>b. cached (bufs s) n b \<and> b_valid (bufs s b)"
    "cached (bufs s) n b \<Longrightarrow> b_refcnt (bufs s b) = (if n \<in> P then 1 else 0) + (if n \<in> H then 1 else 0)"
    "cached (bufs s) n b \<Longrightarrow> sl_locked (b_lock (bufs s b)) = (n \<in> H)"
    "cached (bufs s) n b \<Longrightarrow> n \<in> H \<Longrightarrow> sl_pid (b_lock (bufs s b)) = me"
    "b < NBUF \<Longrightarrow> b_dev (bufs s b) \<noteq> ROOTDEV \<Longrightarrow> b_refcnt (bufs s b) = 0 \<and> \<not> sl_locked (b_lock (bufs s b))"
  using assms unfolding hold_def by blast+

lemma binvD:
  assumes "binv s"
  shows "\<exists>L. lru (bufs s) L" "cached (bufs s) n b \<Longrightarrow> cached (bufs s) n c \<Longrightarrow> b = c"
    "b < NBUF \<Longrightarrow> b_refcnt (bufs s b) = 0 \<Longrightarrow> \<not> sl_locked (b_lock (bufs s b))"
    "b < NBUF \<Longrightarrow> b_refcnt (bufs s b) = 0 \<Longrightarrow> b_dev (bufs s b) = ROOTDEV \<Longrightarrow> b_valid (bufs s b) \<Longrightarrow>
       b_data (bufs s b) = disk s (b_blockno (bufs s b))"
  using assms unfolding binv_def by blast+

lemma hold_cached_valid:
  assumes "hold me s P H" and "n \<in> P \<union> H" and "cached (bufs s) n b"
  shows "b_valid (bufs s b)"
  using holdD(3) [OF assms(1,2)] binvD(2) [OF holdD(1) [OF assms(1)] assms(3)] by blast

text \<open>With fewer blocks in use than buffers, some buffer is free.\<close>

lemma hold_free_buffer:
  assumes "hold me s P H" and "card (P \<union> H) < NBUF"
  shows "\<exists>b<NBUF. b_refcnt (bufs s b) = 0"
proof (rule ccontr)
  assume none: "\<not> (\<exists>b<NBUF. b_refcnt (bufs s b) = 0)"
  let ?f = "\<lambda>b. b_blockno (bufs s b)"
  have root: "cached (bufs s) (?f b) b" if "b < NBUF" for b
    using that none holdD(7) [OF assms(1), of b] by (auto simp: cached_def)
  have "?f ` {..<NBUF} \<subseteq> P \<union> H"
  proof
    fix n assume "n \<in> ?f ` {..<NBUF}"
    then obtain b where b: "b < NBUF" "n = ?f b" by auto
    then show "n \<in> P \<union> H"
      using none holdD(4) [OF assms(1) root, of b] by (auto split: if_splits)
  qed
  moreover have "inj_on ?f {..<NBUF}"
  proof (rule inj_onI)
    fix b c assume "b \<in> {..<NBUF}" "c \<in> {..<NBUF}" "?f b = ?f c"
    then show "b = c" using root [of b] root [of c] binvD(2) [OF holdD(1) [OF assms(1)]] by auto
  qed
  ultimately have "NBUF \<le> card (P \<union> H)"
    using card_inj_on_le [of ?f "{..<NBUF}"] holdD(2) [OF assms(1)] by simp
  then show False using assms(2) by simp
qed

text \<open>\<open>get_buf\<close>: what \<open>bread\<close> leaves in the buffer it returns.\<close>

definition get_buf :: "int \<Rightarrow> u32 \<Rightarrow> block \<Rightarrow> buf \<Rightarrow> buf" where
  "get_buf me n d x = x\<lparr>b_valid := True, b_dev := ROOTDEV, b_blockno := n,
     b_lock := (b_lock x)\<lparr>sl_locked := True, sl_pid := me\<rparr>, b_refcnt := b_refcnt x + 1, b_data := d\<rparr>"

lemma get_buf_simps [simp]:
  "b_valid (get_buf me n d x)" "b_dev (get_buf me n d x) = ROOTDEV" "b_blockno (get_buf me n d x) = n"
  "sl_locked (b_lock (get_buf me n d x))" "sl_pid (b_lock (get_buf me n d x)) = me"
  "b_refcnt (get_buf me n d x) = b_refcnt x + 1" "b_data (get_buf me n d x) = d"
  "b_next (get_buf me n d x) = b_next x" "b_prev (get_buf me n d x) = b_prev x"
  by (simp_all add: get_buf_def)

lemma get_buf_eqI:
  assumes "b_valid y" "b_dev y = ROOTDEV" "b_blockno y = n" "b_data y = d" "b_refcnt y = b_refcnt x + 1"
    "b_lock y = (b_lock x)\<lparr>sl_locked := True, sl_pid := me\<rparr>" "b_next y = b_next x" "b_prev y = b_prev x"
  shows "y = get_buf me n d x"
  using assms by (intro buf.equality) (auto simp: get_buf_def)

lemma lru_find_cached:
  assumes "lru (bufs s) L"
  shows "bget_cached (NBUF + 1) (bufs s) dev n (b_next (bufs s bhead)) =
      Ok (find (\<lambda>b. b_dev (bufs s b) = dev \<and> b_blockno (bufs s b) = n) L)"
    "bget_lru (NBUF + 1) (bufs s) (b_prev (bufs s bhead)) =
      Ok (find (\<lambda>b. b_refcnt (bufs s b) = 0) (rev L))"
proof -
  have L: "lnk (\<lambda>i. b_next (bufs s i)) bhead L bhead" "lnk (\<lambda>i. b_prev (bufs s i)) bhead (rev L) bhead"
    using assms by (auto simp: lru_def)
  show "bget_cached (NBUF + 1) (bufs s) dev n (b_next (bufs s bhead)) =
      Ok (find (\<lambda>b. b_dev (bufs s b) = dev \<and> b_blockno (bufs s b) = n) L)"
    using lru_facts(1,2) [OF assms] by (intro bget_cached_find [OF L(1)]) auto
  show "bget_lru (NBUF + 1) (bufs s) (b_prev (bufs s bhead)) =
      Ok (find (\<lambda>b. b_refcnt (bufs s b) = 0) (rev L))"
    using lru_facts(1,2) [OF assms] by (intro bget_lru_find [OF L(2)]) auto
qed

lemma bread_cached:
  assumes "binv s" and "cached (bufs s) n b" and "\<not> sl_locked (b_lock (bufs s b))"
  shows "bread me ROOTDEV n s =
    Ok (b, s\<lparr>bufs := (bufs s)(b := get_buf me n (bview s n) (bufs s b))\<rparr>)"
proof -
  obtain L where L: "lru (bufs s) L" using binvD(1) [OF assms(1)] by blast
  have c: "b_dev (bufs s b) = ROOTDEV" "b_blockno (bufs s b) = n" "b < NBUF"
    using assms(2) by (simp_all add: cached_def)
  have "find (\<lambda>b. b_dev (bufs s b) = ROOTDEV \<and> b_blockno (bufs s b) = n) L = Some b"
  proof (rule find_unique)
    show "b \<in> set L" using c lru_facts(3) [OF L] by simp
    show "x = b" if "x \<in> set L" "b_dev (bufs s x) = ROOTDEV \<and> b_blockno (bufs s x) = n" for x
      using that binvD(2) [OF assms(1) _ assms(2), of x] lru_facts(3) [OF L, of x]
      by (simp add: cached_def)
  qed (simp add: c)
  then have get: "bget me ROOTDEV n s = Ok (b, s\<lparr>bufs := (bufs s)(b := (bufs s b)
      \<lparr>b_refcnt := b_refcnt (bufs s b) + 1,
       b_lock := (b_lock (bufs s b))\<lparr>sl_locked := True, sl_pid := me\<rparr>\<rparr>)\<rparr>)"
    using lru_find_cached(1) [OF L] assms(3)
    by (simp add: bget_def block_lock_def acquiresleep_def upd_buf_def)
  show ?thesis
  proof (cases "b_valid (bufs s b)")
    case True
    then have "(bufs s b)\<lparr>b_refcnt := b_refcnt (bufs s b) + 1,
        b_lock := (b_lock (bufs s b))\<lparr>sl_locked := True, sl_pid := me\<rparr>\<rparr> =
        get_buf me n (bview s n) (bufs s b)"
      using c bview_cached [OF assms(1,2)] by (intro get_buf_eqI) auto
    then show ?thesis using get True by (simp add: bread_def)
  next
    case False
    then have "bview s n = disk s n"
      using binvD(2) [OF assms(1) _ assms(2)] by (intro bview_disk) auto
    then have "(bufs s b)\<lparr>b_refcnt := b_refcnt (bufs s b) + 1,
        b_lock := (b_lock (bufs s b))\<lparr>sl_locked := True, sl_pid := me\<rparr>, b_data := disk s n,
        b_valid := True\<rparr> = get_buf me n (bview s n) (bufs s b)"
      using c by (intro get_buf_eqI) auto
    then show ?thesis
      using get c False by (simp add: bread_def upd_buf_def disk_read_def)
  qed
qed

lemma bread_fresh:
  assumes "binv s" and "\<And>b. \<not> cached (bufs s) n b" and "\<exists>b<NBUF. b_refcnt (bufs s b) = 0"
  shows "\<exists>b<NBUF. b_refcnt (bufs s b) = 0 \<and> bview s n = disk s n \<and> bread me ROOTDEV n s =
    Ok (b, s\<lparr>bufs := (bufs s)(b := get_buf me n (bview s n) (bufs s b))\<rparr>)"
proof -
  obtain L where L: "lru (bufs s) L" using binvD(1) [OF assms(1)] by blast
  have none: "find (\<lambda>b. b_dev (bufs s b) = ROOTDEV \<and> b_blockno (bufs s b) = n) L = None"
    using assms(2) lru_facts(3) [OF L] by (auto simp: find_None_iff cached_def)
  have "find (\<lambda>b. b_refcnt (bufs s b) = 0) (rev L) \<noteq> None"
    using assms(3) lru_facts(3) [OF L] by (auto simp: find_None_iff)
  then obtain b where b: "find (\<lambda>b. b_refcnt (bufs s b) = 0) (rev L) = Some b" by blast
  then have bb: "b_refcnt (bufs s b) = 0" "b < NBUF"
    using lru_facts(3) [OF L, of b] find_SomeD [OF b] by simp_all
  have "bget me ROOTDEV n s = Ok (b, s\<lparr>bufs := (bufs s)(b := (bufs s b)
      \<lparr>b_dev := ROOTDEV, b_blockno := n, b_valid := False, b_refcnt := 1,
       b_lock := (b_lock (bufs s b))\<lparr>sl_locked := True, sl_pid := me\<rparr>\<rparr>)\<rparr>)"
    using lru_find_cached [OF L] none b bb binvD(3) [OF assms(1) bb(2,1)]
    by (simp add: bget_def block_lock_def acquiresleep_def upd_buf_def)
  moreover have "bview s n = disk s n" using assms(2) by (intro bview_disk) auto
  moreover have eq: "get_buf me n (disk s n) (bufs s b) = (bufs s b)\<lparr>b_dev := ROOTDEV, b_blockno := n,
       b_refcnt := 1, b_lock := (b_lock (bufs s b))\<lparr>sl_locked := True, sl_pid := me\<rparr>,
       b_data := disk s n, b_valid := True\<rparr>"
    using bb by (intro get_buf_eqI [symmetric]) auto
  ultimately show ?thesis
    using bb by (intro exI [of _ b]) (simp only: bread_def obind.simps prod.case upd_buf_def disk_read_def,
      simp add: get_buf_def)
qed

text \<open>
  Every operation on the cache changes the payload of one buffer, the one of the block it is
  about. This lemma carries the invariant and the view across such a change.
\<close>

definition touches :: "'a bstate_scheme \<Rightarrow> u32 \<Rightarrow> nat \<Rightarrow> 'a bstate_scheme \<Rightarrow> bool" where
  "touches s n b s' \<longleftrightarrow> b < NBUF \<and> (\<exists>L. lru (bufs s') L) \<and>
     (\<forall>i. i \<noteq> b \<longrightarrow> payload (bufs s' i) = payload (bufs s i)) \<and>
     (cached (bufs s) n b \<or> (\<forall>c. \<not> cached (bufs s) n c) \<and> b_refcnt (bufs s b) = 0) \<and>
     b_dev (bufs s' b) = ROOTDEV \<and> b_blockno (bufs s' b) = n \<and> b_valid (bufs s' b) \<and>
     (\<forall>m. m \<noteq> n \<longrightarrow> disk s' m = disk s m)"

definition touched :: "int \<Rightarrow> 'a bstate_scheme \<Rightarrow> u32 set \<Rightarrow> u32 set \<Rightarrow> u32 \<Rightarrow> nat \<Rightarrow>
    'a bstate_scheme \<Rightarrow> bool" where
  "touched me s P H n b s' \<longleftrightarrow> hold me s P H \<and> touches s n b s'"

lemma touchedD:
  assumes "touched me s P H n b s'"
  shows "hold me s P H" "touches s n b s'"
  using assms by (simp_all add: touched_def)

lemma touch_other:
  assumes "touched me s P H n b s'" and "i \<noteq> b"
  shows "payload (bufs s' i) = payload (bufs s i)"
  using touchedD(2) [OF assms(1)] assms(2) by (simp add: touches_def)

lemma touch_cached:
  assumes "touched me s P H n b s'"
  shows "cached (bufs s') m c \<longleftrightarrow> (if c = b then m = n else cached (bufs s) m c)"
  using touchedD(2) [OF assms] cached_payload [of "bufs s'" c "bufs s" m] touch_other [OF assms, of c]
  by (cases "c = b") (auto simp: touches_def cached_def)

lemma touch_unique:
  assumes "touched me s P H n b s'" and "c \<noteq> b"
  shows "\<not> cached (bufs s) n c"
  using touchedD [OF assms(1)] assms(2) binvD(2) [OF holdD(1), of me s P H n] unfolding touches_def by blast

lemma touch_evicted:
  assumes "touched me s P H n b s'" and "cached (bufs s) m b" and "m \<noteq> n"
  shows "b_refcnt (bufs s b) = 0 \<and> m \<notin> P \<union> H"
  using touchedD(2) [OF assms(1)] assms(2,3) holdD(4) [OF touchedD(1) [OF assms(1)], of m b]
  by (auto simp: touches_def cached_def split: if_splits)

lemma touch_binv:
  assumes T: "touched me s P H n b s'"
    and y: "b_refcnt (bufs s' b) = 0 \<Longrightarrow> \<not> sl_locked (b_lock (bufs s' b)) \<and>
    b_data (bufs s' b) = disk s' n"
  shows "binv s'"
  unfolding binv_def
proof (intro conjI allI impI)
  note inv = holdD(1) [OF touchedD(1) [OF T]]
  show "\<exists>L. lru (bufs s') L" using touchedD(2) [OF T] by (simp add: touches_def)
  show "x = y" if "cached (bufs s') m x" "cached (bufs s') m y" for m x y
    using that touch_unique [OF T] binvD(2) [OF inv] by (auto simp: touch_cached [OF T] split: if_splits)
  show "\<not> sl_locked (b_lock (bufs s' i))" if "i < NBUF" "b_refcnt (bufs s' i) = 0" for i
    using that y binvD(3) [OF inv, of i] payload_eqD [OF touch_other [OF T], of i] by (cases "i = b") auto
  show "b_data (bufs s' i) = disk s' (b_blockno (bufs s' i))"
    if i: "i < NBUF" "b_refcnt (bufs s' i) = 0" "b_dev (bufs s' i) = ROOTDEV" "b_valid (bufs s' i)" for i
  proof (cases "i = b")
    case True
    then show ?thesis using y i touchedD(2) [OF T] by (simp add: touches_def)
  next
    case False
    have p: "payload (bufs s' i) = payload (bufs s i)" using touch_other [OF T False] .
    have "b_blockno (bufs s i) \<noteq> n"
      using touch_unique [OF T False] i payload_eqD [OF p] by (auto simp: cached_def)
    then show ?thesis
      using binvD(4) [OF inv, of i] i payload_eqD [OF p] touchedD(2) [OF T] by (simp add: touches_def)
  qed
qed

lemma touch_view:
  assumes T: "touched me s P H n b s'" and inv': "binv s'"
  shows "bview s' = (bview s)(n := b_data (bufs s' b))"
proof
  fix m
  note inv = holdD(1) [OF touchedD(1) [OF T]]
  have bn: "cached (bufs s') n b" "b_valid (bufs s' b)" using touchedD(2) [OF T] by (auto simp: touches_def cached_def)
  show "bview s' m = ((bview s)(n := b_data (bufs s' b))) m"
  proof (cases "m = n")
    case True
    then show ?thesis using bview_cached [OF inv' bn] by simp
  next
    case m: False
    then have dm: "disk s' m = disk s m" using touchedD(2) [OF T] by (simp add: touches_def)
    show ?thesis
    proof (cases "\<exists>c. c \<noteq> b \<and> cached (bufs s) m c \<and> b_valid (bufs s c)")
      case True
      then obtain c where c: "c \<noteq> b" "cached (bufs s) m c" "b_valid (bufs s c)" by blast
      then have "cached (bufs s') m c" "b_valid (bufs s' c)" "b_data (bufs s' c) = b_data (bufs s c)"
        using payload_eqD [OF touch_other [OF T], of c] by (auto simp: touch_cached [OF T])
      then show ?thesis using m bview_cached [OF inv'] bview_cached [OF inv c(2,3)] by simp
    next
      case False
      then have none: "\<not> b_valid (bufs s' c)" if "cached (bufs s') m c" for c
        using that m payload_eqD [OF touch_other [OF T], of c] by (auto simp: touch_cached [OF T] split: if_splits)
      have "bview s m = disk s m"
      proof (cases "cached (bufs s) m b \<and> b_valid (bufs s b)")
        case True
        then show ?thesis
          using touch_evicted [OF T] m binvD(4) [OF inv, of b] bview_cached [OF inv, of m b]
          by (auto simp: cached_def)
      qed (use False in \<open>auto intro: bview_disk\<close>)
      moreover have "bview s' m = disk s' m" using none by (rule bview_disk)
      ultimately show ?thesis using m dm by simp
    qed
  qed
qed

lemma touch_hold:
  assumes T: "touched me s P H n b s'" and diff: "P' - {n} = P - {n}" "H' - {n} = H - {n}"
    and y: "b_refcnt (bufs s' b) = (if n \<in> P' then 1 else 0) + (if n \<in> H' then 1 else 0)"
      "sl_locked (b_lock (bufs s' b)) = (n \<in> H')" "n \<in> H' \<Longrightarrow> sl_pid (b_lock (bufs s' b)) = me"
      "n \<notin> P' \<Longrightarrow> n \<notin> H' \<Longrightarrow> b_data (bufs s' b) = disk s' n"
  shows "hold me s' P' H' \<and> bview s' = (bview s)(n := b_data (bufs s' b))"
proof -
  have inv': "binv s'" using y by (intro touch_binv [OF T]) (auto split: if_splits)
  have mem: "m \<in> P' \<longleftrightarrow> m \<in> P" "m \<in> H' \<longleftrightarrow> m \<in> H" if "m \<noteq> n" for m using diff that by auto
  have "finite (insert n (P \<union> H))" using holdD(2) [OF touchedD(1) [OF T]] by simp
  moreover have "P' \<union> H' \<subseteq> insert n (P \<union> H)" using diff by auto
  ultimately have "finite (P' \<union> H')" by (rule finite_subset [rotated])
  moreover have "\<exists>c. cached (bufs s') m c \<and> b_valid (bufs s' c)" if "m \<in> P' \<union> H'" for m
  proof (cases "m = n")
    case True
    then show ?thesis using touchedD(2) [OF T] by (auto simp: touches_def cached_def intro: exI [of _ b])
  next
    case False
    then have "m \<in> P \<union> H" using that mem by simp
    then obtain c where c: "cached (bufs s) m c" "b_valid (bufs s c)"
      using holdD(3) [OF touchedD(1) [OF T], of m] by blast
    moreover have "c \<noteq> b" using touch_evicted [OF T, of m] c False that mem by auto
    ultimately show ?thesis
      using payload_eqD [OF touch_other [OF T], of c] by (auto simp: touch_cached [OF T] intro: exI [of _ c])
  qed
  moreover have "b_refcnt (bufs s' c) = (if m \<in> P' then 1 else 0) + (if m \<in> H' then 1 else 0) \<and>
      sl_locked (b_lock (bufs s' c)) = (m \<in> H') \<and> (m \<in> H' \<longrightarrow> sl_pid (b_lock (bufs s' c)) = me)"
    if "cached (bufs s') m c" for m c
  proof (cases "c = b")
    case True
    then show ?thesis using that y by (simp add: touch_cached [OF T])
  next
    case False
    then have "cached (bufs s) m c" using that by (simp add: touch_cached [OF T])
    moreover have "m \<noteq> n" using touch_unique [OF T False] calculation by auto
    ultimately show ?thesis
      using holdD(4-6) [OF touchedD(1) [OF T], of m c] mem payload_eqD [OF touch_other [OF T False]] by simp
  qed
  moreover have "b_refcnt (bufs s' c) = 0 \<and> \<not> sl_locked (b_lock (bufs s' c))"
    if "c < NBUF" "b_dev (bufs s' c) \<noteq> ROOTDEV" for c
    using that touchedD(2) [OF T] holdD(7) [OF touchedD(1) [OF T], of c] payload_eqD [OF touch_other [OF T], of c]
    by (cases "c = b") (auto simp: touches_def)
  ultimately have "hold me s' P' H'" using inv' unfolding hold_def by blast
  then show ?thesis using touch_view [OF T inv'] by simp
qed

section \<open>The operations\<close>

lemma bread_hold:
  assumes H: "hold me s P H" and n: "n \<notin> H" and room: "n \<in> P \<or> card (P \<union> H) < NBUF"
  shows "\<exists>b s'. bread me ROOTDEV n s = Ok (b, s') \<and> hold me s' P (insert n H) \<and> cached (bufs s') n b \<and>
    b_data (bufs s' b) = bview s n \<and> bview s' = bview s \<and> (\<exists>bs. s' = s\<lparr>bufs := bs\<rparr>) \<and>
    (\<forall>m c. m \<in> H \<longrightarrow> cached (bufs s) m c \<longrightarrow> cached (bufs s') m c)"
proof -
  note inv = holdD(1) [OF H]
  have "\<exists>b<NBUF. bread me ROOTDEV n s =
      Ok (b, s\<lparr>bufs := (bufs s)(b := get_buf me n (bview s n) (bufs s b))\<rparr>) \<and>
      (cached (bufs s) n b \<or> (\<forall>c. \<not> cached (bufs s) n c) \<and> b_refcnt (bufs s b) = 0)"
  proof (cases "\<exists>b. cached (bufs s) n b")
    case True
    then obtain b where b: "cached (bufs s) n b" by blast
    then have "\<not> sl_locked (b_lock (bufs s b))" using holdD(5) [OF H b] n by simp
    then show ?thesis using bread_cached [OF inv b] b by (auto simp: cached_def)
  next
    case False
    then have "n \<notin> P" using holdD(3) [OF H] by auto
    then show ?thesis
      using room False bread_fresh [OF inv _ hold_free_buffer [OF H], of n me] by auto
  qed
  then obtain b where b: "b < NBUF" "bread me ROOTDEV n s =
      Ok (b, s\<lparr>bufs := (bufs s)(b := get_buf me n (bview s n) (bufs s b))\<rparr>)"
      "cached (bufs s) n b \<or> (\<forall>c. \<not> cached (bufs s) n c) \<and> b_refcnt (bufs s b) = 0" by blast
  let ?bs = "(bufs s)(b := get_buf me n (bview s n) (bufs s b))"
  let ?s = "s\<lparr>bufs := ?bs\<rparr>"
  obtain L where "lru (bufs s) L" using binvD(1) [OF inv] by blast
  then have "lru ?bs L" using lru_cong [of "bufs s" ?bs L] by simp
  then have T: "touched me s P H n b ?s"
    using H b by (auto simp: touched_def touches_def)
  have r: "b_refcnt (bufs s b) = (if n \<in> P then 1 else 0)"
    using b(3) holdD(4) [OF H, of n b] holdD(3) [OF H, of n] n by (auto split: if_splits)
  have "hold me ?s P (insert n H) \<and> bview ?s = (bview s)(n := bview s n)"
    using touch_hold [OF T, of P "insert n H"] n r by simp
  moreover have "cached ?bs m c" if "m \<in> H" "cached (bufs s) m c" for m c
    using that n touch_cached [OF T, of m c] touch_evicted [OF T, of m] by auto
  moreover have "cached ?bs n b" using touch_cached [OF T, of n b] by simp
  ultimately show ?thesis using b(2) by (intro exI [of _ b] exI [of _ ?s]) auto
qed

text \<open>The remaining operations are on a buffer the process holds.\<close>

lemma hold_touched:
  assumes H: "hold me s P H" and b: "n \<in> H" "cached (bufs s) n b"
    and s': "\<And>i. i \<noteq> b \<Longrightarrow> payload (bufs s' i) = payload (bufs s i)" "\<exists>L. lru (bufs s') L"
      "b_dev (bufs s' b) = ROOTDEV" "b_blockno (bufs s' b) = n" "b_valid (bufs s' b)"
      "\<And>m. m \<noteq> n \<Longrightarrow> disk s' m = disk s m"
  shows "touched me s P H n b s'"
  using assms by (auto simp: touched_def touches_def cached_def)

definition set_data :: "nat \<Rightarrow> block \<Rightarrow> 'a bstate_scheme \<Rightarrow> 'a bstate_scheme" where
  "set_data b d s = upd_buf b (\<lambda>x. x\<lparr>b_data := d\<rparr>) s"

lemma lru_upd:
  assumes "binv s" and "\<And>x. b_next (f x) = b_next x" and "\<And>x. b_prev (f x) = b_prev x"
  shows "\<exists>L. lru (bufs (upd_buf b f s)) L"
  using binvD(1) [OF assms(1)] lru_cong [of "bufs s" "bufs (upd_buf b f s)"] assms(2,3)
  by (auto simp: upd_buf_def)

lemma hold_held:
  assumes "hold me s P H" and "n \<in> H" and "cached (bufs s) n b"
  shows "b_refcnt (bufs s b) = (if n \<in> P then 2 else 1)" "sl_locked (b_lock (bufs s b))"
    "sl_pid (b_lock (bufs s b)) = me" "b_valid (bufs s b)" "b_data (bufs s b) = bview s n"
    "b_dev (bufs s b) = ROOTDEV" "b_blockno (bufs s b) = n" "b < NBUF"
  using holdD(4-6) [OF assms(1,3)] assms hold_cached_valid [OF assms(1) _ assms(3)]
    bview_cached [OF holdD(1) [OF assms(1)] assms(3)]
  by (auto simp: cached_def)

lemma upd_buf_hold:
  assumes H: "hold me s P H" and b: "n \<in> H" "cached (bufs s) n b"
    and f: "\<And>x. b_next (f x) = b_next x" "\<And>x. b_prev (f x) = b_prev x" "\<And>x. b_dev (f x) = b_dev x"
      "\<And>x. b_blockno (f x) = b_blockno x" "\<And>x. b_valid (f x) = b_valid x" "\<And>x. b_lock (f x) = b_lock x"
    and P': "P' - {n} = P - {n}" "b_refcnt (f (bufs s b)) = (if n \<in> P' then 2 else 1)"
  shows "hold me (upd_buf b f s) P' H \<and> bview (upd_buf b f s) = (bview s)(n := b_data (f (bufs s b))) \<and>
    (\<forall>m c. cached (bufs s) m c \<longrightarrow> cached (bufs (upd_buf b f s)) m c)"
proof -
  note h = hold_held [OF H b]
  have T: "touched me s P H n b (upd_buf b f s)"
    using lru_upd [OF holdD(1) [OF H] f(1,2), of b] f h
    by (intro hold_touched [OF H b]) (auto simp: upd_buf_def)
  then show ?thesis
    using touch_hold [OF T P'(1), of H] b(1) P'(2) f h touch_cached [OF T]
    by (auto simp: upd_buf_def cached_def)
qed

lemma brelse_hold:
  assumes H: "hold me s P H" and b: "n \<in> H" "cached (bufs s) n b" and clean: "n \<in> P \<or> bview s n = disk s n"
  shows "\<exists>s'. brelse me b s = Ok s' \<and> hold me s' P (H - {n}) \<and> bview s' = bview s \<and>
    (\<exists>bs. s' = s\<lparr>bufs := bs\<rparr>) \<and> (\<forall>m c. cached (bufs s) m c \<longrightarrow> cached (bufs s') m c)"
proof -
  note h = hold_held [OF H b]
  let ?bs = "(bufs s)(b := put_buf (bufs s b))"
  let ?s = "s\<lparr>bufs := if b_refcnt (bufs s b) = 1 then to_front b ?bs else ?bs\<rparr>"
  have eq: "brelse me b s = Ok ?s"
    using h by (simp add: brelse_eq holdingsleep_def)
  have pay: "payload (bufs ?s i) = payload (?bs i)" for i by simp
  obtain L where L: "lru (bufs s) L" using binvD(1) [OF holdD(1) [OF H]] by blast
  have L1: "lru ?bs L" using L lru_cong [of "bufs s" ?bs L] by (simp add: put_buf_def)
  moreover have "\<exists>L. lru (to_front b ?bs) L"
  proof -
    obtain xs ys where "L = xs @ b # ys" using lru_facts(3) [OF L] h(8) by (metis in_set_conv_decomp)
    then show ?thesis using lru_to_front L1 by blast
  qed
  ultimately have lru: "\<exists>L. lru (bufs ?s) L" by auto
  note pb = payload_eqD [OF pay, of b]
  have T: "touched me s P H n b ?s"
    by (rule hold_touched [OF H b]) (use pay lru pb h in \<open>auto simp: put_buf_def\<close>)
  have "hold me ?s P (H - {n}) \<and> bview ?s = (bview s)(n := b_data (bufs ?s b))"
    using pb h clean by (intro touch_hold [OF T]) (auto simp: put_buf_def releasesleep_def)
  moreover have "(bview s)(n := b_data (bufs ?s b)) = bview s"
    using pb(6) h(5) by (simp add: put_buf_def)
  moreover have "cached (bufs ?s) m c" if "cached (bufs s) m c" for m c
    using touch_cached [OF T, of m c] that h by (auto simp: cached_def)
  ultimately show ?thesis using eq by (intro exI [of _ ?s]) auto
qed

lemma bwrite_hold:
  assumes H: "hold me s P H" and b: "n \<in> H" "cached (bufs s) n b"
  shows "\<exists>s'. bwrite me b s = Ok s' \<and> hold me s' P H \<and> bview s' = bview s \<and>
    s' = s\<lparr>disk := (disk s)(n := bview s n), dwrites := dwrites s @ [(n, bview s n)]\<rparr>"
proof -
  note h = hold_held [OF H b]
  let ?s = "s\<lparr>disk := (disk s)(n := bview s n), dwrites := dwrites s @ [(n, bview s n)]\<rparr>"
  have eq: "bwrite me b s = Ok ?s"
    using h by (simp add: bwrite_def disk_write_def holdingsleep_def)
  have T: "touched me s P H n b ?s"
    using binvD(1) [OF holdD(1) [OF H]] h by (intro hold_touched [OF H b]) auto
  have "hold me ?s P H \<and> bview ?s = (bview s)(n := b_data (bufs ?s b))"
    using h b by (intro touch_hold [OF T]) auto
  then show ?thesis using eq h by simp
qed

lemma bpin_hold:
  assumes "hold me s P H" and "n \<in> H" "cached (bufs s) n b" and "n \<notin> P"
  shows "hold me (bpin b s) (insert n P) H \<and> bview (bpin b s) = bview s \<and>
    (\<forall>m c. cached (bufs s) m c \<longrightarrow> cached (bufs (bpin b s)) m c)"
proof -
  have h: "b_refcnt (bufs s b) + 1 = 2" "b_data (bufs s b) = bview s n"
    using hold_held [OF assms(1-3)] assms(4) by simp_all
  have "hold me (bpin b s) (insert n P) H \<and> bview (bpin b s) = (bview s)(n := b_data (bufs s b)) \<and>
    (\<forall>m c. cached (bufs s) m c \<longrightarrow> cached (bufs (bpin b s)) m c)"
    using upd_buf_hold [OF assms(1-3), of "\<lambda>x. x\<lparr>b_refcnt := b_refcnt x + 1\<rparr>" "insert n P"] h
    unfolding bpin_def by simp
  then show ?thesis unfolding h by simp
qed

lemma bunpin_hold:
  assumes "hold me s P H" and "n \<in> H" "cached (bufs s) n b" and "n \<in> P"
  shows "hold me (bunpin b s) (P - {n}) H \<and> bview (bunpin b s) = bview s \<and>
    (\<forall>m c. cached (bufs s) m c \<longrightarrow> cached (bufs (bunpin b s)) m c)"
proof -
  have h: "b_refcnt (bufs s b) - 1 = 1" "b_data (bufs s b) = bview s n"
    using hold_held [OF assms(1-3)] assms(4) by simp_all
  have "hold me (bunpin b s) (P - {n}) H \<and> bview (bunpin b s) = (bview s)(n := b_data (bufs s b)) \<and>
    (\<forall>m c. cached (bufs s) m c \<longrightarrow> cached (bufs (bunpin b s)) m c)"
    using upd_buf_hold [OF assms(1-3), of "\<lambda>x. x\<lparr>b_refcnt := b_refcnt x - 1\<rparr>" "P - {n}"] h
    unfolding bunpin_def by simp
  then show ?thesis unfolding h by simp
qed

lemma set_data_hold:
  assumes "hold me s P H" and "n \<in> H" "cached (bufs s) n b"
  shows "hold me (set_data b d s) P H \<and> bview (set_data b d s) = (bview s)(n := d) \<and>
    (\<forall>m c. cached (bufs s) m c \<longrightarrow> cached (bufs (set_data b d s)) m c)"
  using upd_buf_hold [OF assms, of "\<lambda>x. x\<lparr>b_data := d\<rparr>" P] hold_held [OF assms]
  unfolding set_data_def by simp

section \<open>The contract of a block cache\<close>

text \<open>What a user of the cache can observe of a state.\<close>

record 'r bobs =
  vw :: "u32 \<Rightarrow> block"
  dk :: "u32 \<Rightarrow> block"
  wl :: "(u32 \<times> block) list"
  rst :: 'r

text \<open>
  \<open>hd s P H\<close> relates a state to the pinned and the held blocks, \<open>buf_of s n b\<close> says that \<open>b\<close> is the
  buffer of block \<open>n\<close>, \<open>obs\<close> is what the state shows.
\<close>

locale block_cache =
  fixes hd :: "'s \<Rightarrow> u32 set \<Rightarrow> u32 set \<Rightarrow> bool"
    and buf_of :: "'s \<Rightarrow> u32 \<Rightarrow> 'b \<Rightarrow> bool"
    and obs :: "'s \<Rightarrow> 'r bobs"
    and cap :: nat
    and rd :: "u32 \<Rightarrow> 's \<Rightarrow> ('b \<times> 's) outcome"
    and getd :: "'b \<Rightarrow> 's \<Rightarrow> block"
    and setd :: "'b \<Rightarrow> block \<Rightarrow> 's \<Rightarrow> 's"
    and wrt :: "'b \<Rightarrow> 's \<Rightarrow> 's outcome"
    and rel :: "'b \<Rightarrow> 's \<Rightarrow> 's outcome"
    and pin :: "'b \<Rightarrow> 's \<Rightarrow> 's"
    and unpin :: "'b \<Rightarrow> 's \<Rightarrow> 's"
  assumes rd_ok: "hd s P H \<Longrightarrow> n \<notin> H \<Longrightarrow> n \<in> P \<or> card (P \<union> H) < cap \<Longrightarrow>
      \<exists>b s'. rd n s = Ok (b, s') \<and> hd s' P (insert n H) \<and> buf_of s' n b \<and> obs s' = obs s \<and>
        (\<forall>m c. m \<in> H \<longrightarrow> buf_of s m c \<longrightarrow> buf_of s' m c)"
    and getd_ok: "hd s P H \<Longrightarrow> n \<in> H \<Longrightarrow> buf_of s n b \<Longrightarrow> getd b s = vw (obs s) n"
    and setd_ok: "hd s P H \<Longrightarrow> n \<in> H \<Longrightarrow> buf_of s n b \<Longrightarrow>
      hd (setd b d s) P H \<and> obs (setd b d s) = (obs s)\<lparr>vw := (vw (obs s))(n := d)\<rparr> \<and>
        (\<forall>m c. m \<in> H \<longrightarrow> buf_of s m c \<longrightarrow> buf_of (setd b d s) m c)"
    and wrt_ok: "hd s P H \<Longrightarrow> n \<in> H \<Longrightarrow> buf_of s n b \<Longrightarrow>
      \<exists>s'. wrt b s = Ok s' \<and> hd s' P H \<and>
        obs s' = (obs s)\<lparr>dk := (dk (obs s))(n := vw (obs s) n), wl := wl (obs s) @ [(n, vw (obs s) n)]\<rparr> \<and>
        (\<forall>m c. m \<in> H \<longrightarrow> buf_of s m c \<longrightarrow> buf_of s' m c)"
    and rel_ok: "hd s P H \<Longrightarrow> n \<in> H \<Longrightarrow> buf_of s n b \<Longrightarrow> n \<in> P \<or> vw (obs s) n = dk (obs s) n \<Longrightarrow>
      \<exists>s'. rel b s = Ok s' \<and> hd s' P (H - {n}) \<and> obs s' = obs s \<and>
        (\<forall>m c. m \<in> H - {n} \<longrightarrow> buf_of s m c \<longrightarrow> buf_of s' m c)"
    and pin_ok: "hd s P H \<Longrightarrow> n \<in> H \<Longrightarrow> buf_of s n b \<Longrightarrow> n \<notin> P \<Longrightarrow>
      hd (pin b s) (insert n P) H \<and> obs (pin b s) = obs s \<and>
        (\<forall>m c. m \<in> H \<longrightarrow> buf_of s m c \<longrightarrow> buf_of (pin b s) m c)"
    and unpin_ok: "hd s P H \<Longrightarrow> n \<in> H \<Longrightarrow> buf_of s n b \<Longrightarrow> n \<in> P \<Longrightarrow>
      hd (unpin b s) (P - {n}) H \<and> obs (unpin b s) = obs s \<and>
        (\<forall>m c. m \<in> H \<longrightarrow> buf_of s m c \<longrightarrow> buf_of (unpin b s) m c)"
begin

text \<open>Read a block and release it: the data is the view, and nothing changes.\<close>

lemma read_release:
  assumes "hd s P {}" and "n \<in> P \<or> card P < cap" and "vw (obs s) n = dk (obs s) n \<or> n \<in> P"
  shows "\<exists>b s1 s2. rd n s = Ok (b, s1) \<and> getd b s1 = vw (obs s) n \<and> rel b s1 = Ok s2 \<and>
    hd s2 P {} \<and> obs s1 = obs s \<and> obs s2 = obs s"
proof -
  obtain b s1 where 1: "rd n s = Ok (b, s1)" "hd s1 P {n}" "buf_of s1 n b" "obs s1 = obs s"
    using rd_ok [OF assms(1), of n] assms(2) by auto
  moreover have "getd b s1 = vw (obs s) n" using getd_ok [OF 1(2) _ 1(3)] 1(4) by simp
  moreover obtain s2 where "rel b s1 = Ok s2" "hd s2 P {}" "obs s2 = obs s1"
    using rel_ok [OF 1(2) _ 1(3)] assms(3) 1(4) by auto
  ultimately show ?thesis by auto
qed

text \<open>Hold two blocks at once, copy one to the other and write it through, release both.\<close>

lemma read_two:
  assumes "hd s P {}" and "m \<noteq> n" and "m \<in> P \<or> card P < cap" and "n \<in> P \<or> card (insert m P) < cap"
  shows "\<exists>x y s1 s2. rd m s = Ok (x, s1) \<and> rd n s1 = Ok (y, s2) \<and> hd s2 P {m, n} \<and>
    buf_of s2 m x \<and> buf_of s2 n y \<and> obs s1 = obs s \<and> obs s2 = obs s"
proof -
  obtain x s1 where 1: "rd m s = Ok (x, s1)" "hd s1 P {m}" "buf_of s1 m x" "obs s1 = obs s"
    using rd_ok [OF assms(1), of m] assms(3) by auto
  moreover obtain y s2 where "rd n s1 = Ok (y, s2)" "hd s2 P {n, m}" "buf_of s2 n y" "obs s2 = obs s1"
      "buf_of s2 m x"
    using rd_ok [OF 1(2), of n] assms(2,4) 1(3) by auto
  ultimately show ?thesis by (auto simp: insert_commute)
qed

lemma copy_held:
  assumes "hd s P H" and "m \<in> H" "n \<in> H" and "buf_of s m x" "buf_of s n y"
  shows "\<exists>s'. wrt y (setd y (getd x s) s) = Ok s' \<and> hd s' P H \<and> buf_of s' m x \<and> buf_of s' n y \<and>
    obs s' = (obs s)\<lparr>vw := (vw (obs s))(n := vw (obs s) m), dk := (dk (obs s))(n := vw (obs s) m),
      wl := wl (obs s) @ [(n, vw (obs s) m)]\<rparr>"
proof -
  let ?d = "vw (obs s) m"
  have g: "getd x s = ?d" using getd_ok assms(1,2,4) .
  have 1: "hd (setd y ?d s) P H" "obs (setd y ?d s) = (obs s)\<lparr>vw := (vw (obs s))(n := ?d)\<rparr>"
      "buf_of (setd y ?d s) n y" "buf_of (setd y ?d s) m x"
    using setd_ok [OF assms(1,3,5), of ?d] assms by auto
  show ?thesis
    using wrt_ok [OF 1(1) assms(3) 1(3)] 1(2-4) assms(2,3) unfolding g by auto
qed

lemma release_two:
  assumes "hd s P {m, n}" and "m \<noteq> n" and "buf_of s m x" "buf_of s n y"
    and "m \<in> P \<or> vw (obs s) m = dk (obs s) m" and "n \<in> P \<or> vw (obs s) n = dk (obs s) n"
  shows "\<exists>s1 s2. rel x s = Ok s1 \<and> rel y s1 = Ok s2 \<and> hd s2 P {} \<and> obs s1 = obs s \<and> obs s2 = obs s"
proof -
  have "{m, n} - {m} = {n}" using assms(2) by auto
  then obtain s1 where 1: "rel x s = Ok s1" "hd s1 P {n}" "obs s1 = obs s" "buf_of s1 n y"
    using rel_ok [OF assms(1) _ assms(3,5)] assms(2,4) by auto
  then show ?thesis using rel_ok [OF 1(2) _ 1(4)] assms(6) by auto
qed

text \<open>Change one block and write it through.\<close>

lemma rewrite_block:
  assumes "hd s P {}" and "n \<in> P \<or> card P < cap"
  shows "\<exists>b s1 s2 s3. rd n s = Ok (b, s1) \<and> obs s1 = obs s \<and> getd b s1 = vw (obs s) n \<and>
    wrt b (setd b d s1) = Ok s2 \<and> rel b s2 = Ok s3 \<and> hd s3 P {} \<and>
    obs s3 = (obs s)\<lparr>vw := (vw (obs s))(n := d), dk := (dk (obs s))(n := d),
      wl := wl (obs s) @ [(n, d)]\<rparr>"
proof -
  obtain b s1 where 1: "rd n s = Ok (b, s1)" "hd s1 P {n}" "buf_of s1 n b" "obs s1 = obs s"
    using rd_ok [OF assms(1), of n] assms(2) by auto
  have 2: "hd (setd b d s1) P {n}" "obs (setd b d s1) = (obs s)\<lparr>vw := (vw (obs s))(n := d)\<rparr>"
      "buf_of (setd b d s1) n b"
    using setd_ok [OF 1(2) _ 1(3), of d] 1(3,4) by auto
  obtain s2 where 3: "wrt b (setd b d s1) = Ok s2" "hd s2 P {n}" "buf_of s2 n b"
      "obs s2 = (obs s)\<lparr>vw := (vw (obs s))(n := d), dk := (dk (obs s))(n := d), wl := wl (obs s) @ [(n, d)]\<rparr>"
    using wrt_ok [OF 2(1) _ 2(3)] 2(2,3) by auto
  obtain s3 where "rel b s2 = Ok s3" "hd s3 P {}" "obs s3 = obs s2"
    using rel_ok [OF 3(2) _ 3(3)] 3(4) by auto
  then show ?thesis using 1 3 getd_ok [OF 1(2) _ 1(3)] by auto
qed

end

definition bobs_of :: "'a bstate_scheme \<Rightarrow> 'a bobs" where
  "bobs_of s = \<lparr>vw = bview s, dk = disk s, wl = dwrites s, rst = bstate.more s\<rparr>"

interpretation bc: block_cache "hold me" "\<lambda>s. cached (bufs s)" bobs_of NBUF "bread me ROOTDEV"
  "\<lambda>b s. b_data (bufs s b)" set_data "bwrite me" "brelse me" bpin bunpin
proof
  show "hold me s P H \<Longrightarrow> n \<notin> H \<Longrightarrow> n \<in> P \<or> card (P \<union> H) < NBUF \<Longrightarrow>
      \<exists>b s'. bread me ROOTDEV n s = Ok (b, s') \<and> hold me s' P (insert n H) \<and> cached (bufs s') n b \<and>
        bobs_of s' = bobs_of s \<and> (\<forall>m c. m \<in> H \<longrightarrow> cached (bufs s) m c \<longrightarrow> cached (bufs s') m c)"
    for s :: "'a bstate_scheme" and P H n
    using bread_hold [of me s P H n] by (auto simp: bobs_of_def)
  show "hold me s P H \<Longrightarrow> n \<in> H \<Longrightarrow> cached (bufs s) n b \<Longrightarrow> b_data (bufs s b) = vw (bobs_of s) n"
    for s :: "'a bstate_scheme" and P H n b
    using hold_held(5) by (simp add: bobs_of_def)
  show "hold me s P H \<Longrightarrow> n \<in> H \<Longrightarrow> cached (bufs s) n b \<Longrightarrow>
      hold me (set_data b d s) P H \<and> bobs_of (set_data b d s) = (bobs_of s)\<lparr>vw := (vw (bobs_of s))(n := d)\<rparr> \<and>
        (\<forall>m c. m \<in> H \<longrightarrow> cached (bufs s) m c \<longrightarrow> cached (bufs (set_data b d s)) m c)"
    for s :: "'a bstate_scheme" and P H n b d
    using set_data_hold [of me s P H n b d] by (simp add: bobs_of_def set_data_def upd_buf_def)
  show "hold me s P H \<Longrightarrow> n \<in> H \<Longrightarrow> cached (bufs s) n b \<Longrightarrow>
      \<exists>s'. bwrite me b s = Ok s' \<and> hold me s' P H \<and> bobs_of s' = (bobs_of s)
        \<lparr>dk := (dk (bobs_of s))(n := vw (bobs_of s) n), wl := wl (bobs_of s) @ [(n, vw (bobs_of s) n)]\<rparr> \<and>
        (\<forall>m c. m \<in> H \<longrightarrow> cached (bufs s) m c \<longrightarrow> cached (bufs s') m c)"
    for s :: "'a bstate_scheme" and P H n b
    using bwrite_hold [of me s P H n b] by (auto simp: bobs_of_def)
  show "hold me s P H \<Longrightarrow> n \<in> H \<Longrightarrow> cached (bufs s) n b \<Longrightarrow>
      n \<in> P \<or> vw (bobs_of s) n = dk (bobs_of s) n \<Longrightarrow>
      \<exists>s'. brelse me b s = Ok s' \<and> hold me s' P (H - {n}) \<and> bobs_of s' = bobs_of s \<and>
        (\<forall>m c. m \<in> H - {n} \<longrightarrow> cached (bufs s) m c \<longrightarrow> cached (bufs s') m c)"
    for s :: "'a bstate_scheme" and P H n b
    using brelse_hold [of me s P H n b] by (auto simp: bobs_of_def)
  show "hold me s P H \<Longrightarrow> n \<in> H \<Longrightarrow> cached (bufs s) n b \<Longrightarrow> n \<notin> P \<Longrightarrow>
      hold me (bpin b s) (insert n P) H \<and> bobs_of (bpin b s) = bobs_of s \<and>
        (\<forall>m c. m \<in> H \<longrightarrow> cached (bufs s) m c \<longrightarrow> cached (bufs (bpin b s)) m c)"
    for s :: "'a bstate_scheme" and P H n b
    using bpin_hold [of me s P H n b] by (simp add: bobs_of_def bpin_def upd_buf_def)
  show "hold me s P H \<Longrightarrow> n \<in> H \<Longrightarrow> cached (bufs s) n b \<Longrightarrow> n \<in> P \<Longrightarrow>
      hold me (bunpin b s) (P - {n}) H \<and> bobs_of (bunpin b s) = bobs_of s \<and>
        (\<forall>m c. m \<in> H \<longrightarrow> cached (bufs s) m c \<longrightarrow> cached (bufs (bunpin b s)) m c)"
    for s :: "'a bstate_scheme" and P H n b
    using bunpin_hold [of me s P H n b] by (simp add: bobs_of_def bunpin_def upd_buf_def)
qed

text \<open>After \<open>binit\<close> on a cache that was never used, the view is the disk.\<close>

lemma binit_hold:
  assumes "\<And>b. b < NBUF \<Longrightarrow> b_dev (bufs s b) \<noteq> ROOTDEV \<and> b_refcnt (bufs s b) = 0"
  shows "hold me (binit s) {} {} \<and> bview (binit s) = disk s \<and> (\<exists>bs. binit s = s\<lparr>bufs := bs\<rparr>)"
proof -
  obtain bs where bs: "binit s = s\<lparr>bufs := bs\<rparr>" "lru bs (rev [0..<NBUF])"
    "\<And>i. i < NBUF \<Longrightarrow> payload (bs i) = payload ((bufs s i)\<lparr>b_lock := initsleeplock\<rparr>)"
    using binit_spec [of s] by (auto simp: payload_def)
  have i: "b_dev (bs b) \<noteq> ROOTDEV" "b_refcnt (bs b) = 0" "\<not> sl_locked (b_lock (bs b))" if "b < NBUF" for b
    using payload_eqD [OF bs(3) [OF that]] assms [OF that] by (auto simp: initsleeplock_def)
  then have none: "\<not> cached bs n b" for n b by (auto simp: cached_def)
  have "hold me (binit s) {} {}"
    using bs(2) i none unfolding hold_def binv_def bs(1) by auto
  moreover have "bview (binit s) = disk s"
    using none bs(1) bview_disk [of "binit s"] by (intro ext) simp
  ultimately show ?thesis using bs(1) by blast
qed

text \<open>
  C8: \<open>bread\<close> by a process that does not hold the block returns the locked buffer of the block
  with the block's contents, and neither panics nor blocks as long as fewer blocks are held or
  pinned than there are buffers; the contents of every block, the disk and the other buffers the
  process holds are unchanged.
\<close>

theorem bread_returns_block:
  assumes "hold me s P H" and "n \<notin> H" and "n \<in> P \<or> card (P \<union> H) < NBUF"
  shows "\<exists>b s'. bread me ROOTDEV n s = Ok (b, s') \<and> hold me s' P (insert n H) \<and>
    cached (bufs s') n b \<and> b_data (bufs s' b) = bview s n \<and> bview s' = bview s \<and> disk s' = disk s"
  using bread_hold [OF assms] by auto

theorem bread_returns_block_witness:
  "let s = binit \<lparr>bufs = (\<lambda>_. \<lparr>b_valid = False, b_dev = 0, b_blockno = 0, b_lock = initsleeplock,
        b_refcnt = 0, b_prev = 0, b_next = 0, b_data = []\<rparr>), disk = (\<lambda>n. [ucast n]), dwrites = []\<rparr>
   in \<exists>b s'. bread 1 ROOTDEV 46 s = Ok (b, s') \<and> hold 1 s' {} (insert 46 {}) \<and>
    cached (bufs s') 46 b \<and> b_data (bufs s' b) = bview s 46 \<and> bview s' = bview s \<and> disk s' = disk s"
proof -
  let ?s = "\<lparr>bufs = (\<lambda>_. \<lparr>b_valid = False, b_dev = 0, b_blockno = 0, b_lock = initsleeplock,
        b_refcnt = 0, b_prev = 0, b_next = 0, b_data = []\<rparr>), disk = (\<lambda>n. [ucast n]), dwrites = []\<rparr>"
  have "hold 1 (binit ?s) {} {}" using binit_hold [of ?s 1] by (simp add: ROOTDEV_def)
  from bread_returns_block [OF this] show ?thesis by (simp add: Let_def NBUF_def)
qed

end
