(* ===== verification/Bytes.thy ===== *)
theory Bytes
  imports Prelude
begin

text \<open>
  Little-endian integers in byte lists: how the kernel reads and writes the fields of on-disk
  structures (the log header, indirect blocks, on-disk inodes, directory entries) through a
  pointer into a block. \<open>get32 d k\<close> is element \<open>k\<close> of the block \<open>d\<close> seen as an array of \<^verbatim>\<open>uint\<close>,
  \<open>get16 d k\<close> element \<open>k\<close> of an array of \<^verbatim>\<open>ushort\<close>.
\<close>

definition get16 :: "u8 list \<Rightarrow> nat \<Rightarrow> u16" where
  "get16 d k = ucast (d ! (2 * k)) OR push_bit 8 (ucast (d ! (2 * k + 1)))"

definition put16 :: "u8 list \<Rightarrow> nat \<Rightarrow> u16 \<Rightarrow> u8 list" where
  "put16 d k v = d[2 * k := ucast v, 2 * k + 1 := ucast (drop_bit 8 v)]"

definition get32 :: "u8 list \<Rightarrow> nat \<Rightarrow> u32" where
  "get32 d k = ucast (d ! (4 * k)) OR push_bit 8 (ucast (d ! (4 * k + 1))) OR
     push_bit 16 (ucast (d ! (4 * k + 2))) OR push_bit 24 (ucast (d ! (4 * k + 3)))"

definition put32 :: "u8 list \<Rightarrow> nat \<Rightarrow> u32 \<Rightarrow> u8 list" where
  "put32 d k v = d[4 * k := ucast v, 4 * k + 1 := ucast (drop_bit 8 v),
     4 * k + 2 := ucast (drop_bit 16 v), 4 * k + 3 := ucast (drop_bit 24 v)]"

lemma length_put [simp]: "length (put16 d k h) = length d" "length (put32 d k v) = length d"
  by (simp_all add: put16_def put32_def)

lemma get16_put16_same [simp]:
  assumes "2 * k + 1 < length d"
  shows "get16 (put16 d k v) k = v"
proof (rule bit_eqI)
  fix n assume "possible_bit TYPE(16 word) n"
  then have "n < 16" by simp
  then show "bit (get16 (put16 d k v) k) n = bit v n"
    using assms by (cases "n < 8") (auto simp: get16_def put16_def bit_simps)
qed

lemma get16_put16_other [simp]: "k \<noteq> j \<Longrightarrow> get16 (put16 d k v) j = get16 d j"
proof -
  assume "k \<noteq> j"
  then have "2 * k \<noteq> 2 * j" "2 * k \<noteq> 2 * j + 1" "2 * k + 1 \<noteq> 2 * j" "2 * k + 1 \<noteq> 2 * j + 1" by presburger+
  then show ?thesis by (simp add: get16_def put16_def)
qed

lemma get32_put32_same [simp]:
  assumes "4 * k + 3 < length d"
  shows "get32 (put32 d k v) k = v"
proof (rule bit_eqI)
  fix n assume "possible_bit TYPE(32 word) n"
  then have n: "n < 32" by simp
  have e: "put32 d k v ! (4 * k) = ucast v" "put32 d k v ! (4 * k + 1) = ucast (drop_bit 8 v)"
    "put32 d k v ! (4 * k + 2) = ucast (drop_bit 16 v)" "put32 d k v ! (4 * k + 3) = ucast (drop_bit 24 v)"
    using assms by (simp_all add: put32_def)
  consider "n < 8" | "8 \<le> n" "n < 16" | "16 \<le> n" "n < 24" | "24 \<le> n" "n < 32" using n by linarith
  then show "bit (get32 (put32 d k v) k) n = bit v n"
    unfolding get32_def e by cases (auto simp: bit_simps)
qed

lemma get32_put32_other [simp]:
  assumes "k \<noteq> j"
  shows "get32 (put32 d k v) j = get32 d j"
proof -
  have "4 * k + a \<noteq> 4 * j + b" if "a < 4" "b < 4" for a b :: nat
    using assms that by presburger
  from this [of 0 0] this [of 0 1] this [of 0 2] this [of 0 3] this [of 1 0] this [of 1 1] this [of 1 2]
    this [of 1 3] this [of 2 0] this [of 2 1] this [of 2 2] this [of 2 3] this [of 3 0] this [of 3 1]
    this [of 3 2] this [of 3 3]
  show ?thesis by (simp add: get32_def put32_def)
qed

text \<open>16-bit and 32-bit fields that do not overlap.\<close>

lemma get16_put32_other [simp]:
  assumes "j \<noteq> 2 * k" and "j \<noteq> 2 * k + 1"
  shows "get16 (put32 d k v) j = get16 d j"
proof -
  have "2 * j + b \<noteq> 4 * k + a" if "a < 4" "b < 2" for a b :: nat
    using assms that by presburger
  from this [of 0 0] this [of 1 0] this [of 2 0] this [of 3 0] this [of 0 1] this [of 1 1] this [of 2 1] this [of 3 1]
  show ?thesis by (simp add: get16_def put32_def)
qed

lemma get32_put16_other [simp]:
  assumes "j \<noteq> 2 * k" and "j \<noteq> 2 * k + 1"
  shows "get32 (put16 d j v) k = get32 d k"
proof -
  have "2 * j + b \<noteq> 4 * k + a" if "a < 4" "b < 2" for a b :: nat
    using assms that by presburger
  from this [of 0 0] this [of 1 0] this [of 2 0] this [of 3 0] this [of 0 1] this [of 1 1] this [of 2 1] this [of 3 1]
  show ?thesis by (simp add: get32_def put16_def)
qed

end
