(* ===== verification/Log.thy ===== *)
theory Log
  imports Bio_Cache Bytes
begin

text \<open>
  The write-ahead log, \<^verbatim>\<open>kernel/log.c\<close>, on top of the buffer cache: file-system calls bracket
  their updates with \<open>begin_op\<close> and \<open>end_op\<close>, record modified blocks with \<open>log_write\<close>, and the last
  \<open>end_op\<close> commits them all through the on-disk log. The state extends the cache state by
  \<^verbatim>\<open>struct log\<close>. A call that would sleep is \<open>Blocked\<close>. Block numbers are words, the counters
  C integers. The header block is the array of 32-bit integers the code casts it to.
\<close>

definition LOGSIZE :: int where "LOGSIZE = 30"
definition MAXOPBLOCKS :: int where "MAXOPBLOCKS = 10"

record lstate = bstate +
  lg_start :: u32
  lg_size :: int
  outstanding :: int
  committing :: bool
  lg_dev :: u32
  lh_n :: int
  lh_block :: "nat \<Rightarrow> u32"

section \<open>kernel/log.c\<close>

text \<open>\<^verbatim>\<open>log.start+tail+1\<close>\<close>

definition logblk :: "'a lstate_scheme \<Rightarrow> nat \<Rightarrow> u32" where
  "logblk s tail = lg_start s + of_nat tail + 1"

fun install_loop :: "int \<Rightarrow> bool \<Rightarrow> nat \<Rightarrow> nat \<Rightarrow> 'a lstate_scheme \<Rightarrow> 'a lstate_scheme outcome" where
  "install_loop me recovering tail 0 s = Ok s"
| "install_loop me recovering tail (Suc k) s =
     obind (bread me (lg_dev s) (logblk s tail) s) (\<lambda>(lbuf, s1).
     obind (bread me (lg_dev s1) (lh_block s1 tail) s1) (\<lambda>(dbuf, s2).
       let s3 = set_data dbuf (b_data (bufs s2 lbuf)) s2 in
     obind (bwrite me dbuf s3) (\<lambda>s4.
       let s5 = (if \<not> recovering then bunpin dbuf s4 else s4) in
     obind (brelse me lbuf s5) (\<lambda>s6.
     obind (brelse me dbuf s6) (\<lambda>s7.
       install_loop me recovering (Suc tail) k s7)))))"

definition install_trans :: "int \<Rightarrow> bool \<Rightarrow> 'a lstate_scheme \<Rightarrow> 'a lstate_scheme outcome" where
  "install_trans me recovering s = install_loop me recovering 0 (nat (lh_n s)) s"

fun read_head_loop :: "block \<Rightarrow> nat \<Rightarrow> nat \<Rightarrow> (nat \<Rightarrow> u32) \<Rightarrow> nat \<Rightarrow> u32" where
  "read_head_loop d i 0 blk = blk"
| "read_head_loop d i (Suc k) blk = read_head_loop d (Suc i) k (blk(i := get32 d (i + 1)))"

definition read_head :: "int \<Rightarrow> 'a lstate_scheme \<Rightarrow> 'a lstate_scheme outcome" where
  "read_head me s =
     obind (bread me (lg_dev s) (lg_start s) s) (\<lambda>(b, s1).
       let d = b_data (bufs s1 b);
           s2 = s1\<lparr>lh_n := sint (get32 d 0)\<rparr>;
           s3 = s2\<lparr>lh_block := read_head_loop d 0 (nat (lh_n s2)) (lh_block s2)\<rparr>
       in brelse me b s3)"

fun write_head_loop :: "(nat \<Rightarrow> u32) \<Rightarrow> nat \<Rightarrow> nat \<Rightarrow> block \<Rightarrow> block" where
  "write_head_loop blk i 0 d = d"
| "write_head_loop blk i (Suc k) d = write_head_loop blk (Suc i) k (put32 d (i + 1) (blk i))"

definition write_head :: "int \<Rightarrow> 'a lstate_scheme \<Rightarrow> 'a lstate_scheme outcome" where
  "write_head me s =
     obind (bread me (lg_dev s) (lg_start s) s) (\<lambda>(b, s1).
       let d = put32 (b_data (bufs s1 b)) 0 (of_int (lh_n s1));
           d' = write_head_loop (lh_block s1) 0 (nat (lh_n s1)) d;
           s2 = set_data b d' s1
       in obind (bwrite me b s2) (\<lambda>s3. brelse me b s3))"

definition recover_from_log :: "int \<Rightarrow> 'a lstate_scheme \<Rightarrow> 'a lstate_scheme outcome" where
  "recover_from_log me s =
     obind (read_head me s) (\<lambda>s1.
     obind (install_trans me True s1) (\<lambda>s2.
     write_head me (s2\<lparr>lh_n := 0\<rparr>)))"

text \<open>The size check of \<open>initlog\<close> compares the constants 124 and 1024.\<close>

definition initlog :: "int \<Rightarrow> u32 \<Rightarrow> u32 \<Rightarrow> u32 \<Rightarrow> 'a lstate_scheme \<Rightarrow> 'a lstate_scheme outcome" where
  "initlog me dev sb_logstart sb_nlog s =
     (if 4 * (LOGSIZE + 1) \<ge> int BSIZE then Panic ''initlog: too big logheader''
      else recover_from_log me (s\<lparr>lg_start := sb_logstart, lg_size := sint sb_nlog, lg_dev := dev\<rparr>))"

definition begin_op :: "'a lstate_scheme \<Rightarrow> 'a lstate_scheme outcome" where
  "begin_op s =
     (if committing s then Blocked
      else if lh_n s + (outstanding s + 1) * MAXOPBLOCKS > LOGSIZE then Blocked
      else Ok (s\<lparr>outstanding := outstanding s + 1\<rparr>))"

fun write_log_loop :: "int \<Rightarrow> nat \<Rightarrow> nat \<Rightarrow> 'a lstate_scheme \<Rightarrow> 'a lstate_scheme outcome" where
  "write_log_loop me tail 0 s = Ok s"
| "write_log_loop me tail (Suc k) s =
     obind (bread me (lg_dev s) (logblk s tail) s) (\<lambda>(to, s1).
     obind (bread me (lg_dev s1) (lh_block s1 tail) s1) (\<lambda>(from, s2).
       let s3 = set_data to (b_data (bufs s2 from)) s2 in
     obind (bwrite me to s3) (\<lambda>s4.
     obind (brelse me from s4) (\<lambda>s5.
     obind (brelse me to s5) (\<lambda>s6.
       write_log_loop me (Suc tail) k s6)))))"

definition write_log :: "int \<Rightarrow> 'a lstate_scheme \<Rightarrow> 'a lstate_scheme outcome" where
  "write_log me s = write_log_loop me 0 (nat (lh_n s)) s"

definition commit :: "int \<Rightarrow> 'a lstate_scheme \<Rightarrow> 'a lstate_scheme outcome" where
  "commit me s =
     (if lh_n s > 0 then
        obind (write_log me s) (\<lambda>s1.
        obind (write_head me s1) (\<lambda>s2.
        obind (install_trans me False s2) (\<lambda>s3.
        write_head me (s3\<lparr>lh_n := 0\<rparr>))))
      else Ok s)"

definition end_op :: "int \<Rightarrow> 'a lstate_scheme \<Rightarrow> 'a lstate_scheme outcome" where
  "end_op me s =
     (let s1 = s\<lparr>outstanding := outstanding s - 1\<rparr> in
      if committing s1 then Panic ''log.committing''
      else if outstanding s1 = 0 then
        obind (commit me (s1\<lparr>committing := True\<rparr>)) (\<lambda>s2. Ok (s2\<lparr>committing := False\<rparr>))
      else Ok s1)"

text \<open>The search of \<open>log_write\<close> for the block among the first \<open>k\<close> logged ones from \<open>i\<close> on.\<close>

fun log_find :: "(nat \<Rightarrow> u32) \<Rightarrow> u32 \<Rightarrow> nat \<Rightarrow> nat \<Rightarrow> nat" where
  "log_find blk n i 0 = i"
| "log_find blk n i (Suc k) = (if blk i = n then i else log_find blk n (Suc i) k)"

definition log_write :: "nat \<Rightarrow> 'a lstate_scheme \<Rightarrow> 'a lstate_scheme outcome" where
  "log_write b s =
     (if lh_n s \<ge> LOGSIZE \<or> lh_n s \<ge> lg_size s - 1 then Panic ''too big a transaction''
      else if outstanding s < 1 then Panic ''log_write outside of trans''
      else
        let i = log_find (lh_block s) (b_blockno (bufs s b)) 0 (nat (lh_n s));
            s1 = s\<lparr>lh_block := (lh_block s)(i := b_blockno (bufs s b))\<rparr>
        in if int i = lh_n s1 then Ok ((bpin b s1)\<lparr>lh_n := lh_n s1 + 1\<rparr>) else Ok s1)"

end
