(* ===== verification/Log_Commit.thy ===== *)
theory Log_Commit
  imports Log
begin

text \<open>
  What the log does to the disk, write by write. Each phase of \<open>commit\<close> and of recovery is shown to
  append a known list of block writes; the crash theorem then says that a machine that stops
  between any two writes of a commit and recovers at the next boot finds either none or all of the
  transaction's blocks changed.
\<close>

section \<open>Sequences of block writes\<close>

definition apply_writes :: "(u32 \<Rightarrow> block) \<Rightarrow> (u32 \<times> block) list \<Rightarrow> u32 \<Rightarrow> block" where
  "apply_writes d ws = foldl (\<lambda>d (n, b). d(n := b)) d ws"

lemma apply_writes_simps [simp]:
  "apply_writes d [] = d" "apply_writes d ((n, b) # ws) = apply_writes (d(n := b)) ws"
  "apply_writes d (xs @ ys) = apply_writes (apply_writes d xs) ys"
  by (simp_all add: apply_writes_def)

lemma apply_writes_other: "m \<notin> fst ` set ws \<Longrightarrow> apply_writes d ws m = d m"
  by (induction ws arbitrary: d) auto

lemma apply_writes_in:
  assumes "(m, b) \<in> set ws" and "distinct (map fst ws)"
  shows "apply_writes d ws m = b"
  using assms
proof (induction ws arbitrary: d)
  case (Cons w ws)
  obtain n c where w: "w = (n, c)" by (cases w)
  show ?case
  proof (cases "(m, b) = w")
    case True
    then have "m \<notin> fst ` set ws" using Cons.prems w by auto
    then show ?thesis using True w by (simp add: apply_writes_other)
  next
    case False
    then show ?thesis using Cons w by auto
  qed
qed simp

lemma map_fst_pairs: "fst ` set (map (\<lambda>i. (f i, g i)) [0..<n]) = f ` {..<n}"
  by (simp add: image_image lessThan_atLeast0)

lemma apply_pairs_other:
  assumes "\<And>i. i < n \<Longrightarrow> m \<noteq> f i"
  shows "apply_writes d (map (\<lambda>i. (f i, g i)) [0..<n]) m = d m"
  using assms apply_writes_other [of m "map (\<lambda>i. (f i, g i)) [0..<n]" d] unfolding map_fst_pairs by blast

text \<open>The state of the cache after a list of write-through writes.\<close>

definition wrote :: "'r bobs \<Rightarrow> (u32 \<times> block) list \<Rightarrow> 'r bobs" where
  "wrote o1 ws = o1\<lparr>vw := apply_writes (vw o1) ws, dk := apply_writes (dk o1) ws, wl := wl o1 @ ws\<rparr>"

lemma wrote_simps [simp]:
  "wrote o1 [] = o1" "wrote (wrote o1 xs) ys = wrote o1 (xs @ ys)"
  "vw (wrote o1 ws) = apply_writes (vw o1) ws" "dk (wrote o1 ws) = apply_writes (dk o1) ws"
  "wl (wrote o1 ws) = wl o1 @ ws" "rst (wrote o1 ws) = rst o1"
  by (simp_all add: wrote_def)

lemma wrote_one:
  "o1\<lparr>vw := (vw o1)(n := b), dk := (dk o1)(n := b), wl := wl o1 @ [(n, b)]\<rparr> = wrote o1 [(n, b)]"
  by (simp add: wrote_def)

section \<open>Log state and cache state\<close>

lemma same_rest:
  assumes "bstate.more s' = bstate.more (s :: 'a lstate_scheme)"
  shows "lg_start s' = lg_start s" "lg_dev s' = lg_dev s" "lh_n s' = lh_n s" "lh_block s' = lh_block s"
    "logblk s' = logblk s" "outstanding s' = outstanding s" "committing s' = committing s" "lg_size s' = lg_size s"
  using assms by (cases s; cases s'; simp add: logblk_def fun_eq_iff)+

lemma obs_rest: "rst (bobs_of s) = bstate.more s" "vw (bobs_of s) = bview s" "dk (bobs_of s) = disk s"
    "wl (bobs_of s) = dwrites s"
  by (simp_all add: bobs_of_def)

lemma wrote_same_rest:
  assumes "bobs_of s' = wrote (bobs_of (s :: 'a lstate_scheme)) ws"
  shows "bstate.more s' = bstate.more s"
  using arg_cong [OF assms, of rst] by (simp add: obs_rest)

lemma log_upd_hold [simp]:
  "hold me (s\<lparr>lh_n := k\<rparr>) = hold me s" "hold me (s\<lparr>lh_block := g\<rparr>) = hold me s"
  "hold me (s\<lparr>outstanding := j\<rparr>) = hold me s" "hold me (s\<lparr>committing := c\<rparr>) = hold me s"
  "hold me (s\<lparr>lg_start := st\<rparr>) = hold me s" "hold me (s\<lparr>lg_size := z\<rparr>) = hold me s"
  "hold me (s\<lparr>lg_dev := dv\<rparr>) = hold me s" "bview (s\<lparr>lg_start := st\<rparr>) = bview s"
  "bview (s\<lparr>lg_size := z\<rparr>) = bview s" "bview (s\<lparr>lg_dev := dv\<rparr>) = bview s"
  "bview (s\<lparr>lh_n := k\<rparr>) = bview s" "bview (s\<lparr>lh_block := g\<rparr>) = bview s"
  "bview (s\<lparr>outstanding := j\<rparr>) = bview s" "bview (s\<lparr>committing := c\<rparr>) = bview s"
  by (simp_all add: hold_def binv_def bview_def fun_eq_iff split: option.split)

section \<open>The phases of a commit\<close>

lemma write_log_loop_writes:
  assumes "hold me s P {}" and "lg_dev s = ROOTDEV" and "card P < NBUF"
    and "\<And>i. tail \<le> i \<Longrightarrow> i < tail + k \<Longrightarrow> lh_block s i \<in> P \<and> logblk s i \<notin> P"
  shows "\<exists>s'. write_log_loop me tail k s = Ok s' \<and> hold me s' P {} \<and>
    bobs_of s' = wrote (bobs_of s) (map (\<lambda>i. (logblk s i, bview s (lh_block s i))) [tail..<tail + k])"
  using assms
proof (induction k arbitrary: tail s)
  case 0
  then show ?case by simp
next
  case (Suc k)
  let ?l = "logblk s tail" and ?h = "lh_block s tail"
  have lh: "?h \<in> P" "?l \<notin> P" "?l \<noteq> ?h" using Suc.prems(4) [of tail] by auto
  obtain x y s1 s2 where r: "bread me ROOTDEV ?l s = Ok (x, s1)" "bread me ROOTDEV ?h s1 = Ok (y, s2)"
      "hold me s2 P {?l, ?h}" "cached (bufs s2) ?l x" "cached (bufs s2) ?h y"
      "bobs_of s1 = bobs_of s" "bobs_of s2 = bobs_of s"
    using bc.read_two [OF Suc.prems(1) lh(3)] Suc.prems(3) lh(1) by blast
  obtain s4 where w: "bwrite me x (set_data x (b_data (bufs s2 y)) s2) = Ok s4" "hold me s4 P {?l, ?h}"
      "cached (bufs s4) ?h y" "cached (bufs s4) ?l x"
      "bobs_of s4 = wrote (bobs_of s) [(?l, bview s ?h)]"
    using bc.copy_held [OF r(3) _ _ r(5) r(4)] r(7) by (auto simp: wrote_one obs_rest)
  have "hold me s4 P {?h, ?l}" using w(2) by (simp add: insert_commute)
  then obtain s5 s6 where e: "brelse me y s4 = Ok s5" "brelse me x s5 = Ok s6" "hold me s6 P {}"
      "bobs_of s6 = wrote (bobs_of s) [(?l, bview s ?h)]"
    using bc.release_two [of me s4 P ?h ?l y x] w lh by auto
  note rest = same_rest [OF wrote_same_rest [OF e(4)]]
  have rest1: "lg_dev s1 = lg_dev s" "lh_block s1 = lh_block s"
    using same_rest [of s1 s] r(6) obs_rest(1) by metis+
  have view: "bview s6 (lh_block s i) = bview s (lh_block s i)" if "Suc tail \<le> i" "i < Suc tail + k" for i
  proof -
    have "lh_block s i \<in> P" using Suc.prems(4) [of i] that by simp
    then show ?thesis using arg_cong [OF e(4), of vw] lh(2) by (auto simp: obs_rest apply_writes_other)
  qed
  have "\<exists>s'. write_log_loop me (Suc tail) k s6 = Ok s' \<and> hold me s' P {} \<and>
    bobs_of s' = wrote (bobs_of s6) (map (\<lambda>i. (logblk s6 i, bview s6 (lh_block s6 i))) [Suc tail..<Suc tail + k])"
    by (rule Suc.IH) (use e rest Suc.prems in auto)
  moreover have "map (\<lambda>i. (logblk s6 i, bview s6 (lh_block s6 i))) [Suc tail..<Suc tail + k] =
      map (\<lambda>i. (logblk s i, bview s (lh_block s i))) [Suc tail..<Suc tail + k]"
    using view rest by (intro map_cong) auto
  moreover have "[tail..<tail + Suc k] = tail # [Suc tail..<Suc tail + k]"
    by (simp add: upt_conv_Cons del: upt_Suc)
  ultimately show ?case
    using r(1,2) w(1) e rest1 Suc.prems(2) by (auto simp: Let_def simp del: upt_Suc map_eq_conv)
qed

text \<open>The header block that \<open>write_head\<close> writes over the old header \<open>d\<close>.\<close>

definition header_of :: "int \<Rightarrow> (nat \<Rightarrow> u32) \<Rightarrow> block \<Rightarrow> block" where
  "header_of n blk d = write_head_loop blk 0 (nat n) (put32 d 0 (of_int n))"

lemma write_head_writes:
  assumes "hold me s P {}" and "lg_dev s = ROOTDEV" and "card P < NBUF"
  shows "\<exists>s'. write_head me s = Ok s' \<and> hold me s' P {} \<and>
    bobs_of s' = wrote (bobs_of s) [(lg_start s, header_of (lh_n s) (lh_block s) (bview s (lg_start s)))]"
proof -
  let ?d = "header_of (lh_n s) (lh_block s) (bview s (lg_start s))"
  obtain b s1 s2 s3 where r: "bread me ROOTDEV (lg_start s) s = Ok (b, s1)" "bobs_of s1 = bobs_of s"
      "b_data (bufs s1 b) = bview s (lg_start s)" "bwrite me b (set_data b ?d s1) = Ok s2"
      "brelse me b s2 = Ok s3" "hold me s3 P {}" "bobs_of s3 = wrote (bobs_of s) [(lg_start s, ?d)]"
    using bc.rewrite_block [OF assms(1), of "lg_start s" ?d] assms(3) by (auto simp: obs_rest wrote_one)
  have "bstate.more s1 = bstate.more s" using r(2) obs_rest(1) by metis
  from same_rest [OF this] show ?thesis
    using r assms(2) by (simp add: write_head_def Let_def header_of_def)
qed

lemma read_head_reads:
  assumes "hold me s {} {}" and "lg_dev s = ROOTDEV" and "bview s (lg_start s) = disk s (lg_start s)"
  shows "\<exists>s'. read_head me s = Ok s' \<and> hold me s' {} {} \<and>
    (let d = bview s (lg_start s); n = sint (get32 d 0) in
     lh_n s' = n \<and> lh_block s' = read_head_loop d 0 (nat n) (lh_block s)) \<and>
    bview s' = bview s \<and> disk s' = disk s \<and> dwrites s' = dwrites s \<and>
    lg_start s' = lg_start s \<and> lg_dev s' = lg_dev s"
proof -
  let ?n = "lg_start s"
  obtain b s1 where 1: "bread me ROOTDEV ?n s = Ok (b, s1)" "hold me s1 {} {?n}" "cached (bufs s1) ?n b"
      "bobs_of s1 = bobs_of s"
    using bc.rd_ok [OF assms(1), of ?n] by (auto simp: NBUF_def)
  have more: "bstate.more s1 = bstate.more s" "bview s1 = bview s" "disk s1 = disk s" "dwrites s1 = dwrites s"
    using 1(4) obs_rest by metis+
  let ?d = "bview s ?n"
  have d: "b_data (bufs s1 b) = ?d" using bc.getd_ok [OF 1(2) _ 1(3)] 1(4) by (simp add: obs_rest)
  let ?s3 = "s1\<lparr>lh_n := sint (get32 ?d 0),
    lh_block := read_head_loop ?d 0 (nat (sint (get32 ?d 0))) (lh_block s1)\<rparr>"
  obtain s4 where 4: "brelse me b ?s3 = Ok s4" "hold me s4 {} {}" "bobs_of s4 = bobs_of ?s3"
    using bc.rel_ok [of me ?s3 "{}" "{?n}" ?n b] 1 more assms(3) by (auto simp: obs_rest)
  have "bstate.more s4 = bstate.more ?s3" "bview s4 = bview ?s3" "disk s4 = disk ?s3" "dwrites s4 = dwrites ?s3"
    using 4(3) obs_rest by metis+
  with same_rest [OF more(1)] same_rest [OF this(1)] show ?thesis
    using 1(1) 4 d more assms(2) by (simp add: read_head_def Let_def)
qed

text \<open>
  \<open>install_loop\<close> copies log blocks home. While committing, the home blocks are pinned and lose
  their pin; during recovery nothing is pinned.
\<close>

lemma install_loop_writes:
  assumes "hold me s P {}" and "lg_dev s = ROOTDEV" and "card P < NBUF"
    and P: "if recovering then P = {} else P = lh_block s ` {tail..<tail + k}"
    and "inj_on (lh_block s) {tail..<tail + k}"
    and "\<And>i j. i \<in> {tail..<tail + k} \<Longrightarrow> j \<in> {tail..<tail + k} \<Longrightarrow> logblk s i \<noteq> lh_block s j"
    and "\<And>i. i \<in> {tail..<tail + k} \<Longrightarrow> bview s (logblk s i) = disk s (logblk s i)"
  shows "\<exists>s'. install_loop me recovering tail k s = Ok s' \<and> hold me s' {} {} \<and>
    bobs_of s' = wrote (bobs_of s) (map (\<lambda>i. (lh_block s i, bview s (logblk s i))) [tail..<tail + k])"
  using assms
proof (induction k arbitrary: tail s P)
  case 0
  then show ?case by (cases recovering) auto
next
  case (Suc k)
  let ?l = "logblk s tail" and ?h = "lh_block s tail"
  note prems = Suc.prems
  have t: "tail \<in> {tail..<tail + Suc k}" by simp
  have ne: "?l \<noteq> ?h" using prems(6) [OF t t] .
  have room: "card (insert ?l P) < NBUF \<or> ?h \<in> P" using prems(4) by (cases recovering) (auto simp: NBUF_def)
  obtain x y s1 s2 where r: "bread me ROOTDEV ?l s = Ok (x, s1)" "bread me ROOTDEV ?h s1 = Ok (y, s2)"
      "hold me s2 P {?l, ?h}" "cached (bufs s2) ?l x" "cached (bufs s2) ?h y"
      "bobs_of s1 = bobs_of s" "bobs_of s2 = bobs_of s"
    using bc.read_two [OF prems(1) ne] prems(3) room by blast
  let ?o = "wrote (bobs_of s) [(?h, bview s ?l)]"
  obtain s4 where w: "bwrite me y (set_data y (b_data (bufs s2 x)) s2) = Ok s4" "hold me s4 P {?l, ?h}"
      "cached (bufs s4) ?l x" "cached (bufs s4) ?h y" "bobs_of s4 = ?o"
    using bc.copy_held [OF r(3) _ _ r(4) r(5)] r(7) by (auto simp: wrote_one obs_rest)
  define s5 where "s5 = (if \<not> recovering then bunpin y s4 else s4)"
  define P' where "P' = (if recovering then {} else P - {?h})"
  have 5: "hold me s5 P' {?l, ?h}" "cached (bufs s5) ?l x" "cached (bufs s5) ?h y" "bobs_of s5 = ?o"
    using w bc.unpin_ok [OF w(2) _ w(4)] prems(4) by (auto simp: s5_def P'_def split: if_splits)
  have clean: "vw (bobs_of s5) ?l = dk (bobs_of s5) ?l" "vw (bobs_of s5) ?h = dk (bobs_of s5) ?h"
    using 5(4) ne prems(7) [OF t] by (auto simp: obs_rest)
  obtain s6 s7 where e: "brelse me x s5 = Ok s6" "brelse me y s6 = Ok s7" "hold me s7 P' {}" "bobs_of s7 = ?o"
    using bc.release_two [OF 5(1) ne 5(2,3)] clean 5(4) by auto
  note rest = same_rest [OF wrote_same_rest [OF e(4)]]
  have rest1: "lg_dev s1 = lg_dev s" "lh_block s1 = lh_block s"
    using same_rest [of s1 s] r(6) obs_rest(1) by metis+
  have keep: "bview s7 (logblk s i) = bview s (logblk s i) \<and> disk s7 (logblk s i) = disk s (logblk s i)"
    if "i \<in> {Suc tail..<Suc tail + k}" for i
    using arg_cong [OF e(4), of vw] arg_cong [OF e(4), of dk] prems(6) [of i tail] that t
    by (auto simp: obs_rest)
  have notin: "?h \<notin> lh_block s ` {Suc tail..<Suc tail + k}"
  proof
    assume "?h \<in> lh_block s ` {Suc tail..<Suc tail + k}"
    then obtain i where "i \<in> {Suc tail..<Suc tail + k}" "lh_block s tail = lh_block s i" by blast
    then show False using inj_onD [OF prems(5), of tail i] by auto
  qed
  have range: "{tail..<tail + Suc k} = insert tail {Suc tail..<Suc tail + k}" by auto
  have "\<exists>s'. install_loop me recovering (Suc tail) k s7 = Ok s' \<and> hold me s' {} {} \<and>
    bobs_of s' = wrote (bobs_of s7) (map (\<lambda>i. (lh_block s7 i, bview s7 (logblk s7 i))) [Suc tail..<Suc tail + k])"
  proof (rule Suc.IH [OF e(3)])
    show "card P' < NBUF" using prems(3) card_Diff1_le [of P ?h] by (auto simp: P'_def NBUF_def)
    show "if recovering then P' = {} else P' = lh_block s7 ` {Suc tail..<Suc tail + k}"
      using prems(4) notin range rest by (auto simp: P'_def)
    show "inj_on (lh_block s7) {Suc tail..<Suc tail + k}"
      using prems(5) rest by (auto simp: inj_on_def)
  qed (use rest prems keep in auto)
  moreover have "map (\<lambda>i. (lh_block s7 i, bview s7 (logblk s7 i))) [Suc tail..<Suc tail + k] =
      map (\<lambda>i. (lh_block s i, bview s (logblk s i))) [Suc tail..<Suc tail + k]"
    using keep rest by (intro map_cong) auto
  moreover have "[tail..<tail + Suc k] = tail # [Suc tail..<Suc tail + k]"
    by (simp add: upt_conv_Cons del: upt_Suc)
  ultimately show ?case
    using r(1,2) w(1) e rest1 prems(2) by (auto simp: Let_def s5_def simp del: upt_Suc map_eq_conv)
qed

section \<open>The header block\<close>

lemma get32_write_head_loop:
  assumes "4 * (i + k) + 3 < length d"
  shows "get32 (write_head_loop blk i k d) j = (if i < j \<and> j \<le> i + k then blk (j - 1) else get32 d j)"
  using assms
proof (induction k arbitrary: i d)
  case (Suc k)
  then show ?case by (cases "j = Suc i") auto
qed auto

lemma length_write_head_loop [simp]: "length (write_head_loop blk i k d) = length d"
  by (induction k arbitrary: i d) auto

lemma length_header_of [simp]: "length (header_of n blk d) = length d"
  by (simp add: header_of_def)

lemma header_of_fields:
  assumes "length d = BSIZE" and "0 \<le> n" and "n \<le> LOGSIZE"
  shows "sint (get32 (header_of n blk d) 0) = n" "i < nat n \<Longrightarrow> get32 (header_of n blk d) (i + 1) = blk i"
proof -
  have len: "4 * (0 + nat n) + 3 < length d" using assms by (simp add: BSIZE_def LOGSIZE_def)
  have "sint (word_of_int n :: 32 word) = n"
    using assms(2,3) by (simp add: LOGSIZE_def int_word_sint)
  then show "sint (get32 (header_of n blk d) 0) = n"
    using len by (simp add: header_of_def get32_write_head_loop)
  show "get32 (header_of n blk d) (i + 1) = blk i" if "i < nat n"
    using len that by (simp add: header_of_def get32_write_head_loop)
qed

lemma read_head_loop_apply: "read_head_loop d i k blk j = (if i \<le> j \<and> j < i + k then get32 d (j + 1) else blk j)"
  by (induction k arbitrary: i blk) auto

section \<open>A whole commit\<close>

text \<open>
  \<open>trans_ok me s n\<close>: the log holds a transaction of \<open>n\<close> distinct blocks outside the log area, all
  pinned, and process \<open>me\<close> holds no buffer.
\<close>

definition logged :: "'a lstate_scheme \<Rightarrow> nat \<Rightarrow> u32 set" where
  "logged s n = lh_block s ` {..<n}"

definition log_area :: "'a lstate_scheme \<Rightarrow> nat \<Rightarrow> u32 set" where
  "log_area s n = insert (lg_start s) (logblk s ` {..<n})"

definition trans_ok :: "int \<Rightarrow> 'a lstate_scheme \<Rightarrow> nat \<Rightarrow> bool" where
  "trans_ok me s n \<longleftrightarrow> hold me s (logged s n) {} \<and> lg_dev s = ROOTDEV \<and> lh_n s = int n \<and> n < NBUF \<and>
     inj_on (lh_block s) {..<n} \<and> log_area s n \<inter> logged s n = {} \<and>
     length (bview s (lg_start s)) = BSIZE \<and> bview s (lg_start s) = disk s (lg_start s)"

definition commit_writes :: "'a lstate_scheme \<Rightarrow> nat \<Rightarrow> (u32 \<times> block) list" where
  "commit_writes s n =
     (let data = (\<lambda>i. bview s (lh_block s i));
          h1 = header_of (int n) (lh_block s) (bview s (lg_start s));
          h2 = header_of 0 (lh_block s) h1
      in map (\<lambda>i. (logblk s i, data i)) [0..<n] @ [(lg_start s, h1)] @
         map (\<lambda>i. (lh_block s i, data i)) [0..<n] @ [(lg_start s, h2)])"

lemma logblk_inj:
  assumes "i < 2 ^ 31" and "j < 2 ^ 31"
  shows "logblk s i = logblk s j \<longleftrightarrow> i = j" "logblk s i \<noteq> lg_start s"
proof -
  have u: "unat (of_nat i :: u32) = i" "unat (of_nat j :: u32) = j"
    using assms by (simp_all add: unat_of_nat)
  show "logblk s i = logblk s j \<longleftrightarrow> i = j"
    using u by (metis (no_types) add_left_imp_eq add_right_imp_eq logblk_def)
  have "unat (of_nat i + 1 :: u32) = i + 1" using u assms by (simp add: unat_plus_no_wrap)
  then have "of_nat i + 1 \<noteq> (0 :: u32)" by (metis Suc_eq_plus1 nat.distinct(1) unat_0)
  then show "logblk s i \<noteq> lg_start s" by (simp add: logblk_def add.assoc)
qed

lemma commit_appends:
  assumes ok: "trans_ok me s n" and n: "0 < n"
  shows "\<exists>s'. commit me s = Ok s' \<and> hold me s' {} {} \<and> lh_n s' = 0 \<and>
    disk s' = apply_writes (disk s) (commit_writes s n) \<and>
    bview s' = apply_writes (bview s) (commit_writes s n) \<and> dwrites s' = dwrites s @ commit_writes s n"
proof -
  let ?P = "logged s n" and ?st = "lg_start s" and ?blk = "lh_block s"
  have h: "hold me s ?P {}" "lg_dev s = ROOTDEV" "lh_n s = int n" "inj_on ?blk {..<n}"
    and area: "\<And>i. i < n \<Longrightarrow> logblk s i \<notin> ?P" "?st \<notin> ?P" and small: "n < 2 ^ 31"
    using ok by (auto simp: trans_ok_def log_area_def NBUF_def)
  have "card ?P \<le> n" using card_image_le [of "{..<n}" ?blk] by (simp add: logged_def)
  then have card: "card ?P < NBUF" using ok by (simp add: trans_ok_def)
  let ?W1 = "map (\<lambda>i. (logblk s i, bview s (?blk i))) [0..<n]"
  have "\<exists>s'. write_log_loop me 0 n s = Ok s' \<and> hold me s' ?P {} \<and> bobs_of s' = wrote (bobs_of s)
      (map (\<lambda>i. (logblk s i, bview s (?blk i))) [0..<0 + n])"
    by (rule write_log_loop_writes [OF h(1,2) card]) (use area in \<open>auto simp: logged_def\<close>)
  then obtain s1 where 1: "write_log me s = Ok s1" "hold me s1 ?P {}" "bobs_of s1 = wrote (bobs_of s) ?W1"
    using h(3) by (auto simp: write_log_def)
  note rest1 = same_rest [OF wrote_same_rest [OF 1(3)]]
  have st1: "bview s1 ?st = bview s ?st"
  proof -
    have "?st \<noteq> logblk s i" if "i < n" for i using logblk_inj(2) [of i i s] that small by auto
    then have "apply_writes (bview s) ?W1 ?st = bview s ?st" by (rule apply_pairs_other)
    then show ?thesis using arg_cong [OF 1(3), of vw] by (simp only: obs_rest wrote_simps)
  qed
  let ?h1 = "header_of (int n) ?blk (bview s ?st)"
  obtain s2 where 2: "write_head me s1 = Ok s2" "hold me s2 ?P {}"
      "bobs_of s2 = wrote (bobs_of s) (?W1 @ [(?st, ?h1)])"
    using write_head_writes [OF 1(2) _ card] rest1 h st1 1(3) by auto
  note rest2 = same_rest [OF wrote_same_rest [OF 2(3)]]
  have log2: "bview s2 (logblk s i) = bview s (?blk i) \<and> disk s2 (logblk s i) = bview s (?blk i)" if "i < n" for i
  proof -
    have "distinct (map fst ?W1)"
      using small by (auto simp: distinct_map comp_def inj_on_def logblk_inj)
    moreover have "(logblk s i, bview s (?blk i)) \<in> set ?W1" using that by auto
    ultimately have "apply_writes d ?W1 (logblk s i) = bview s (?blk i)" for d
      using apply_writes_in by blast
    moreover have "logblk s i \<noteq> ?st" using logblk_inj(2) [of i i s] that small by simp
    ultimately show ?thesis
      using arg_cong [OF 2(3), of vw] arg_cong [OF 2(3), of dk] by (simp add: obs_rest)
  qed
  let ?W3 = "map (\<lambda>i. (?blk i, bview s (?blk i))) [0..<n]"
  have "\<exists>s'. install_loop me False 0 n s2 = Ok s' \<and> hold me s' {} {} \<and>
      bobs_of s' = wrote (bobs_of s2) (map (\<lambda>i. (lh_block s2 i, bview s2 (logblk s2 i))) [0..<0 + n])"
  proof (rule install_loop_writes [OF 2(2) _ card])
    show "if False then ?P = {} else ?P = lh_block s2 ` {0..<0 + n}"
      using rest2 by (simp add: logged_def lessThan_atLeast0)
    show "logblk s2 i \<noteq> lh_block s2 j" if "i \<in> {0..<0 + n}" "j \<in> {0..<0 + n}" for i j
      using that area(1) [of i] rest2 by (auto simp: logged_def)
  qed (use rest2 h log2 in \<open>auto simp: lessThan_atLeast0\<close>)
  moreover have "map (\<lambda>i. (lh_block s2 i, bview s2 (logblk s2 i))) [0..<0 + n] = ?W3"
    using rest2 log2 by (intro map_cong) auto
  ultimately obtain s3 where 3: "install_trans me False s2 = Ok s3" "hold me s3 {} {}"
      "bobs_of s3 = wrote (bobs_of s) (?W1 @ [(?st, ?h1)] @ ?W3)"
    using rest2(3) h(3) 2(3) by (auto simp: install_trans_def simp del: map_eq_conv)
  note rest3 = same_rest [OF wrote_same_rest [OF 3(3)]]
  have st3: "bview s3 ?st = ?h1"
  proof -
    have "?st \<noteq> ?blk i" if "i < n" for i using that area(2) by (auto simp: logged_def)
    then have "apply_writes d ?W3 ?st = d ?st" for d by (rule apply_pairs_other)
    then show ?thesis using arg_cong [OF 3(3), of vw] by (simp add: obs_rest)
  qed
  let ?s3 = "s3\<lparr>lh_n := 0\<rparr>"
  let ?h2 = "header_of 0 ?blk ?h1"
  have "hold me ?s3 {} {}" "lg_dev ?s3 = ROOTDEV" using 3(2) rest3 h by simp_all
  from write_head_writes [OF this] obtain s4 where 4: "write_head me ?s3 = Ok s4" "hold me s4 {} {}"
      "bobs_of s4 = wrote (bobs_of ?s3) [(?st, ?h2)]"
    using rest3 st3 by (auto simp: NBUF_def)
  have o3: "vw (bobs_of ?s3) = apply_writes (bview s) (?W1 @ [(?st, ?h1)] @ ?W3)"
    "dk (bobs_of ?s3) = apply_writes (disk s) (?W1 @ [(?st, ?h1)] @ ?W3)"
    "wl (bobs_of ?s3) = dwrites s @ ?W1 @ [(?st, ?h1)] @ ?W3"
    using arg_cong [OF 3(3), of vw] arg_cong [OF 3(3), of dk] arg_cong [OF 3(3), of wl] by (simp_all add: obs_rest)
  have "commit me s = Ok s4"
    using n h(3) 1(1) 2(1) 3(1) 4(1) by (simp add: commit_def)
  moreover have "lh_n s4 = 0" using same_rest(3) [OF wrote_same_rest [OF 4(3)]] by simp
  moreover have "disk s4 = apply_writes (disk s) (commit_writes s n)"
    "bview s4 = apply_writes (bview s) (commit_writes s n)" "dwrites s4 = dwrites s @ commit_writes s n"
    using arg_cong [OF 4(3), of vw] arg_cong [OF 4(3), of dk] arg_cong [OF 4(3), of wl] o3
    by (simp_all add: obs_rest commit_writes_def Let_def)
  ultimately show ?thesis using 4(2) by auto
qed

section \<open>Recovery\<close>

lemma recover_appends:
  assumes h: "hold me s {} {}" "lg_dev s = ROOTDEV" "bview s = disk s"
    and d: "d = disk s (lg_start s)" "n = nat (sint (get32 d 0))" "b = (\<lambda>i. get32 d (i + 1))"
    and inj: "inj_on b {..<n}"
    and apart: "\<And>i j. i < n \<Longrightarrow> j < n \<Longrightarrow> logblk s i \<noteq> b j" "\<And>j. j < n \<Longrightarrow> lg_start s \<noteq> b j"
  shows "\<exists>s' blk. recover_from_log me s = Ok s' \<and> hold me s' {} {} \<and> lh_n s' = 0 \<and>
    disk s' = apply_writes (disk s) (map (\<lambda>i. (b i, disk s (logblk s i))) [0..<n] @
      [(lg_start s, header_of 0 blk d)])"
proof -
  let ?st = "lg_start s"
  let ?blk = "read_head_loop d 0 n (lh_block s)"
  have "bview s ?st = disk s ?st" using h(3) by simp
  from read_head_reads [OF h(1,2) this] obtain s1 where
    1: "read_head me s = Ok s1" "hold me s1 {} {}" "nat (lh_n s1) = n" "lh_block s1 = ?blk"
    "bview s1 = disk s" "disk s1 = disk s" "lg_start s1 = ?st" "lg_dev s1 = ROOTDEV"
    using h d by (auto simp: Let_def)
  have blk: "?blk i = b i" if "i < n" for i using that d(3) by (simp add: read_head_loop_apply)
  have lb: "logblk s1 = logblk s" using 1(7) by (simp add: logblk_def fun_eq_iff)
  let ?W = "map (\<lambda>i. (b i, disk s (logblk s i))) [0..<n]"
  have "\<exists>s'. install_loop me True 0 n s1 = Ok s' \<and> hold me s' {} {} \<and>
      bobs_of s' = wrote (bobs_of s1) (map (\<lambda>i. (lh_block s1 i, bview s1 (logblk s1 i))) [0..<0 + n])"
  proof (rule install_loop_writes [OF 1(2,8)])
    show "inj_on (lh_block s1) {0..<0 + n}"
      using inj blk 1(4) by (auto simp: inj_on_def)
  qed (use 1 lb apart blk in \<open>auto simp: NBUF_def\<close>)
  moreover have "map (\<lambda>i. (lh_block s1 i, bview s1 (logblk s1 i))) [0..<0 + n] = ?W"
    using 1 lb blk by (intro map_cong) auto
  ultimately obtain s2 where 2: "install_trans me True s1 = Ok s2" "hold me s2 {} {}"
      "bobs_of s2 = wrote (bobs_of s1) ?W"
    using 1(3) by (auto simp: install_trans_def simp del: map_eq_conv)
  note rest2 = same_rest [OF wrote_same_rest [OF 2(3)]]
  let ?s2 = "s2\<lparr>lh_n := 0\<rparr>"
  have st: "apply_writes e ?W ?st = e ?st" for e using apart(2) by (rule apply_pairs_other)
  have o2: "bview s2 = apply_writes (disk s) ?W" "disk s2 = apply_writes (disk s) ?W"
    using arg_cong [OF 2(3), of vw] arg_cong [OF 2(3), of dk] 1(5,6) by (simp_all add: obs_rest)
  then have "bview ?s2 ?st = d" using st d(1) by simp
  moreover have "hold me ?s2 {} {}" "lg_dev ?s2 = ROOTDEV" using 2(2) rest2 1(8) by simp_all
  ultimately obtain s3 where 3: "write_head me ?s2 = Ok s3" "hold me s3 {} {}"
      "bobs_of s3 = wrote (bobs_of ?s2) [(?st, header_of 0 ?blk d)]"
    using write_head_writes [of me ?s2 "{}"] rest2 1(4,7) by (auto simp: NBUF_def)
  have "disk s3 = apply_writes (disk s) (?W @ [(?st, header_of 0 ?blk d)])"
    using arg_cong [OF 3(3), of dk] o2 by (simp add: obs_rest)
  moreover have "lh_n s3 = 0" using same_rest(3) [OF wrote_same_rest [OF 3(3)]] by simp
  ultimately show ?thesis
    using 1(1) 2(1) 3(1,2) by (intro exI [of _ s3] exI [of _ ?blk]) (simp add: recover_from_log_def)
qed

section \<open>Crashes\<close>

text \<open>Where a crash after \<open>k\<close> writes of a commit leaves the blocks outside the log area.\<close>

lemma apply_pairs:
  assumes "inj_on f {..<n}"
  shows "apply_writes d (map (\<lambda>i. (f i, g i)) [0..<n]) m =
    (if m \<in> f ` {..<n} then g (the_inv_into {..<n} f m) else d m)"
proof (cases "m \<in> f ` {..<n}")
  case True
  then obtain i where i: "i < n" "m = f i" by auto
  have "distinct (map fst (map (\<lambda>i. (f i, g i)) [0..<n]))"
    using assms by (simp add: distinct_map comp_def lessThan_atLeast0)
  then have "apply_writes d (map (\<lambda>i. (f i, g i)) [0..<n]) m = g i"
    by (rule apply_writes_in [rotated]) (use i in auto)
  then show ?thesis using True i assms by (simp add: the_inv_into_f_f)
next
  case False
  then have "apply_writes d (map (\<lambda>i. (f i, g i)) [0..<n]) m = d m" by (intro apply_pairs_other) auto
  then show ?thesis using False by simp
qed

lemma apply_take_pairs:
  assumes "inj_on f {..<n}" and "i < n"
  shows "apply_writes d (take j (map (\<lambda>i. (f i, g i)) [0..<n])) (f i) = (if i < j then g i else d (f i))"
proof -
  have "take j (map (\<lambda>i. (f i, g i)) [0..<n]) = map (\<lambda>i. (f i, g i)) [0..<min j n]"
    by (simp add: take_map take_upt min_def)
  moreover have inj: "inj_on f {..<min j n}" using assms(1) by (rule inj_on_subset) auto
  moreover have "f i \<in> f ` {..<min j n} \<longleftrightarrow> i < j" using assms by (auto dest: inj_onD)
  ultimately show ?thesis
    using assms apply_pairs [OF inj] the_inv_into_f_f [OF inj, of i] by auto
qed

text \<open>The disk a crash after \<open>k\<close> writes leaves, as the next boot finds it.\<close>

definition crash_disk :: "'a lstate_scheme \<Rightarrow> nat \<Rightarrow> nat \<Rightarrow> u32 \<Rightarrow> block" where
  "crash_disk s n k = apply_writes (disk s) (take k (commit_writes s n))"

lemma crash_disk_before:
  assumes "k \<le> n"
  shows "crash_disk s n k = apply_writes (disk s) (take k (map (\<lambda>i. (logblk s i, bview s (lh_block s i))) [0..<n]))"
  using assms by (simp add: crash_disk_def commit_writes_def Let_def)

lemma crash_disk_after:
  assumes "n < k" and "k \<le> 2 * n + 1"
  shows "crash_disk s n k = apply_writes ((apply_writes (disk s)
      (map (\<lambda>i. (logblk s i, bview s (lh_block s i))) [0..<n]))
        (lg_start s := header_of (int n) (lh_block s) (bview s (lg_start s))))
      (take (k - (n + 1)) (map (\<lambda>i. (lh_block s i, bview s (lh_block s i))) [0..<n]))"
proof -
  obtain j where "k = Suc (n + j)" using assms(1) less_iff_Suc_add by auto
  then show ?thesis using assms(2) by (simp add: crash_disk_def commit_writes_def Let_def)
qed

lemma crash_disk_done:
  assumes "2 * n + 2 \<le> k"
  shows "crash_disk s n k = apply_writes (disk s) (commit_writes s n)"
  using assms by (simp add: crash_disk_def commit_writes_def Let_def)

text \<open>What \<open>initlog\<close> does at boot, on a cache that was never used.\<close>

definition boot_disk :: "'a lstate_scheme \<Rightarrow> (u32 \<Rightarrow> block) \<Rightarrow> bool" where
  "boot_disk r d \<longleftrightarrow> disk r = d \<and> (\<forall>b<NBUF. b_dev (bufs r b) \<noteq> ROOTDEV \<and> b_refcnt (bufs r b) = 0)"

lemma initlog_appends:
  assumes r: "boot_disk r (disk r)"
    and d: "d = disk r st" "n = nat (sint (get32 d 0))" "\<And>i. i < n \<Longrightarrow> b i = get32 d (i + 1)"
    and lb: "l = (\<lambda>i. st + of_nat i + 1)"
    and inj: "inj_on b {..<n}"
    and apart: "\<And>i j. i < n \<Longrightarrow> j < n \<Longrightarrow> l i \<noteq> b j" "\<And>j. j < n \<Longrightarrow> st \<noteq> b j"
  shows "\<exists>r' blk. initlog me ROOTDEV st nlog (binit r) = Ok r' \<and> hold me r' {} {} \<and> lh_n r' = 0 \<and>
    disk r' = apply_writes (disk r) (map (\<lambda>i. (b i, disk r (l i))) [0..<n] @ [(st, header_of 0 blk d)])"
proof -
  have bi: "hold me (binit r) {} {}" "bview (binit r) = disk r" "\<exists>bs. binit r = r\<lparr>bufs := bs\<rparr>"
    using binit_hold [of r me] r by (auto simp: boot_disk_def)
  then have dr: "disk (binit r) = disk r" by auto
  let ?s = "binit r\<lparr>lg_start := st, lg_size := sint nlog, lg_dev := ROOTDEV\<rparr>"
  let ?b = "\<lambda>i. get32 d (i + 1)"
  have l: "logblk ?s = l" by (simp add: lb logblk_def fun_eq_iff)
  have "\<exists>s' blk. recover_from_log me ?s = Ok s' \<and> hold me s' {} {} \<and> lh_n s' = 0 \<and>
    disk s' = apply_writes (disk ?s) (map (\<lambda>i. (?b i, disk ?s (logblk ?s i))) [0..<n] @
      [(lg_start ?s, header_of 0 blk d)])"
  proof (rule recover_appends)
    show "inj_on ?b {..<n}" using inj d(3) by (simp add: inj_on_def)
    show "logblk ?s i \<noteq> ?b j" if "i < n" "j < n" for i j using that apart(1) d(3) l by simp
    show "lg_start ?s \<noteq> ?b j" if "j < n" for j using that apart(2) d(3) by simp
  qed (use bi dr d in simp_all)
  moreover have "map (\<lambda>i. (?b i, disk ?s (logblk ?s i))) [0..<n] = map (\<lambda>i. (b i, disk r (l i))) [0..<n]"
    using d(3) l dr by (intro map_cong) auto
  ultimately show ?thesis
    using dr by (auto simp: initlog_def LOGSIZE_def BSIZE_def simp del: map_eq_conv)
qed

lemma crash_recovers:
  assumes ok: "trans_ok me s n" and empty: "get32 (disk s (lg_start s)) 0 = 0"
    and r: "boot_disk r (crash_disk s n k)"
  shows "\<exists>r'. initlog me' ROOTDEV (lg_start s) nlog (binit r) = Ok r' \<and> hold me' r' {} {} \<and>
    (\<forall>m. m \<notin> log_area s n \<longrightarrow>
      disk r' m = (if n < k \<and> m \<in> logged s n then bview s m else disk s m))"
proof -
  let ?st = "lg_start s" and ?blk = "lh_block s" and ?l = "logblk s"
  let ?data = "\<lambda>i. bview s (?blk i)"
  let ?W1 = "map (\<lambda>i. (?l i, ?data i)) [0..<n]" and ?W3 = "map (\<lambda>i. (?blk i, ?data i)) [0..<n]"
  let ?h1 = "header_of (int n) ?blk (bview s ?st)"
  have small: "n < 2 ^ 31" "int n \<le> LOGSIZE" and inj: "inj_on ?blk {..<n}"
    and len: "length (bview s ?st) = BSIZE"
    and area: "\<And>i j. i < n \<Longrightarrow> j < n \<Longrightarrow> ?l i \<noteq> ?blk j" "\<And>j. j < n \<Longrightarrow> ?st \<noteq> ?blk j"
    using ok by (auto simp: trans_ok_def log_area_def logged_def NBUF_def LOGSIZE_def)
  have lst: "?st \<noteq> ?l i" if "i < n" for i using logblk_inj(2) [of i i s] that small by auto
  have injl: "inj_on ?l {..<n}" using small by (auto simp: inj_on_def logblk_inj)
  have l: "?l = (\<lambda>i. ?st + of_nat i + 1)" by (simp add: logblk_def fun_eq_iff)
  have dr: "disk r = crash_disk s n k" and r0: "boot_disk r (disk r)" using r by (auto simp: boot_disk_def)
  have out: "m \<noteq> ?st \<and> (\<forall>i<n. m \<noteq> ?l i)" if "m \<notin> log_area s n" for m
    using that by (auto simp: log_area_def)
  have sub: "fst ` set (take j (map (\<lambda>i. (f i, g i)) [0..<n])) \<subseteq> f ` {..<n}" for j f and g :: "nat \<Rightarrow> block"
    using set_take_subset [of j "map (\<lambda>i. (f i, g i)) [0..<n]"] map_fst_pairs [of f g n]
    by (metis (no_types, lifting) image_mono)
  consider "k \<le> n" | "n < k" "k \<le> 2 * n + 1" | "2 * n + 2 \<le> k" by linarith
  then show ?thesis
  proof cases
    case 1
    have dk: "disk r m = disk s m" if "m \<notin> ?l ` {..<n}" for m
      unfolding dr crash_disk_before [OF 1] using that sub [of k ?l ?data] by (intro apply_writes_other) auto
    have "disk r ?st = disk s ?st" using lst by (intro dk) auto
    then have "nat (sint (get32 (disk r ?st) 0)) = 0" using empty by simp
    from initlog_appends [OF r0 refl this [symmetric] _ l, of undefined me' nlog]
    obtain r' b where "initlog me' ROOTDEV ?st nlog (binit r) = Ok r'" "hold me' r' {} {}"
        "disk r' = (disk r)(?st := b)" by auto
    then show ?thesis using 1 dk out by (auto simp: image_iff)
  next
    case 2
    note dr2 = dr [unfolded crash_disk_after [OF 2]]
    have dst: "disk r ?st = ?h1"
      unfolding dr2 using area(2) sub [of "k - (n + 1)" ?blk ?data] by (subst apply_writes_other) auto
    have dl: "disk r (?l i) = ?data i" if "i < n" for i
    proof -
      have "?l i \<notin> fst ` set (take (k - (n + 1)) ?W3)"
        using that area(1) sub [of "k - (n + 1)" ?blk ?data] by auto
      then show ?thesis
        unfolding dr2 using lst [OF that] apply_take_pairs [OF injl that, of "disk s" n ?data] that
        by (simp add: apply_writes_other)
    qed
    have dm: "disk r m = disk s m" if "m \<notin> log_area s n" "m \<notin> logged s n" for m
    proof -
      have "m \<notin> fst ` set (take (k - (n + 1)) ?W3)"
        using that sub [of "k - (n + 1)" ?blk ?data] by (auto simp: logged_def)
      moreover have "apply_writes (disk s) ?W1 m = disk s m"
        using out [OF that(1)] by (intro apply_pairs_other) auto
      ultimately show ?thesis unfolding dr2 using out [OF that(1)] by (simp add: apply_writes_other)
    qed
    note f = header_of_fields [OF len _ small(2), where blk = ?blk]
    have n': "nat (sint (get32 (disk r ?st) 0)) = n" using f(1) dst by simp
    have b: "?blk i = get32 (disk r ?st) (i + 1)" if "i < n" for i using f(2) [where i = i] that dst by simp
    from initlog_appends [OF r0 refl n' [symmetric] b l inj area, of me' nlog]
    obtain r' hb where r': "initlog me' ROOTDEV ?st nlog (binit r) = Ok r'" "hold me' r' {} {}"
        "disk r' = apply_writes (disk r) (map (\<lambda>i. (?blk i, disk r (?l i))) [0..<n] @ [(?st, header_of 0 hb (disk r ?st))])"
      by blast
    have "disk r' m = (if m \<in> logged s n then bview s m else disk s m)" if m: "m \<notin> log_area s n" for m
    proof (cases "m \<in> logged s n")
      case True
      then obtain i where "i < n" "m = ?blk i" by (auto simp: logged_def)
      then show ?thesis
        using True r'(3) out [OF m] apply_take_pairs [OF inj, of i "disk r" n "\<lambda>i. disk r (?l i)"] dl by simp
    next
      case False
      then have "apply_writes (disk r) (map (\<lambda>i. (?blk i, disk r (?l i))) [0..<n]) m = disk r m"
        by (intro apply_pairs_other) (auto simp: logged_def)
      then show ?thesis using False r'(3) out [OF m] dm [OF m] by simp
    qed
    then show ?thesis using r' 2 by auto
  next
    case 3
    let ?h2 = "header_of 0 ?blk ?h1"
    note dr3 = dr [unfolded crash_disk_done [OF 3]]
    have dst: "disk r ?st = ?h2" unfolding dr3 by (simp add: commit_writes_def Let_def)
    have dm: "disk r m = (if m \<in> logged s n then bview s m else disk s m)" if m: "m \<notin> log_area s n" for m
    proof -
      have "apply_writes d ?W1 m = d m" for d using out [OF m] by (intro apply_pairs_other) auto
      moreover have "apply_writes d ?W3 m = (if m \<in> logged s n then bview s m else d m)" for d
        using apply_pairs [OF inj, of d ?data m] the_inv_into_f_f [OF inj] by (auto simp: logged_def)
      ultimately show ?thesis
        unfolding dr3 using out [OF m] by (simp add: commit_writes_def Let_def)
    qed
    have "nat (sint (get32 (disk r ?st) 0)) = 0"
      using header_of_fields(1) [of ?h1 0 ?blk] dst len by (simp add: LOGSIZE_def)
    from initlog_appends [OF r0 refl this [symmetric] _ l, of undefined me' nlog]
    obtain r' b where "initlog me' ROOTDEV ?st nlog (binit r) = Ok r'" "hold me' r' {} {}"
        "disk r' = (disk r)(?st := b)" by auto
    then show ?thesis using 3 dm out by auto
  qed
qed

section \<open>The properties\<close>

lemma trans_upd [simp]:
  "logblk (s\<lparr>outstanding := j\<rparr>) = logblk s" "logblk (s\<lparr>committing := c\<rparr>) = logblk s"
  "logged (s\<lparr>outstanding := j\<rparr>) n = logged s n" "logged (s\<lparr>committing := c\<rparr>) n = logged s n"
  "log_area (s\<lparr>outstanding := j\<rparr>) n = log_area s n" "log_area (s\<lparr>committing := c\<rparr>) n = log_area s n"
  "trans_ok me (s\<lparr>outstanding := j\<rparr>) n = trans_ok me s n" "trans_ok me (s\<lparr>committing := c\<rparr>) n = trans_ok me s n"
  "commit_writes (s\<lparr>outstanding := j\<rparr>) n = commit_writes s n"
  "commit_writes (s\<lparr>committing := c\<rparr>) n = commit_writes s n"
  by (simp_all add: logblk_def logged_def log_area_def trans_ok_def commit_writes_def fun_eq_iff)

text \<open>A transaction of one block for the examples: block 50 is pinned and modified.\<close>

definition example_trans :: "int \<Rightarrow> lstate" where
  "example_trans k = \<lparr>bufs = ring (\<lambda>i. \<lparr>b_valid = (i = 0), b_dev = (if i = 0 then ROOTDEV else 0),
      b_blockno = 50, b_lock = \<lparr>sl_locked = (k = 0 \<and> i = 0), sl_pid = 1\<rparr>, b_refcnt = (if i = 0 then 1 else 0),
      b_prev = 0, b_next = 0, b_data = replicate BSIZE 7\<rparr>),
    disk = (\<lambda>_. replicate BSIZE 0), dwrites = [], lg_start = 2, lg_size = 30, outstanding = 1,
    committing = False, lg_dev = ROOTDEV, lh_n = k, lh_block = (\<lambda>_. 50)\<rparr>"

lemma example_cached: "cached (bufs (example_trans k)) m b \<longleftrightarrow> b = 0 \<and> m = 50"
  by (auto simp: example_trans_def cached_def ring_def ROOTDEV_def NBUF_def)

lemma example_trans_ok: "trans_ok 1 (example_trans 1) 1"
proof -
  let ?s = "example_trans 1"
  have "binv ?s"
    unfolding binv_def using lru_ring
    by (auto simp: example_cached) (auto simp: example_trans_def ring_def ROOTDEV_def split: if_splits)
  then have "hold 1 ?s {50} {}"
    unfolding hold_def
    by (auto simp: example_cached) (auto simp: example_trans_def ring_def ROOTDEV_def split: if_splits)
  moreover have "bview ?s 2 = disk ?s 2" by (rule bview_disk) (simp add: example_cached)
  ultimately show ?thesis
    by (simp add: trans_ok_def logged_def log_area_def example_trans_def logblk_def NBUF_def lessThan_Suc)
qed

text \<open>
  C4: a transaction is atomic with respect to crashes. The last \<open>end_op\<close> of a transaction returns;
  if the machine stops after any number of the block writes it makes and boots again, \<open>initlog\<close>
  returns, and outside the log area the disk then shows either the state before the transaction
  or the state after it, where exactly the logged blocks have their new contents. After the write
  of the header it is the latter.
\<close>

theorem end_op_crash_atomic:
  assumes "trans_ok me s n" and "0 < n" and "outstanding s = 1" and "\<not> committing s"
    and "get32 (disk s (lg_start s)) 0 = 0"
  shows "\<exists>s' W. end_op me s = Ok s' \<and> dwrites s' = dwrites s @ W \<and> disk s' = apply_writes (disk s) W \<and>
    lh_n s' = 0 \<and> hold me s' {} {} \<and>
    (\<forall>m. m \<notin> log_area s n \<longrightarrow> disk s' m = (if m \<in> logged s n then bview s m else disk s m)) \<and>
    (\<forall>k r. boot_disk r (apply_writes (disk s) (take k W)) \<longrightarrow>
      (\<exists>r'. initlog me' ROOTDEV (lg_start s) nlog (binit (r :: 'a lstate_scheme)) = Ok r' \<and>
        (\<forall>m. m \<notin> log_area s n \<longrightarrow> disk r' m = (if n < k then disk s' m else disk s m))))"
proof -
  let ?s = "s\<lparr>outstanding := 0, committing := True\<rparr>"
  let ?W = "commit_writes s n"
  have "trans_ok me ?s n" using assms(1) by simp
  from commit_appends [OF this assms(2)] obtain s1 where s1: "commit me ?s = Ok s1" "hold me s1 {} {}"
      "lh_n s1 = 0" "disk s1 = apply_writes (disk s) ?W" "dwrites s1 = dwrites s @ ?W" by auto
  have e: "end_op me s = Ok (s1\<lparr>committing := False\<rparr>)"
    using s1(1) assms(3,4) by (simp add: end_op_def Let_def)
  have inj: "inj_on (lh_block s) {..<n}" using assms(1) by (simp add: trans_ok_def)
  have out: "m \<noteq> lg_start s \<and> (\<forall>i<n. m \<noteq> logblk s i)" if "m \<notin> log_area s n" for m
    using that by (auto simp: log_area_def)
  have final: "disk s1 m = (if m \<in> logged s n then bview s m else disk s m)" if m: "m \<notin> log_area s n" for m
  proof -
    have "apply_writes d (map (\<lambda>i. (logblk s i, bview s (lh_block s i))) [0..<n]) m = d m" for d
      using out [OF m] by (intro apply_pairs_other) auto
    moreover have "apply_writes d (map (\<lambda>i. (lh_block s i, bview s (lh_block s i))) [0..<n]) m =
        (if m \<in> logged s n then bview s m else d m)" for d
      using apply_pairs [OF inj, of d _ m] the_inv_into_f_f [OF inj] by (auto simp: logged_def)
    ultimately show ?thesis
      unfolding s1(4) using out [OF m] by (simp add: commit_writes_def Let_def)
  qed
  have crash: "\<exists>r'. initlog me' ROOTDEV (lg_start s) nlog (binit r) = Ok r' \<and>
      (\<forall>m. m \<notin> log_area s n \<longrightarrow> disk r' m = (if n < k then disk s1 m else disk s m))"
    if "boot_disk r (apply_writes (disk s) (take k ?W))" for k and r :: "'a lstate_scheme"
    using crash_recovers [OF assms(1,5), of r k me' nlog] that final by (auto simp: crash_disk_def)
  have same: "disk (s1\<lparr>committing := False\<rparr>) = disk s1" by simp
  show ?thesis
    by (intro exI [of _ "s1\<lparr>committing := False\<rparr>"] exI [of _ ?W] conjI allI impI)
      (use e s1 final crash in \<open>simp_all only: same\<close>, simp_all)
qed

theorem end_op_crash_atomic_witness:
  "\<exists>s' W. end_op 1 (example_trans 1) = Ok s' \<and> dwrites s' = dwrites (example_trans 1) @ W \<and>
    disk s' = apply_writes (disk (example_trans 1)) W \<and> lh_n s' = 0 \<and> hold 1 s' {} {} \<and>
    (\<forall>m. m \<notin> log_area (example_trans 1) 1 \<longrightarrow> disk s' m =
      (if m \<in> logged (example_trans 1) 1 then bview (example_trans 1) m else disk (example_trans 1) m)) \<and>
    (\<forall>k r. boot_disk r (apply_writes (disk (example_trans 1)) (take k W)) \<longrightarrow>
      (\<exists>r'. initlog 1 ROOTDEV (lg_start (example_trans 1)) 30 (binit (r :: lstate)) = Ok r' \<and>
        (\<forall>m. m \<notin> log_area (example_trans 1) 1 \<longrightarrow>
          disk r' m = (if 1 < k then disk s' m else disk (example_trans 1) m))))"
  by (rule end_op_crash_atomic [OF example_trans_ok])
    (simp_all add: example_trans_def get32_def BSIZE_def)

lemma log_find_bounds:
  "i \<le> log_find blk n i k \<and> log_find blk n i k \<le> i + k \<and>
   (log_find blk n i k < i + k \<longrightarrow> blk (log_find blk n i k) = n) \<and>
   (\<forall>j. i \<le> j \<longrightarrow> j < log_find blk n i k \<longrightarrow> blk j \<noteq> n)"
proof (induction k arbitrary: i)
  case (Suc k)
  have "blk i \<noteq> n \<Longrightarrow> i \<le> j \<Longrightarrow> j < log_find blk n (Suc i) k \<Longrightarrow> blk j \<noteq> n" for j
    using Suc.IH [of "Suc i"] by (cases "j = i") auto
  then show ?case using Suc.IH [of "Suc i"] by auto
qed simp

text \<open>
  \<open>log_write\<close> of a block the process holds, inside a transaction with room, records the block
  once: a block already in the transaction is absorbed, a new one is appended and pinned in the
  cache. Block contents and disk are unchanged.
\<close>

lemma log_write_hold:
  assumes "hold me s (logged s k) H" and "lh_n s = int k" and "inj_on (lh_block s) {..<k}"
    and "n \<in> H" and "cached (bufs s) n b" and "1 \<le> outstanding s"
    and "int k < LOGSIZE" and "int k < lg_size s - 1"
  shows "\<exists>s' k'. log_write b s = Ok s' \<and> k' = (if n \<in> logged s k then k else Suc k) \<and>
    lh_n s' = int k' \<and> logged s' k' = insert n (logged s k) \<and> inj_on (lh_block s') {..<k'} \<and>
    hold me s' (logged s' k') H \<and> bview s' = bview s \<and>
    (\<exists>bs lb ln. s' = s\<lparr>bufs := bs, lh_block := lb, lh_n := ln\<rparr>) \<and>
    (\<forall>m c. cached (bufs s) m c \<longrightarrow> cached (bufs s') m c)"
proof -
  have bn: "b_blockno (bufs s b) = n" using assms(5) by (simp add: cached_def)
  define i where "i = log_find (lh_block s) n 0 k"
  note bd = log_find_bounds [of 0 "lh_block s" n k, folded i_def]
  let ?s1 = "s\<lparr>lh_block := (lh_block s)(i := n)\<rparr>"
  have unf: "log_write b s = (if i = k then Ok ((bpin b ?s1)\<lparr>lh_n := int k + 1\<rparr>) else Ok ?s1)"
    using assms bn by (simp add: log_write_def Let_def i_def)
  show ?thesis
  proof (cases "n \<in> logged s k")
    case True
    then obtain j where "j < k" "lh_block s j = n" by (auto simp: logged_def)
    then have "i < k" using bd by (metis le0 not_less_iff_gr_or_eq add_0 le_neq_implies_less)
    moreover have "(lh_block s)(i := n) = lh_block s" using calculation bd by auto
    ultimately show ?thesis
      using True unf assms by (intro exI [of _ ?s1] exI [of _ k])
        (auto simp: insert_absorb logged_def intro!: exI [of _ "bufs s"] exI [of _ "lh_block s"] exI [of _ "int k"])
  next
    case False
    then have ik: "i = k" using bd by (auto simp: logged_def)
    have new: "logged (s\<lparr>lh_block := (lh_block s)(k := n)\<rparr>) (Suc k) = insert n (logged s k)"
      by (auto simp: logged_def lessThan_Suc)
    let ?s2 = "(bpin b ?s1)\<lparr>lh_n := int k + 1\<rparr>"
    have lg: "lh_block ?s2 = (lh_block s)(k := n)" by (simp add: bpin_def upd_buf_def ik)
    have "logged ?s2 (Suc k) = insert n (logged s k)" using new lg by (simp add: logged_def)
    moreover have "inj_on (lh_block ?s2) {..<Suc k}"
      using assms(3) False lg by (auto simp: inj_on_def logged_def lessThan_Suc)
    moreover have "hold me ?s1 (logged s k) H" using assms(1) by simp
    then have "hold me (bpin b ?s1) (insert n (logged s k)) H" "bview (bpin b ?s1) = bview s"
      "\<And>m c. cached (bufs s) m c \<Longrightarrow> cached (bufs (bpin b ?s1)) m c"
      using bpin_hold [of me ?s1 "logged s k" H n b] assms(4,5) False by auto
    moreover have "\<exists>bs lb ln. ?s2 = s\<lparr>bufs := bs, lh_block := lb, lh_n := ln\<rparr>"
      by (rule exI [of _ "bufs (bpin b ?s1)"], rule exI [of _ "(lh_block s)(i := n)"], rule exI [of _ "int k + 1"])
        (rule lstate.equality; simp add: bpin_def upd_buf_def)
    ultimately show ?thesis
      using False unf ik by (intro exI [of _ ?s2] exI [of _ "Suc k"]) auto
  qed
qed

end
