(* ===== verification/Fs.thy ===== *)
theory Fs
  imports Log
begin

text \<open>
  The file system, \<^verbatim>\<open>kernel/fs.c\<close> with the large-file extension: block allocation, the inode
  table, file contents through direct, indirect and doubly indirect blocks, directories and path
  names. The state extends the log state by the superblock and the inode table; an inode pointer
  is its index in the table and \<open>None\<close> the null pointer. \<open>me\<close> is the pid of the calling process.
  The transfer between a block and user or kernel memory is a parameter of \<open>readi\<close> and \<open>writei\<close>:
  \<open>cout dst bytes m\<close> is \<^verbatim>\<open>either_copyout\<close> on the destination memory \<open>m\<close>, \<open>cin src n\<close> the bytes
  \<^verbatim>\<open>either_copyin\<close> delivers before it returns or fails. Loop counters that C keeps in \<^verbatim>\<open>uint\<close>
  variables are natural numbers where the loop condition keeps them in range.
\<close>

definition NDIRECT :: nat where "NDIRECT = 11"
definition NINDIRECT :: nat where "NINDIRECT = BSIZE div 4"
definition MAXFILE :: nat where "MAXFILE = NINDIRECT * NINDIRECT + NINDIRECT + NDIRECT"
definition BPB :: nat where "BPB = BSIZE * 8"
definition IPB :: nat where "IPB = BSIZE div 64"
definition DIRSIZ :: nat where "DIRSIZ = 14"
definition NINODE :: nat where "NINODE = 50"
definition FSMAGIC :: u32 where "FSMAGIC = 0x10203040"
definition ROOTINO :: u32 where "ROOTINO = 1"
definition T_DIR :: u16 where "T_DIR = 1"
definition T_FILE :: u16 where "T_FILE = 2"
definition T_DEVICE :: u16 where "T_DEVICE = 3"
definition T_SYMLINK :: u16 where "T_SYMLINK = 4"

record superblock =
  sb_magic :: u32
  sb_size :: u32
  sb_nblocks :: u32
  sb_ninodes :: u32
  sb_nlog :: u32
  sb_logstart :: u32
  sb_inodestart :: u32
  sb_bmapstart :: u32

record inode =
  i_dev :: u32
  i_inum :: u32
  i_ref :: int
  i_lock :: sleeplock
  i_valid :: bool
  i_type :: u16
  i_major :: u16
  i_minor :: u16
  i_nlink :: u16
  i_size :: u32
  i_addrs :: "u32 list"

record fstate = lstate +
  fsb :: superblock
  inodes :: "nat \<Rightarrow> inode"

definition upd_ino :: "nat \<Rightarrow> (inode \<Rightarrow> inode) \<Rightarrow> 'a fstate_scheme \<Rightarrow> 'a fstate_scheme" where
  "upd_ino ip f s = s\<lparr>inodes := (inodes s)(ip := f (inodes s ip))\<rparr>"

section \<open>Superblock and blocks\<close>

definition readsb :: "int \<Rightarrow> u32 \<Rightarrow> 'a fstate_scheme \<Rightarrow> 'a fstate_scheme outcome" where
  "readsb me dev s =
     obind (bread me dev 1 s) (\<lambda>(bp, s1).
       let d = b_data (bufs s1 bp);
           sb = \<lparr>sb_magic = get32 d 0, sb_size = get32 d 1, sb_nblocks = get32 d 2, sb_ninodes = get32 d 3,
                 sb_nlog = get32 d 4, sb_logstart = get32 d 5, sb_inodestart = get32 d 6,
                 sb_bmapstart = get32 d 7\<rparr>
       in brelse me bp (s1\<lparr>fsb := sb\<rparr>))"

definition fsinit :: "int \<Rightarrow> u32 \<Rightarrow> 'a fstate_scheme \<Rightarrow> 'a fstate_scheme outcome" where
  "fsinit me dev s =
     obind (readsb me dev s) (\<lambda>s1.
       if sb_magic (fsb s1) \<noteq> FSMAGIC then Panic ''invalid file system''
       else initlog me dev (sb_logstart (fsb s1)) (sb_nlog (fsb s1)) s1)"

definition bzero :: "int \<Rightarrow> u32 \<Rightarrow> u32 \<Rightarrow> 'a fstate_scheme \<Rightarrow> 'a fstate_scheme outcome" where
  "bzero me dev bno s =
     obind (bread me dev bno s) (\<lambda>(bp, s1).
     obind (log_write bp (set_data bp (replicate BSIZE 0) s1)) (\<lambda>s2.
     brelse me bp s2))"

definition BBLOCK :: "nat \<Rightarrow> superblock \<Rightarrow> u32" where
  "BBLOCK b sb = of_nat (b div BPB) + sb_bmapstart sb"

definition bit_mask :: "nat \<Rightarrow> u8" where
  "bit_mask bi = push_bit (bi mod 8) 1"

text \<open>The inner loop of \<open>balloc\<close>: the first free bit of a bitmap block.\<close>

fun balloc_scan :: "block \<Rightarrow> nat \<Rightarrow> nat \<Rightarrow> nat \<Rightarrow> nat \<Rightarrow> nat option" where
  "balloc_scan d b lim bi 0 = None"
| "balloc_scan d b lim bi (Suc k) =
     (if b + bi < lim then
        if d ! (bi div 8) AND bit_mask bi = 0 then Some bi else balloc_scan d b lim (Suc bi) k
      else None)"

function balloc_loop :: "int \<Rightarrow> u32 \<Rightarrow> nat \<Rightarrow> 'a fstate_scheme \<Rightarrow> (u32 \<times> 'a fstate_scheme) outcome" where
  "balloc_loop me dev b s =
     (if b < unat (sb_size (fsb s)) then
        obind (bread me dev (BBLOCK b (fsb s)) s) (\<lambda>(bp, s1).
          let d = b_data (bufs s1 bp) in
          case balloc_scan d b (unat (sb_size (fsb s))) 0 BPB of
            Some bi \<Rightarrow>
              obind (log_write bp (set_data bp (d[bi div 8 := d ! (bi div 8) OR bit_mask bi]) s1)) (\<lambda>s2.
              obind (brelse me bp s2) (\<lambda>s3.
              obind (bzero me dev (of_nat (b + bi)) s3) (\<lambda>s4.
              Ok (of_nat (b + bi), s4))))
          | None \<Rightarrow>
              obind (brelse me bp s1) (\<lambda>s2. balloc_loop me dev (b + BPB) s2))
      else Panic ''balloc: out of blocks'')"
  by pat_completeness auto

lemma only_bufs_fs:
  assumes "only_bufs s (s' :: 'a fstate_scheme)"
  shows "fsb s' = fsb s" "inodes s' = inodes s"
  using only_bufs_more [OF assms] by (cases s; cases s'; simp)+

termination balloc_loop
proof (relation "measure (\<lambda>(me, dev, b, s). unat (sb_size (fsb s)) - b)", goal_cases)
  case (2 me dev b s x bp s1 d s2)
  then have "fsb s2 = fsb s"
    using only_bufs_fs(1) bread_only_bufs brelse_only_bufs by metis
  then show ?case using 2 by (simp add: BPB_def BSIZE_def)
qed simp

declare balloc_loop.simps [simp del]

definition balloc :: "int \<Rightarrow> u32 \<Rightarrow> 'a fstate_scheme \<Rightarrow> (u32 \<times> 'a fstate_scheme) outcome" where
  "balloc me dev s = balloc_loop me dev 0 s"

definition bfree :: "int \<Rightarrow> u32 \<Rightarrow> u32 \<Rightarrow> 'a fstate_scheme \<Rightarrow> 'a fstate_scheme outcome" where
  "bfree me dev b s =
     obind (bread me dev (BBLOCK (unat b) (fsb s)) s) (\<lambda>(bp, s1).
       let bi = unat b mod BPB;
           m = bit_mask bi;
           d = b_data (bufs s1 bp)
       in if d ! (bi div 8) AND m = 0 then Panic ''freeing free block''
          else obind (log_write bp (set_data bp (d[bi div 8 := d ! (bi div 8) AND NOT m]) s1)) (\<lambda>s2.
            brelse me bp s2))"

section \<open>Inodes\<close>

definition iinit :: "'a fstate_scheme \<Rightarrow> 'a fstate_scheme" where
  "iinit s = s\<lparr>inodes := (\<lambda>i. if i < NINODE then (inodes s i)\<lparr>i_lock := initsleeplock\<rparr> else inodes s i)\<rparr>"

definition IBLOCK :: "u32 \<Rightarrow> superblock \<Rightarrow> u32" where
  "IBLOCK i sb = of_nat (unat i div IPB) + sb_inodestart sb"

text \<open>
  Slot \<open>k\<close> of an inode block: 64 bytes, four 16-bit fields, the size and the 13 addresses.
\<close>

fun get_addrs :: "block \<Rightarrow> nat \<Rightarrow> nat \<Rightarrow> u32 list" where
  "get_addrs d k 0 = []"
| "get_addrs d k (Suc n) = get32 d k # get_addrs d (Suc k) n"

fun put_addrs :: "block \<Rightarrow> nat \<Rightarrow> u32 list \<Rightarrow> block" where
  "put_addrs d k [] = d"
| "put_addrs d k (a # as) = put_addrs (put32 d k a) (Suc k) as"

definition dinode_type :: "block \<Rightarrow> nat \<Rightarrow> u16" where
  "dinode_type d k = get16 d (32 * k)"

definition read_dinode :: "block \<Rightarrow> nat \<Rightarrow> inode \<Rightarrow> inode" where
  "read_dinode d k x = x\<lparr>i_type := get16 d (32 * k), i_major := get16 d (32 * k + 1),
     i_minor := get16 d (32 * k + 2), i_nlink := get16 d (32 * k + 3), i_size := get32 d (16 * k + 2),
     i_addrs := get_addrs d (16 * k + 3) (NDIRECT + 2)\<rparr>"

definition write_dinode :: "inode \<Rightarrow> nat \<Rightarrow> block \<Rightarrow> block" where
  "write_dinode x k d =
     (let d1 = put16 d (32 * k) (i_type x);
          d2 = put16 d1 (32 * k + 1) (i_major x);
          d3 = put16 d2 (32 * k + 2) (i_minor x);
          d4 = put16 d3 (32 * k + 3) (i_nlink x);
          d5 = put32 d4 (16 * k + 2) (i_size x)
      in put_addrs d5 (16 * k + 3) (i_addrs x))"

text \<open>\<^verbatim>\<open>memset(dip, 0, sizeof(*dip)); dip->type = type\<close>\<close>

definition fresh_dinode :: "u16 \<Rightarrow> nat \<Rightarrow> block \<Rightarrow> block" where
  "fresh_dinode ty k d = put16 (take (64 * k) d @ replicate 64 0 @ drop (64 * k + 64) d) (32 * k) ty"

text \<open>The search of \<open>iget\<close> through the table from entry \<open>ip\<close> on, with the empty slot seen so far.\<close>

fun iget_scan :: "(nat \<Rightarrow> inode) \<Rightarrow> u32 \<Rightarrow> u32 \<Rightarrow> nat \<Rightarrow> nat \<Rightarrow> nat option \<Rightarrow> nat option \<times> nat option" where
  "iget_scan t dev inum ip 0 free = (None, free)"
| "iget_scan t dev inum ip (Suc k) free =
     (if i_ref (t ip) > 0 \<and> i_dev (t ip) = dev \<and> i_inum (t ip) = inum then (Some ip, free)
      else iget_scan t dev inum (Suc ip) k
             (if free = None \<and> i_ref (t ip) = 0 then Some ip else free))"

definition iget :: "u32 \<Rightarrow> u32 \<Rightarrow> 'a fstate_scheme \<Rightarrow> (nat \<times> 'a fstate_scheme) outcome" where
  "iget dev inum s =
     (case iget_scan (inodes s) dev inum 0 NINODE None of
        (Some ip, _) \<Rightarrow> Ok (ip, upd_ino ip (\<lambda>x. x\<lparr>i_ref := i_ref x + 1\<rparr>) s)
      | (None, None) \<Rightarrow> Panic ''iget: no inodes''
      | (None, Some ip) \<Rightarrow>
          Ok (ip, upd_ino ip (\<lambda>x. x\<lparr>i_dev := dev, i_inum := inum, i_ref := 1, i_valid := False\<rparr>) s))"

text \<open>The loop of \<open>ialloc\<close> from inode number \<open>inum\<close> with \<open>k\<close> numbers to go.\<close>

fun ialloc_loop :: "int \<Rightarrow> u32 \<Rightarrow> u16 \<Rightarrow> nat \<Rightarrow> nat \<Rightarrow> 'a fstate_scheme \<Rightarrow> (nat \<times> 'a fstate_scheme) outcome" where
  "ialloc_loop me dev ty inum 0 s = Panic ''ialloc: no inodes''"
| "ialloc_loop me dev ty inum (Suc k) s =
     obind (bread me dev (IBLOCK (of_nat inum) (fsb s)) s) (\<lambda>(bp, s1).
       let d = b_data (bufs s1 bp) in
       if dinode_type d (inum mod IPB) = 0 then
         obind (log_write bp (set_data bp (fresh_dinode ty (inum mod IPB) d) s1)) (\<lambda>s2.
         obind (brelse me bp s2) (\<lambda>s3.
         iget dev (of_nat inum) s3))
       else obind (brelse me bp s1) (\<lambda>s2. ialloc_loop me dev ty (Suc inum) k s2))"

definition ialloc :: "int \<Rightarrow> u32 \<Rightarrow> u16 \<Rightarrow> 'a fstate_scheme \<Rightarrow> (nat \<times> 'a fstate_scheme) outcome" where
  "ialloc me dev ty s = ialloc_loop me dev ty 1 (unat (sb_ninodes (fsb s)) - 1) s"

definition iupdate :: "int \<Rightarrow> nat \<Rightarrow> 'a fstate_scheme \<Rightarrow> 'a fstate_scheme outcome" where
  "iupdate me ip s =
     obind (bread me (i_dev (inodes s ip)) (IBLOCK (i_inum (inodes s ip)) (fsb s)) s) (\<lambda>(bp, s1).
       let x = inodes s1 ip;
           d = write_dinode x (unat (i_inum x) mod IPB) (b_data (bufs s1 bp))
       in obind (log_write bp (set_data bp d s1)) (\<lambda>s2. brelse me bp s2))"

definition idup :: "nat \<Rightarrow> 'a fstate_scheme \<Rightarrow> nat \<times> 'a fstate_scheme" where
  "idup ip s = (ip, upd_ino ip (\<lambda>x. x\<lparr>i_ref := i_ref x + 1\<rparr>) s)"

definition ilock :: "int \<Rightarrow> nat \<Rightarrow> 'a fstate_scheme \<Rightarrow> 'a fstate_scheme outcome" where
  "ilock me ip s =
     (if i_ref (inodes s ip) < 1 then Panic ''ilock''
      else obind (acquiresleep me (i_lock (inodes s ip))) (\<lambda>lk.
        let s1 = upd_ino ip (\<lambda>x. x\<lparr>i_lock := lk\<rparr>) s in
        if \<not> i_valid (inodes s1 ip) then
          obind (bread me (i_dev (inodes s1 ip)) (IBLOCK (i_inum (inodes s1 ip)) (fsb s1)) s1) (\<lambda>(bp, s2).
            let s3 = upd_ino ip (read_dinode (b_data (bufs s2 bp)) (unat (i_inum (inodes s2 ip)) mod IPB)) s2
            in obind (brelse me bp s3) (\<lambda>s4.
              let s5 = upd_ino ip (\<lambda>x. x\<lparr>i_valid := True\<rparr>) s4 in
              if i_type (inodes s5 ip) = 0 then Panic ''ilock: no type'' else Ok s5))
        else Ok s1))"

definition iunlock :: "int \<Rightarrow> nat \<Rightarrow> 'a fstate_scheme \<Rightarrow> 'a fstate_scheme outcome" where
  "iunlock me ip s =
     (if \<not> holdingsleep me (i_lock (inodes s ip)) \<or> i_ref (inodes s ip) < 1 then Panic ''iunlock''
      else Ok (upd_ino ip (\<lambda>x. x\<lparr>i_lock := releasesleep (i_lock x)\<rparr>) s))"

section \<open>Inode contents\<close>

definition set_addr :: "nat \<Rightarrow> nat \<Rightarrow> u32 \<Rightarrow> 'a fstate_scheme \<Rightarrow> 'a fstate_scheme" where
  "set_addr ip i a s = upd_ino ip (\<lambda>x. x\<lparr>i_addrs := (i_addrs x)[i := a]\<rparr>) s"

text \<open>
  Entry \<open>i\<close> of the block of addresses in buffer \<open>bp\<close>, allocated when it is 0:
  \<^verbatim>\<open>if((addr = a[bn]) == 0){ a[bn] = addr = balloc(ip->dev); log_write(bp); }\<close>
\<close>

definition bmap_entry :: "int \<Rightarrow> u32 \<Rightarrow> nat \<Rightarrow> nat \<Rightarrow> 'a fstate_scheme \<Rightarrow> (u32 \<times> 'a fstate_scheme) outcome" where
  "bmap_entry me dev bp i s =
     (let addr = get32 (b_data (bufs s bp)) i in
      if addr = 0 then
        obind (balloc me dev s) (\<lambda>(addr', s1).
        obind (log_write bp (set_data bp (put32 (b_data (bufs s1 bp)) i addr') s1)) (\<lambda>s2.
        Ok (addr', s2)))
      else Ok (addr, s))"

definition bmap :: "int \<Rightarrow> nat \<Rightarrow> nat \<Rightarrow> 'a fstate_scheme \<Rightarrow> (u32 \<times> 'a fstate_scheme) outcome" where
  "bmap me ip bn s =
     (let dev = i_dev (inodes s ip) in
      if bn < NDIRECT then
        let addr = i_addrs (inodes s ip) ! bn in
        if addr = 0 then
          obind (balloc me dev s) (\<lambda>(addr', s1). Ok (addr', set_addr ip bn addr' s1))
        else Ok (addr, s)
      else
        let bn1 = bn - NDIRECT in
        if bn1 < NINDIRECT then
          let addr = i_addrs (inodes s ip) ! NDIRECT in
          obind (if addr = 0
                 then obind (balloc me dev s) (\<lambda>(addr', s1). Ok (addr', set_addr ip NDIRECT addr' s1))
                 else Ok (addr, s)) (\<lambda>(addr, s1).
          obind (bread me dev addr s1) (\<lambda>(bp, s2).
          obind (bmap_entry me dev bp bn1 s2) (\<lambda>(addr, s3).
          obind (brelse me bp s3) (\<lambda>s4. Ok (addr, s4)))))
        else
          let bn2 = (bn1 - NINDIRECT) mod NINDIRECT;
              bn3 = (bn1 - NINDIRECT) div NINDIRECT
          in if bn3 < NINDIRECT then
               let addr = i_addrs (inodes s ip) ! (NDIRECT + 1) in
               obind (bread me dev addr s) (\<lambda>(bp, s1).
               obind (bmap_entry me dev bp bn3 s1) (\<lambda>(addr, s2).
               obind (bread me dev addr s2) (\<lambda>(bp2, s3).
               obind (bmap_entry me dev bp2 bn2 s3) (\<lambda>(addr, s4).
               obind (brelse me bp s4) (\<lambda>s5.
               obind (brelse me bp2 s5) (\<lambda>s6. Ok (addr, s6)))))))
             else Panic ''bmap: out of range'')"

fun itrunc_direct :: "int \<Rightarrow> nat \<Rightarrow> nat \<Rightarrow> nat \<Rightarrow> 'a fstate_scheme \<Rightarrow> 'a fstate_scheme outcome" where
  "itrunc_direct me ip i 0 s = Ok s"
| "itrunc_direct me ip i (Suc k) s =
     (let a = i_addrs (inodes s ip) ! i in
      if a \<noteq> 0 then
        obind (bfree me (i_dev (inodes s ip)) a s) (\<lambda>s1. itrunc_direct me ip (Suc i) k (set_addr ip i 0 s1))
      else itrunc_direct me ip (Suc i) k s)"

text \<open>The loop over the entries of an indirect block in buffer \<open>bp\<close>.\<close>

fun itrunc_entries :: "int \<Rightarrow> u32 \<Rightarrow> nat \<Rightarrow> nat \<Rightarrow> nat \<Rightarrow> 'a fstate_scheme \<Rightarrow> 'a fstate_scheme outcome" where
  "itrunc_entries me dev bp j 0 s = Ok s"
| "itrunc_entries me dev bp j (Suc k) s =
     (let a = get32 (b_data (bufs s bp)) j in
      if a \<noteq> 0 then obind (bfree me dev a s) (\<lambda>s1. itrunc_entries me dev bp (Suc j) k s1)
      else itrunc_entries me dev bp (Suc j) k s)"

fun itrunc_double :: "int \<Rightarrow> u32 \<Rightarrow> nat \<Rightarrow> nat \<Rightarrow> nat \<Rightarrow> 'a fstate_scheme \<Rightarrow> 'a fstate_scheme outcome" where
  "itrunc_double me dev bp j 0 s = Ok s"
| "itrunc_double me dev bp j (Suc k) s =
     (let a = get32 (b_data (bufs s bp)) j in
      if a \<noteq> 0 then
        obind (bread me dev a s) (\<lambda>(bp2, s1).
        obind (itrunc_entries me dev bp2 0 NINDIRECT s1) (\<lambda>s2.
        obind (brelse me bp2 s2) (\<lambda>s3.
        obind (bfree me dev (get32 (b_data (bufs s3 bp)) j) s3) (\<lambda>s4.
        itrunc_double me dev bp (Suc j) k s4))))
      else itrunc_double me dev bp (Suc j) k s)"

definition itrunc :: "int \<Rightarrow> nat \<Rightarrow> 'a fstate_scheme \<Rightarrow> 'a fstate_scheme outcome" where
  "itrunc me ip s =
     obind (itrunc_direct me ip 0 NDIRECT s) (\<lambda>s1.
     let dev = i_dev (inodes s1 ip); a = i_addrs (inodes s1 ip) ! NDIRECT in
     obind (if a \<noteq> 0 then
              obind (bread me dev a s1) (\<lambda>(bp, s2).
              obind (itrunc_entries me dev bp 0 NINDIRECT s2) (\<lambda>s3.
              obind (brelse me bp s3) (\<lambda>s4.
              obind (bfree me dev (i_addrs (inodes s4 ip) ! NDIRECT) s4) (\<lambda>s5.
              Ok (set_addr ip NDIRECT 0 s5)))))
            else Ok s1) (\<lambda>s6.
     let a2 = i_addrs (inodes s6 ip) ! (NDIRECT + 1) in
     obind (if a2 \<noteq> 0 then
              obind (bread me dev a2 s6) (\<lambda>(bp, s7).
              obind (itrunc_double me dev bp 0 NINDIRECT s7) (\<lambda>s8.
              obind (brelse me bp s8) (\<lambda>s9.
              obind (bfree me dev (i_addrs (inodes s9 ip) ! (NDIRECT + 1)) s9) (\<lambda>s10.
              Ok (set_addr ip (NDIRECT + 1) 0 s10)))))
            else Ok s6) (\<lambda>s11.
     iupdate me ip (upd_ino ip (\<lambda>x. x\<lparr>i_size := 0\<rparr>) s11))))"

definition iput :: "int \<Rightarrow> nat \<Rightarrow> 'a fstate_scheme \<Rightarrow> 'a fstate_scheme outcome" where
  "iput me ip s =
     obind
       (if i_ref (inodes s ip) = 1 \<and> i_valid (inodes s ip) \<and> i_nlink (inodes s ip) = 0 then
          obind (acquiresleep me (i_lock (inodes s ip))) (\<lambda>lk.
          obind (itrunc me ip (upd_ino ip (\<lambda>x. x\<lparr>i_lock := lk\<rparr>) s)) (\<lambda>s1.
          obind (iupdate me ip (upd_ino ip (\<lambda>x. x\<lparr>i_type := 0\<rparr>) s1)) (\<lambda>s2.
          Ok (upd_ino ip (\<lambda>x. x\<lparr>i_valid := False, i_lock := releasesleep (i_lock x)\<rparr>) s2))))
        else Ok s) (\<lambda>s3.
     Ok (upd_ino ip (\<lambda>x. x\<lparr>i_ref := i_ref x - 1\<rparr>) s3))"

definition iunlockput :: "int \<Rightarrow> nat \<Rightarrow> 'a fstate_scheme \<Rightarrow> 'a fstate_scheme outcome" where
  "iunlockput me ip s = obind (iunlock me ip s) (\<lambda>s1. iput me ip s1)"

record stat =
  st_dev :: u32
  st_ino :: u32
  st_type :: u16
  st_nlink :: u16
  st_size :: u64

definition stati :: "nat \<Rightarrow> 'a fstate_scheme \<Rightarrow> stat" where
  "stati ip s = \<lparr>st_dev = i_dev (inodes s ip), st_ino = i_inum (inodes s ip), st_type = i_type (inodes s ip),
     st_nlink = i_nlink (inodes s ip), st_size = ucast (i_size (inodes s ip))\<rparr>"

text \<open>
  \<^verbatim>\<open>m = min(n - tot, BSIZE - off%BSIZE)\<close>: the bytes of the transfer that lie in the block of \<open>off\<close>.
\<close>

definition blk_part :: "nat \<Rightarrow> nat \<Rightarrow> nat" where
  "blk_part rest off = min rest (BSIZE - off mod BSIZE)"

lemma blk_part_pos: "0 < rest \<Longrightarrow> 0 < blk_part rest off"
  by (simp add: blk_part_def BSIZE_def)

text \<open>
  The loop of \<open>readi\<close>; \<open>tot\<close> of \<open>n\<close> bytes are done. \<open>cout\<close> returns whether the copy succeeded and
  the destination memory after it.
\<close>

function readi_loop :: "int \<Rightarrow> (u64 \<Rightarrow> u8 list \<Rightarrow> 'm \<Rightarrow> bool \<times> 'm) \<Rightarrow> nat \<Rightarrow> u64 \<Rightarrow> nat \<Rightarrow> nat \<Rightarrow> nat \<Rightarrow> 'm \<Rightarrow>
    'a fstate_scheme \<Rightarrow> (int \<times> 'm \<times> 'a fstate_scheme) outcome" where
  "readi_loop me cout ip dst off tot n mem s =
     (if tot < n then
        obind (bmap me ip (off div BSIZE) s) (\<lambda>(addr, s1).
        obind (bread me (i_dev (inodes s1 ip)) addr s1) (\<lambda>(bp, s2).
          let m = blk_part (n - tot) off;
              (ok, mem') = cout dst (take m (drop (off mod BSIZE) (b_data (bufs s2 bp)))) mem
          in obind (brelse me bp s2) (\<lambda>s3.
               if \<not> ok then Ok (-1, mem', s3)
               else readi_loop me cout ip (dst + of_nat m) (off + m) (tot + m) n mem' s3)))
      else Ok (int tot, mem, s))"
  by pat_completeness auto

termination readi_loop
proof (relation "measure (\<lambda>(me, cout, ip, dst, off, tot, n, mem, s). n - tot)", goal_cases)
  case (2 me cout ip dst off tot n)
  then show ?case using blk_part_pos [of "n - tot" off] by auto
qed simp

declare readi_loop.simps [simp del]

definition readi :: "int \<Rightarrow> (u64 \<Rightarrow> u8 list \<Rightarrow> 'm \<Rightarrow> bool \<times> 'm) \<Rightarrow> nat \<Rightarrow> u64 \<Rightarrow> u32 \<Rightarrow> u32 \<Rightarrow> 'm \<Rightarrow>
    'a fstate_scheme \<Rightarrow> (int \<times> 'm \<times> 'a fstate_scheme) outcome" where
  "readi me cout ip dst off n mem s =
     (let sz = i_size (inodes s ip) in
      if off > sz \<or> off + n < off then Ok (0, mem, s)
      else let n' = (if off + n > sz then sz - off else n)
           in readi_loop me cout ip dst (unat off) 0 (unat n') mem s)"

text \<open>
  \<open>cin src m\<close> gives the bytes the copy stores into the block and whether it succeeded; a copy that
  fails part of the way has stored a prefix. The loop returns how far it came.
\<close>

function writei_loop :: "int \<Rightarrow> (u64 \<Rightarrow> nat \<Rightarrow> u8 list \<times> bool) \<Rightarrow> nat \<Rightarrow> u64 \<Rightarrow> nat \<Rightarrow> nat \<Rightarrow> nat \<Rightarrow>
    'a fstate_scheme \<Rightarrow> (nat \<times> nat \<times> 'a fstate_scheme) outcome" where
  "writei_loop me cin ip src off tot n s =
     (if tot < n then
        obind (bmap me ip (off div BSIZE) s) (\<lambda>(addr, s1).
        obind (bread me (i_dev (inodes s1 ip)) addr s1) (\<lambda>(bp, s2).
          let m = blk_part (n - tot) off;
              (bs, ok) = cin src m;
              d = b_data (bufs s2 bp);
              o1 = off mod BSIZE;
              s3 = set_data bp (take o1 d @ bs @ drop (o1 + length bs) d) s2
          in if \<not> ok then obind (brelse me bp s3) (\<lambda>s4. Ok (tot, off, s4))
             else obind (log_write bp s3) (\<lambda>s4.
                  obind (brelse me bp s4) (\<lambda>s5.
                  writei_loop me cin ip (src + of_nat m) (off + m) (tot + m) n s5))))
      else Ok (tot, off, s))"
  by pat_completeness auto

termination writei_loop
proof (relation "measure (\<lambda>(me, cin, ip, src, off, tot, n, s). n - tot)", goal_cases)
  case (2 me cin ip src off tot n)
  then show ?case using blk_part_pos [of "n - tot" off] by auto
qed simp

declare writei_loop.simps [simp del]

definition writei :: "int \<Rightarrow> (u64 \<Rightarrow> nat \<Rightarrow> u8 list \<times> bool) \<Rightarrow> nat \<Rightarrow> u64 \<Rightarrow> u32 \<Rightarrow> u32 \<Rightarrow>
    'a fstate_scheme \<Rightarrow> (int \<times> 'a fstate_scheme) outcome" where
  "writei me cin ip src off n s =
     (if off > i_size (inodes s ip) \<or> off + n < off then Ok (-1, s)
      else if unat (off + n) > MAXFILE * BSIZE then Ok (-1, s)
      else obind (writei_loop me cin ip src (unat off) 0 (unat n) s) (\<lambda>(tot, off', s1).
        let s2 = (if off' > unat (i_size (inodes s1 ip))
                  then upd_ino ip (\<lambda>x. x\<lparr>i_size := of_nat off'\<rparr>) s1 else s1)
        in obind (iupdate me ip s2) (\<lambda>s3. Ok (int tot, s3))))"

section \<open>Directories\<close>

text \<open>\<^verbatim>\<open>strncmp\<close> on two character arrays, from index \<open>i\<close> with \<open>k\<close> characters to go.\<close>

fun strncmp_at :: "u8 list \<Rightarrow> u8 list \<Rightarrow> nat \<Rightarrow> nat \<Rightarrow> int" where
  "strncmp_at p q i 0 = 0"
| "strncmp_at p q i (Suc k) =
     (if p ! i \<noteq> 0 \<and> p ! i = q ! i then strncmp_at p q (Suc i) k
      else int (unat (p ! i)) - int (unat (q ! i)))"

definition namecmp :: "u8 list \<Rightarrow> u8 list \<Rightarrow> int" where
  "namecmp s t = strncmp_at s t 0 DIRSIZ"

text \<open>Kernel buffers: a copy out of a block appends to the bytes read so far.\<close>

definition kcout :: "u64 \<Rightarrow> u8 list \<Rightarrow> u8 list \<Rightarrow> bool \<times> u8 list" where
  "kcout dst bs acc = (True, acc @ bs)"

definition kcin :: "u8 list \<Rightarrow> u64 \<Rightarrow> nat \<Rightarrow> u8 list \<times> bool" where
  "kcin bs src m = (take m (drop (unat src) bs), True)"

definition de_inum :: "u8 list \<Rightarrow> u16" where "de_inum de = get16 de 0"
definition de_name :: "u8 list \<Rightarrow> u8 list" where "de_name de = take DIRSIZ (drop 2 de)"
definition dirent_size :: nat where "dirent_size = 16"

text \<open>
  The loop of \<open>dirlookup\<close> from entry offset \<open>off\<close>; \<open>k\<close> entries are left. Result: the inode and the
  offset of the entry.
\<close>

fun dirlookup_loop :: "int \<Rightarrow> nat \<Rightarrow> u8 list \<Rightarrow> nat \<Rightarrow> nat \<Rightarrow> 'a fstate_scheme \<Rightarrow>
    ((nat \<times> nat) option \<times> 'a fstate_scheme) outcome" where
  "dirlookup_loop me dp name off 0 s = Ok (None, s)"
| "dirlookup_loop me dp name off (Suc k) s =
     obind (readi me kcout dp 0 (of_nat off) (of_nat dirent_size) [] s) (\<lambda>(r, de, s1).
       if r \<noteq> int dirent_size then Panic ''dirlookup read''
       else if de_inum de = 0 then dirlookup_loop me dp name (off + dirent_size) k s1
       else if namecmp name (de_name de) = 0 then
         obind (iget (i_dev (inodes s1 dp)) (ucast (de_inum de)) s1) (\<lambda>(ip, s2). Ok (Some (ip, off), s2))
       else dirlookup_loop me dp name (off + dirent_size) k s1)"

text \<open>The number of iterations of \<^verbatim>\<open>for(off = 0; off < dp->size; off += sizeof(de))\<close>.\<close>

definition dir_slots :: "u32 \<Rightarrow> nat" where
  "dir_slots sz = (unat sz + dirent_size - 1) div dirent_size"

definition dirlookup :: "int \<Rightarrow> nat \<Rightarrow> u8 list \<Rightarrow> 'a fstate_scheme \<Rightarrow>
    ((nat \<times> nat) option \<times> 'a fstate_scheme) outcome" where
  "dirlookup me dp name s =
     (if i_type (inodes s dp) \<noteq> T_DIR then Panic ''dirlookup not DIR''
      else dirlookup_loop me dp name 0 (dir_slots (i_size (inodes s dp))) s)"

text \<open>The search of \<open>dirlink\<close> for an empty entry: the offset where the loop stops.\<close>

fun dirlink_slot :: "int \<Rightarrow> nat \<Rightarrow> nat \<Rightarrow> nat \<Rightarrow> 'a fstate_scheme \<Rightarrow> (nat \<times> 'a fstate_scheme) outcome" where
  "dirlink_slot me dp off 0 s = Ok (off, s)"
| "dirlink_slot me dp off (Suc k) s =
     obind (readi me kcout dp 0 (of_nat off) (of_nat dirent_size) [] s) (\<lambda>(r, de, s1).
       if r \<noteq> int dirent_size then Panic ''dirlink read''
       else if de_inum de = 0 then Ok (off, s1)
       else dirlink_slot me dp (off + dirent_size) k s1)"

text \<open>\<^verbatim>\<open>strncpy(de.name, name, DIRSIZ)\<close>: the name up to its NUL, padded with NULs.\<close>

definition name_field :: "u8 list \<Rightarrow> u8 list" where
  "name_field name = (let w = takeWhile (\<lambda>c. c \<noteq> 0) (take DIRSIZ name) in w @ replicate (DIRSIZ - length w) 0)"

definition dirent_bytes :: "u16 \<Rightarrow> u8 list \<Rightarrow> u8 list" where
  "dirent_bytes inum name = put16 [0, 0] 0 inum @ name_field name"

definition dirlink :: "int \<Rightarrow> nat \<Rightarrow> u8 list \<Rightarrow> u32 \<Rightarrow> 'a fstate_scheme \<Rightarrow> (int \<times> 'a fstate_scheme) outcome" where
  "dirlink me dp name inum s =
     obind (dirlookup me dp name s) (\<lambda>(r, s1).
       case r of
         Some (ip, off) \<Rightarrow> obind (iput me ip s1) (\<lambda>s2. Ok (-1, s2))
       | None \<Rightarrow>
           obind (dirlink_slot me dp 0 (dir_slots (i_size (inodes s1 dp))) s1) (\<lambda>(off, s2).
           obind (writei me (kcin (dirent_bytes (ucast inum) name)) dp 0 (of_nat off) (of_nat dirent_size) s2) (\<lambda>(w, s3).
             if w \<noteq> int dirent_size then Panic ''dirlink'' else Ok (0, s3))))"

section \<open>Paths\<close>

text \<open>
  Path strings are byte lists without their NUL. \<open>skipelem\<close> returns the rest of the path and the
  \<^verbatim>\<open>name\<close> array, of which it overwrites the element and its NUL.
\<close>

definition slash :: u8 where "slash = 0x2F"

definition skipelem :: "u8 list \<Rightarrow> u8 list \<Rightarrow> (u8 list \<times> u8 list) option" where
  "skipelem path name =
     (let p1 = dropWhile (\<lambda>c. c = slash) path in
      if p1 = [] then None
      else
        let el = takeWhile (\<lambda>c. c \<noteq> slash) p1;
            p2 = dropWhile (\<lambda>c. c \<noteq> slash) p1;
            name' = (if length el \<ge> DIRSIZ then take DIRSIZ el
                     else el @ [0] @ drop (length el + 1) name)
        in Some (dropWhile (\<lambda>c. c = slash) p2, name'))"

lemma skipelem_shorter: "skipelem path name = Some (path', name') \<Longrightarrow> length path' < length path"
proof -
  assume sk: "skipelem path name = Some (path', name')"
  let ?p1 = "dropWhile (\<lambda>c. c = slash) path"
  have p1: "?p1 \<noteq> []" and p': "path' = dropWhile (\<lambda>c. c = slash) (dropWhile (\<lambda>c. c \<noteq> slash) ?p1)"
    using sk by (auto simp: skipelem_def Let_def split: if_splits)
  have "hd ?p1 \<noteq> slash" using hd_dropWhile [OF p1] by simp
  then have "length (dropWhile (\<lambda>c. c \<noteq> slash) ?p1) < length ?p1"
    using p1 by (cases ?p1) (auto simp: le_imp_less_Suc length_dropWhile_le)
  moreover have "length path' \<le> length (dropWhile (\<lambda>c. c \<noteq> slash) ?p1)"
    unfolding p' by (rule length_dropWhile_le)
  moreover have "length ?p1 \<le> length path" by (rule length_dropWhile_le)
  ultimately show ?thesis by linarith
qed

text \<open>The loop of \<open>namex\<close>; \<open>np\<close> is its argument \<^verbatim>\<open>nameiparent\<close>.\<close>

function namex_loop :: "int \<Rightarrow> bool \<Rightarrow> u8 list \<Rightarrow> u8 list \<Rightarrow> nat \<Rightarrow> 'a fstate_scheme \<Rightarrow>
    (nat option \<times> u8 list \<times> 'a fstate_scheme) outcome" where
  "namex_loop me np path name ip s =
     (case skipelem path name of
        None \<Rightarrow>
          if np then obind (iput me ip s) (\<lambda>s1. Ok (None, name, s1)) else Ok (Some ip, name, s)
      | Some (path', name') \<Rightarrow>
          obind (ilock me ip s) (\<lambda>s1.
            if i_type (inodes s1 ip) \<noteq> T_DIR then
              obind (iunlockput me ip s1) (\<lambda>s2. Ok (None, name', s2))
            else if np \<and> path' = [] then
              obind (iunlock me ip s1) (\<lambda>s2. Ok (Some ip, name', s2))
            else
              obind (dirlookup me ip name' s1) (\<lambda>(r, s2).
                case r of
                  None \<Rightarrow> obind (iunlockput me ip s2) (\<lambda>s3. Ok (None, name', s3))
                | Some (next, off) \<Rightarrow>
                    obind (iunlockput me ip s2) (\<lambda>s3. namex_loop me np path' name' next s3))))"
  by pat_completeness auto

termination namex_loop
  by (relation "measure (\<lambda>(me, np, path, name, ip, s). length path)") (auto simp: skipelem_shorter)

declare namex_loop.simps [simp del]

text \<open>\<open>cwd\<close> is \<^verbatim>\<open>myproc()->cwd\<close>; a null pointer faults in \<open>idup\<close>.\<close>

definition namex :: "int \<Rightarrow> nat option \<Rightarrow> u8 list \<Rightarrow> bool \<Rightarrow> u8 list \<Rightarrow> 'a fstate_scheme \<Rightarrow>
    (nat option \<times> u8 list \<times> 'a fstate_scheme) outcome" where
  "namex me cwd path np name s =
     obind (if path \<noteq> [] \<and> hd path = slash then iget ROOTDEV ROOTINO s
       else case cwd of None \<Rightarrow> Panic ''kerneltrap'' | Some c \<Rightarrow> Ok (idup c s)) (\<lambda>(ip, s1).
     namex_loop me np path name ip s1)"

text \<open>The \<^verbatim>\<open>name\<close> array of \<open>namei\<close> is uninitialised; its contents never matter.\<close>

definition namei :: "int \<Rightarrow> nat option \<Rightarrow> u8 list \<Rightarrow> 'a fstate_scheme \<Rightarrow> (nat option \<times> 'a fstate_scheme) outcome" where
  "namei me cwd path s =
     obind (namex me cwd path False (replicate DIRSIZ 0) s) (\<lambda>(r, name, s1). Ok (r, s1))"

definition nameiparent :: "int \<Rightarrow> nat option \<Rightarrow> u8 list \<Rightarrow> u8 list \<Rightarrow> 'a fstate_scheme \<Rightarrow>
    (nat option \<times> u8 list \<times> 'a fstate_scheme) outcome" where
  "nameiparent me cwd path name s = namex me cwd path True name s"

end
