(* ===== verification/Fs_Layout.thy ===== *)
theory Fs_Layout
  imports Fs
begin

text \<open>
  The data formats of \<^verbatim>\<open>kernel/fs.c\<close>: writing an inode into its slot of an inode block and reading
  it back, directory entries, names and paths. The lemmas are round trips, and an equivalence of
  the path walk by \<open>skipelem\<close> with splitting the path at its slashes.
\<close>

section \<open>On-disk inodes\<close>

lemma length_put_addrs [simp]: "length (put_addrs d k as) = length d"
  by (induction as arbitrary: d k) auto

lemma get32_put_addrs_before: "j < k \<Longrightarrow> get32 (put_addrs d k as) j = get32 d j"
  by (induction as arbitrary: d k) auto

lemma get32_put_addrs_after: "k + length as \<le> j \<Longrightarrow> get32 (put_addrs d k as) j = get32 d j"
  by (induction as arbitrary: d k) auto

lemma get16_put_addrs_before: "j < 2 * k \<Longrightarrow> get16 (put_addrs d k as) j = get16 d j"
  by (induction as arbitrary: d k) auto

lemma get16_put_addrs_after: "2 * (k + length as) \<le> j \<Longrightarrow> get16 (put_addrs d k as) j = get16 d j"
  by (induction as arbitrary: d k) auto

lemma get_addrs_put_addrs:
  assumes "4 * (k + length as) \<le> length d"
  shows "get_addrs (put_addrs d k as) k (length as) = as"
  using assms
proof (induction as arbitrary: d k)
  case (Cons a as)
  then show ?case by (simp add: get32_put_addrs_before)
qed simp

lemma get_addrs_put_addrs_before: "j + n \<le> k \<Longrightarrow> get_addrs (put_addrs d k as) j n = get_addrs d j n"
  by (induction n arbitrary: j) (auto simp: get32_put_addrs_before)

lemma get_addrs_put_addrs_after: "k + length as \<le> j \<Longrightarrow> get_addrs (put_addrs d k as) j n = get_addrs d j n"
  by (induction n arbitrary: j) (auto simp: get32_put_addrs_after)

lemma get_addrs_put32: "k < j \<or> j + n \<le> k \<Longrightarrow> get_addrs (put32 d k v) j n = get_addrs d j n"
  by (induction n arbitrary: j) auto

lemma get_addrs_put16: "i < 2 * j \<or> 2 * (j + n) \<le> i \<Longrightarrow> get_addrs (put16 d i v) j n = get_addrs d j n"
  by (induction n arbitrary: j) auto

lemma length_write_dinode [simp]: "length (write_dinode x k d) = length d"
  by (simp add: write_dinode_def Let_def)

text \<open>
  C12: an inode written to slot \<open>k\<close> of an inode block by \<open>iupdate\<close> is what \<open>ilock\<close> reads back from
  that slot, and the inodes in the other slots of the block read as before.
\<close>

theorem dinode_roundtrip:
  assumes "length d = BSIZE" and "k < IPB" and "length (i_addrs x) = NDIRECT + 2"
  shows "read_dinode (write_dinode x k d) k y = y\<lparr>i_type := i_type x, i_major := i_major x,
      i_minor := i_minor x, i_nlink := i_nlink x, i_size := i_size x, i_addrs := i_addrs x\<rparr> \<and>
    (\<forall>j. j \<noteq> k \<longrightarrow> read_dinode (write_dinode x k d) j y = read_dinode d j y)"
proof -
  have len: "length d = 1024" "k < 16" "length (i_addrs x) = 13"
    using assms by (simp_all add: BSIZE_def IPB_def NDIRECT_def)
  have a: "get_addrs (put_addrs e (16 * k + 3) (i_addrs x)) (16 * k + 3) 13 = i_addrs x"
    if "length e = 1024" for e
    using get_addrs_put_addrs [of "16 * k + 3" "i_addrs x" e] that len by simp
  have other: "read_dinode (write_dinode x k d) j y = read_dinode d j y" if "j \<noteq> k" for j
  proof (cases "j < k")
    case True
    then show ?thesis
      using len by (simp add: read_dinode_def write_dinode_def Let_def NDIRECT_def get16_put_addrs_before
          get32_put_addrs_before get_addrs_put_addrs_before get_addrs_put32 get_addrs_put16)
  next
    case False
    then have "k < j" using that by simp
    then show ?thesis
      using len by (simp add: read_dinode_def write_dinode_def Let_def NDIRECT_def get16_put_addrs_after
          get32_put_addrs_after get_addrs_put_addrs_after get_addrs_put32 get_addrs_put16)
  qed
  have "read_dinode (write_dinode x k d) k y = y\<lparr>i_type := i_type x, i_major := i_major x,
      i_minor := i_minor x, i_nlink := i_nlink x, i_size := i_size x, i_addrs := i_addrs x\<rparr>"
    using len a by (simp add: read_dinode_def write_dinode_def Let_def NDIRECT_def get16_put_addrs_before
        get32_put_addrs_before)
  with other show ?thesis by blast
qed

definition example_inode :: inode where
  "example_inode = \<lparr>i_dev = 1, i_inum = 18, i_ref = 1, i_lock = initsleeplock, i_valid = True, i_type = T_FILE,
     i_major = 0, i_minor = 0, i_nlink = 1, i_size = 5000, i_addrs = [50, 51, 52, 53, 54, 0, 0, 0, 0, 0, 0, 0, 0]\<rparr>"

theorem dinode_roundtrip_witness:
  "read_dinode (write_dinode example_inode 2 (replicate BSIZE 0)) 2 example_inode = example_inode \<and>
   read_dinode (write_dinode example_inode 2 (replicate BSIZE 0)) 3 example_inode =
     read_dinode (replicate BSIZE 0) 3 example_inode"
  using dinode_roundtrip [of "replicate BSIZE 0" 2 example_inode example_inode]
  by (simp add: IPB_def BSIZE_def NDIRECT_def example_inode_def)

section \<open>Names\<close>

text \<open>The string a name array of \<open>DIRSIZ\<close> bytes holds: up to its first NUL, if it has one.\<close>

definition name_str :: "u8 list \<Rightarrow> u8 list" where
  "name_str a = takeWhile (\<lambda>c. c \<noteq> 0) (take DIRSIZ a)"

lemma strncmp_at_0_iff:
  assumes "i + k \<le> length p" and "i + k \<le> length q"
  shows "strncmp_at p q i k = 0 \<longleftrightarrow>
    takeWhile (\<lambda>c. c \<noteq> 0) (take k (drop i p)) = takeWhile (\<lambda>c. c \<noteq> 0) (take k (drop i q))"
  using assms
proof (induction k arbitrary: i)
  case (Suc k)
  have p: "drop i p = p ! i # drop (Suc i) p" and q: "drop i q = q ! i # drop (Suc i) q"
    using Suc.prems by (simp_all add: Cons_nth_drop_Suc)
  have eq: "uint a = uint b \<longleftrightarrow> a = b" and eq0: "uint a = 0 \<longleftrightarrow> a = 0" for a b :: u8
    by (simp_all add: word_uint_eq_iff)
  show ?case
    using Suc.IH [of "Suc i"] Suc.prems by (auto simp: p q eq eq0)
qed simp

lemma namecmp_0_iff:
  assumes "DIRSIZ \<le> length s" and "DIRSIZ \<le> length t"
  shows "namecmp s t = 0 \<longleftrightarrow> name_str s = name_str t"
  using strncmp_at_0_iff [of 0 DIRSIZ s t] assms by (simp add: namecmp_def name_str_def)

lemma takeWhile_pad: "takeWhile (\<lambda>c. c \<noteq> 0) (takeWhile (\<lambda>c. c \<noteq> (0::u8)) xs @ replicate n 0) = takeWhile (\<lambda>c. c \<noteq> 0) xs"
  by (induction xs) (auto simp: takeWhile_replicate)

text \<open>
  C14: a directory entry made by \<open>dirlink\<close> for a name matches exactly the lookups of \<open>dirlookup\<close>
  for the same name, where two name arrays are the same when they agree up to a NUL or to their 14
  characters; and it carries the inode number.
\<close>

theorem dirent_matches:
  assumes "DIRSIZ \<le> length name" and "DIRSIZ \<le> length other"
  shows "de_inum (dirent_bytes inum name) = inum \<and>
    (namecmp other (de_name (dirent_bytes inum name)) = 0 \<longleftrightarrow> name_str other = name_str name)"
proof -
  have len: "length (name_field name) = DIRSIZ"
    using length_takeWhile_le [of "\<lambda>c. c \<noteq> 0" "take DIRSIZ name"] assms(1)
    by (simp add: name_field_def Let_def)
  have nm: "de_name (dirent_bytes inum name) = name_field name"
    using len by (simp add: de_name_def dirent_bytes_def)
  have "name_str (name_field name) = name_str name"
  proof -
    have "take DIRSIZ (name_field name) = name_field name" using len by simp
    then show ?thesis by (simp add: name_str_def name_field_def Let_def takeWhile_pad)
  qed
  moreover have "de_inum (dirent_bytes inum name) = inum"
  proof -
    have "get16 (put16 [0, 0] 0 inum @ name_field name) 0 = get16 (put16 [0, 0] 0 inum) 0"
      by (simp add: get16_def nth_append)
    then show ?thesis by (simp add: de_inum_def dirent_bytes_def)
  qed
  ultimately show ?thesis using nm namecmp_0_iff [of other "name_field name"] len assms(2) by simp
qed

theorem dirent_matches_witness:
  "de_inum (dirent_bytes 7 (replicate 14 97)) = 7 \<and>
   (namecmp (replicate 13 97 @ [0]) (de_name (dirent_bytes 7 (replicate 14 97))) = 0 \<longleftrightarrow>
    name_str (replicate 13 97 @ [0]) = name_str (replicate 14 97))"
  by (rule dirent_matches) (simp_all add: DIRSIZ_def)

section \<open>Paths\<close>

text \<open>The reference: the maximal runs of characters other than the slash.\<close>

lemma dropWhile_shorter:
  "p \<noteq> [] \<Longrightarrow> \<not> P (hd p) \<Longrightarrow> length (dropWhile (\<lambda>c. \<not> P c) p) < length p"
  by (cases p) (auto simp: le_imp_less_Suc length_dropWhile_le)

function path_elems :: "u8 list \<Rightarrow> u8 list list" where
  "path_elems path =
     (let p1 = dropWhile (\<lambda>c. c = slash) path in
      if p1 = [] then []
      else takeWhile (\<lambda>c. c \<noteq> slash) p1 # path_elems (dropWhile (\<lambda>c. c \<noteq> slash) p1))"
  by pat_completeness auto

termination path_elems
proof (relation "measure length", goal_cases)
  case (2 path p1)
  have "hd p1 \<noteq> slash" using hd_dropWhile [of "\<lambda>c. c = slash" path] 2 by auto
  then have "length (dropWhile (\<lambda>c. c \<noteq> slash) p1) < length p1"
    using dropWhile_shorter [of p1 "\<lambda>c. c = slash"] 2(2) by blast
  moreover have "length p1 \<le> length path" unfolding 2 by (rule length_dropWhile_le)
  ultimately show ?case by simp
qed simp

declare path_elems.simps [simp del]

text \<open>The names \<open>namex\<close> looks up, one call of \<open>skipelem\<close> after the other.\<close>

function skip_all :: "u8 list \<Rightarrow> u8 list \<Rightarrow> u8 list list" where
  "skip_all path name =
     (case skipelem path name of None \<Rightarrow> [] | Some (path', name') \<Rightarrow> name' # skip_all path' name')"
  by pat_completeness auto

termination skip_all
  by (relation "measure (\<lambda>(path, name). length path)") (auto simp: skipelem_shorter)

declare skip_all.simps [simp del]

lemma path_elems_skip: "path_elems (dropWhile (\<lambda>c. c = slash) p) = path_elems p"
  by (simp add: path_elems.simps [of p] path_elems.simps [of "dropWhile _ p"])

lemma skip_name:
  assumes "length name = DIRSIZ" and "0 \<notin> set el"
  shows "name_str (if length el \<ge> DIRSIZ then take DIRSIZ el else el @ [0] @ drop (length el + 1) name) = take DIRSIZ el"
    "length (if length el \<ge> DIRSIZ then take DIRSIZ el else el @ [0] @ drop (length el + 1) name) = DIRSIZ"
proof -
  have tw: "takeWhile (\<lambda>c. c \<noteq> 0) (xs @ 0 # ys) = xs" if "0 \<notin> set xs" for xs ys :: "u8 list"
    using that by (induction xs) auto
  have tw2: "takeWhile (\<lambda>c. c \<noteq> 0) xs = xs" if "0 \<notin> set xs" for xs :: "u8 list"
    using that by (induction xs) auto
  have "0 \<notin> set (take DIRSIZ el)" using assms(2) by (meson in_set_takeD)
  then show "name_str (if length el \<ge> DIRSIZ then take DIRSIZ el else el @ [0] @ drop (length el + 1) name) = take DIRSIZ el"
    using assms tw tw2 by (auto simp: name_str_def take_Cons' not_le)
  show "length (if length el \<ge> DIRSIZ then take DIRSIZ el else el @ [0] @ drop (length el + 1) name) = DIRSIZ"
    using assms by auto
qed

text \<open>
  C13: the calls of \<open>skipelem\<close> that \<open>namex\<close> makes for a path yield exactly the elements of the path
  in order, without empty ones however many slashes separate them, each cut to 14 characters.
\<close>

theorem skipelem_splits_path:
  assumes "length name = DIRSIZ" and "0 \<notin> set path"
  shows "map name_str (skip_all path name) = map (take DIRSIZ) (path_elems path)"
  using assms
proof (induction path name rule: skip_all.induct)
  case (1 path name)
  let ?p1 = "dropWhile (\<lambda>c. c = slash) path"
  let ?el = "takeWhile (\<lambda>c. c \<noteq> slash) ?p1"
  let ?name = "if length ?el \<ge> DIRSIZ then take DIRSIZ ?el else ?el @ [0] @ drop (length ?el + 1) name"
  let ?rest = "dropWhile (\<lambda>c. c = slash) (dropWhile (\<lambda>c. c \<noteq> slash) ?p1)"
  show ?case
  proof (cases "?p1 = []")
    case True
    then show ?thesis
      by (simp add: skip_all.simps [of path] path_elems.simps [of path] skipelem_def)
  next
    case False
    then have sk: "skipelem path name = Some (?rest, ?name)" by (simp add: skipelem_def Let_def)
    have "0 \<notin> set ?p1" using "1.prems"(2) by (meson set_dropWhileD)
    then have el: "0 \<notin> set ?el" and rest: "0 \<notin> set ?rest"
      by (meson set_takeWhileD) (metis "1.prems"(2) set_dropWhileD)
    note nm = skip_name [OF "1.prems"(1) el]
    have "map name_str (skip_all ?rest ?name) = map (take DIRSIZ) (path_elems ?rest)"
      using "1.IH" [OF sk refl nm(2) rest] .
    then show ?thesis
      using False nm(1) path_elems_skip [of "dropWhile (\<lambda>c. c \<noteq> slash) ?p1"]
      by (simp add: skip_all.simps [of path] sk path_elems.simps [of path] Let_def)
  qed
qed

theorem skipelem_splits_path_witness:
  "map name_str (skip_all [slash, slash, 97, slash, slash, 98, 98] (replicate 14 0)) =
   map (take DIRSIZ) (path_elems [slash, slash, 97, slash, slash, 98, 98])"
  by (rule skipelem_splits_path) (simp_all add: DIRSIZ_def slash_def)

end
