(* ===== verification/Ring.thy ===== *)
theory Ring
  imports Prelude
begin

text \<open>
  Ring buffers. The kernel has three: the pipe, the console input and the serial output, each an
  array of \<open>N\<close> bytes with two counters that only ever grow, wrap around at the width of their type and
  are reduced modulo \<open>N\<close> at each access. \<open>word_ring\<close> collects what makes this work (\<open>N\<close> divides
  the range of the counters) and gives the effect of the accesses on the contents; \<open>bounded_queue\<close> is
  the contract a user of such a buffer relies on.
\<close>

section \<open>The contract of a ring buffer\<close>

locale bounded_queue =
  fixes inv :: "'q \<Rightarrow> bool"
    and cont :: "'q \<Rightarrow> 'a list"
    and cap :: nat
    and full :: "'q \<Rightarrow> bool"
    and empty :: "'q \<Rightarrow> bool"
    and enq :: "'a \<Rightarrow> 'q \<Rightarrow> 'q"
    and deq :: "'q \<Rightarrow> 'a \<times> 'q"
  assumes enq_ok: "inv q \<Longrightarrow> \<not> full q \<Longrightarrow> inv (enq x q) \<and> cont (enq x q) = cont q @ [x]"
    and deq_ok: "inv q \<Longrightarrow> \<not> empty q \<Longrightarrow> \<exists>x q'. deq q = (x, q') \<and> inv q' \<and> cont q = x # cont q'"
    and full_iff: "inv q \<Longrightarrow> full q \<longleftrightarrow> length (cont q) = cap"
    and empty_iff: "inv q \<Longrightarrow> empty q \<longleftrightarrow> cont q = []"
    and cap_bound: "inv q \<Longrightarrow> length (cont q) \<le> cap"
begin

lemma enq_all:
  assumes "inv q" and "length (cont q) + length xs \<le> cap"
  shows "inv (fold enq xs q) \<and> cont (fold enq xs q) = cont q @ xs"
  using assms
proof (induction xs arbitrary: q)
  case (Cons x xs)
  then have "\<not> full q" by (auto simp: full_iff)
  then have "inv (enq x q)" "cont (enq x q) = cont q @ [x]" using enq_ok Cons.prems(1) by auto
  then show ?case using Cons.IH [of "enq x q"] Cons.prems(2) by simp
qed simp

fun deq_many :: "nat \<Rightarrow> 'q \<Rightarrow> 'a list \<times> 'q" where
  "deq_many 0 q = ([], q)"
| "deq_many (Suc k) q = (let (x, q1) = deq q; (xs, q2) = deq_many k q1 in (x # xs, q2))"

lemma deq_many_ok:
  assumes "inv q" and "k \<le> length (cont q)"
  shows "\<exists>q'. deq_many k q = (take k (cont q), q') \<and> inv q' \<and> cont q' = drop k (cont q)"
  using assms
proof (induction k arbitrary: q)
  case (Suc k)
  then have "\<not> empty q" by (auto simp: empty_iff)
  then obtain x q1 where 1: "deq q = (x, q1)" "inv q1" "cont q = x # cont q1"
    using deq_ok Suc.prems(1) by blast
  then obtain q' where "deq_many k q1 = (take k (cont q1), q')" "inv q'" "cont q' = drop k (cont q1)"
    using Suc.IH [of q1] Suc.prems(2) by auto
  with 1 show ?case by auto
qed simp

text \<open>First in, first out, nothing lost.\<close>

lemma fifo:
  assumes "inv q" and "cont q = []" and "length xs \<le> cap"
  shows "fst (deq_many (length xs) (fold enq xs q)) = xs"
  using enq_all [of q xs] deq_many_ok [of "fold enq xs q" "length xs"] assms by auto

end

section \<open>Rings with wrapping counters\<close>

text \<open>The elements between the read counter \<open>r\<close> and the write counter \<open>w\<close>.\<close>

definition ring_cont :: "nat \<Rightarrow> 'a list \<Rightarrow> 'c::len word \<Rightarrow> 'c word \<Rightarrow> 'a list" where
  "ring_cont N d r w = map (\<lambda>k. d ! (unat (r + of_nat k) mod N)) [0..<unat (w - r)]"

lemma length_ring_cont [simp]: "length (ring_cont N d r w) = unat (w - r)"
  by (simp add: ring_cont_def)

lemma ring_cont_empty_iff: "ring_cont N d r w = [] \<longleftrightarrow> r = w"
proof -
  have "unat (w - r) = 0 \<longleftrightarrow> w - r = 0" by (rule unat_eq_zero)
  then show ?thesis by (auto simp: ring_cont_def)
qed

lemma mod_add_inj:
  fixes a j k m :: nat
  assumes "(a + j) mod m = (a + k) mod m" and "j < m" and "k < m"
  shows "j = k"
proof -
  have aux: False if "x < y" "y < m" "(a + x) mod m = (a + y) mod m" for x y
  proof -
    have "m dvd (a + y) - (a + x)" using that by (metis mod_eq_dvd_iff_nat add_le_cancel_left less_imp_le)
    then show False using that nat_dvd_not_less [of "y - x" m] by auto
  qed
  show ?thesis using aux [of j k] aux [of k j] assms by (cases j k rule: linorder_cases) auto
qed

lemma upt_split: "[0..<a + b] = [0..<a] @ map (\<lambda>k. a + k) [0..<b]"
  by (induction b) simp_all

locale word_ring =
  fixes N :: nat and ty :: "'c::len itself"
  assumes N_pos: "0 < N" and N_less: "N < 2 ^ LENGTH('c)" and N_dvd: "N dvd 2 ^ LENGTH('c)"
begin

lemma slot_bound: "unat (x :: 'c word) mod N < N"
  using N_pos by simp

lemma slot_plus: "unat (a + b :: 'c word) mod N = (unat a + unat b) mod N"
  using N_dvd by (simp add: unat_word_ariths mod_mod_cancel)

lemma slot_neq:
  assumes "j < N" and "k < N" and "j \<noteq> k"
  shows "unat (a + of_nat j :: 'c word) mod N \<noteq> unat (a + of_nat k) mod N"
  using assms mod_add_inj [of "unat a" j N k] N_less by (auto simp: slot_plus unat_of_nat)

lemma ring_count_put:
  assumes "unat (w - r :: 'c word) < N"
  shows "unat (w + 1 - r) = unat (w - r) + 1"
proof -
  have eq: "w + 1 - r = (w - r) + 1" by simp
  have one: "unat (1 :: 'c word) \<le> 1" by (simp add: unat_word_ariths(1) unsigned_1)
  then show ?thesis unfolding eq using assms N_less by (subst unat_plus_no_wrap) auto
qed

lemma ring_put:
  assumes "length d = N" and "unat (w - r :: 'c word) < N"
  shows "ring_cont N (d[unat w mod N := x]) r (w + 1) = ring_cont N d r w @ [x]"
proof -
  let ?n = "unat (w - r)"
  have w: "w = r + of_nat ?n" by simp
  have "unat w mod N \<noteq> unat (r + of_nat k) mod N" if "k < ?n" for k
    using slot_neq [of k ?n r] that assms(2) w by auto
  then have "map (\<lambda>k. d[unat w mod N := x] ! (unat (r + of_nat k) mod N)) [0..<?n] = ring_cont N d r w"
    unfolding ring_cont_def by (intro map_cong) auto
  moreover have "d[unat w mod N := x] ! (unat (r + of_nat ?n) mod N) = x"
    using assms(1) slot_bound [of w] w by simp
  ultimately show ?thesis using ring_count_put [OF assms(2)] by (simp add: ring_cont_def)
qed

lemma ring_count_take:
  assumes "w \<noteq> (r :: 'c word)"
  shows "unat (w - (r + 1)) = unat (w - r) - 1" "0 < unat (w - r)"
proof -
  have "w - r \<noteq> 0" using assms by auto
  then show n: "0 < unat (w - r)" by (simp add: unat_gt_0)
  have eq: "w - (r + 1) = (w - r) - 1" by simp
  show "unat (w - (r + 1)) = unat (w - r) - 1"
    unfolding eq using n by (simp add: unat_sub_if word_le_nat_alt)
qed

lemma ring_take:
  assumes "w \<noteq> (r :: 'c word)"
  shows "ring_cont N d r w = d ! (unat r mod N) # ring_cont N d (r + 1) w"
proof -
  let ?n = "unat (w - r)"
  have split: "[0..<?n] = 0 # map Suc [0..<?n - 1]"
    using ring_count_take(2) [OF assms] by (simp add: map_Suc_upt upt_conv_Cons)
  show ?thesis
    unfolding ring_cont_def ring_count_take(1) [OF assms] split by (simp add: comp_def algebra_simps)
qed

lemma ring_unput:
  assumes "w \<noteq> (r :: 'c word)"
  shows "ring_cont N d r (w - 1) = butlast (ring_cont N d r w)" "unat (w - 1 - r) = unat (w - r) - 1"
    "last (ring_cont N d r w) = d ! (unat (w - 1) mod N)"
proof -
  have n: "0 < unat (w - r)" using ring_count_take(2) [OF assms] .
  have eq: "w - 1 - r = (w - r) - 1" by simp
  show c: "unat (w - 1 - r) = unat (w - r) - 1"
    unfolding eq using n by (simp add: unat_sub_if word_le_nat_alt)
  have up: "[0..<unat (w - r)] = [0..<unat (w - r) - 1] @ [unat (w - r) - 1]"
    using n by (metis Suc_diff_1 upt_Suc_append zero_le)
  show "ring_cont N d r (w - 1) = butlast (ring_cont N d r w)"
    unfolding ring_cont_def c up by simp
  have "r + of_nat (unat (w - 1 - r)) = w - 1" by simp
  then have "r + of_nat (unat (w - r) - 1) = w - 1" unfolding c .
  then show "last (ring_cont N d r w) = d ! (unat (w - 1) mod N)"
    unfolding ring_cont_def up by simp
qed

lemma ring_count_append:
  assumes "unat (w - r :: 'c word) + unat (e - w) \<le> N"
  shows "unat (e - r) = unat (w - r) + unat (e - w)"
proof -
  have "e - r = (w - r) + (e - w)" by simp
  then show ?thesis using assms N_less unat_plus_no_wrap [of "w - r" "e - w"] by simp
qed

lemma ring_append:
  assumes "unat (w - r :: 'c word) + unat (e - w) \<le> N"
  shows "ring_cont N d r e = ring_cont N d r w @ ring_cont N d w e"
proof -
  have w: "r + of_nat (unat (w - r) + k) = w + of_nat k" for k by simp
  have "[0..<unat (w - r) + unat (e - w)] = [0..<unat (w - r)] @ map (\<lambda>k. unat (w - r) + k) [0..<unat (e - w)]"
    using upt_split by blast
  then show ?thesis unfolding ring_cont_def ring_count_append [OF assms] by (simp add: comp_def w del: of_nat_add)
qed

lemma ring_other:
  assumes "unat (w - r :: 'c word) + unat (e - w) < N"
  shows "ring_cont N (d[unat e mod N := x]) r w = ring_cont N d r w"
proof -
  have e: "e = r + of_nat (unat (e - r))" by simp
  have "unat e mod N \<noteq> unat (r + of_nat k) mod N" if "k < unat (w - r)" for k
    using slot_neq [of k "unat (e - r)" r] ring_count_append [of w r e] that assms e by auto
  then show ?thesis unfolding ring_cont_def by (intro map_cong) auto
qed

lemma ring_full_iff: "w = r + of_nat N \<longleftrightarrow> unat (w - r :: 'c word) = N"
proof -
  have "w = r + of_nat N \<longleftrightarrow> w - r = of_nat N" by (auto simp: algebra_simps)
  also have "\<dots> \<longleftrightarrow> unat (w - r) = N" using N_less by (simp add: word_unat_eq_iff unat_of_nat)
  finally show ?thesis .
qed

end

end
