(* ===== verification/Pipe.thy ===== *)
theory Pipe
  imports Ring
begin

text \<open>
  Pipes, \<^verbatim>\<open>kernel/pipe.c\<close>: a ring of 512 bytes with two wrapping 32-bit counters. \<open>pipewrite\<close> and
  \<open>piperead\<close> run until they return or call \<^verbatim>\<open>sleep\<close> with the pipe lock released; a sleeping call
  continues at its loop condition when it is woken. The user's memory enters as \<open>getc\<close>, the byte
  \<^verbatim>\<open>copyin\<close> reads at an address, and \<open>putc\<close>, whether \<^verbatim>\<open>copyout\<close> of a byte to an address succeeds.
  The pipe's ring is an instance of \<open>word_ring\<close> and meets the contract \<open>bounded_queue\<close>.
\<close>

section \<open>kernel/pipe.c\<close>

definition PIPESIZE :: nat where "PIPESIZE = 512"

record pipe =
  p_data :: "u8 list"
  nread :: u32
  nwrite :: u32
  readopen :: bool
  writeopen :: bool

text \<open>The slot \<^verbatim>\<open>n % PIPESIZE\<close>.\<close>

definition slot :: "u32 \<Rightarrow> nat" where
  "slot n = unat (n mod of_nat PIPESIZE)"

definition pipe_put :: "u8 \<Rightarrow> pipe \<Rightarrow> pipe" where
  "pipe_put ch pi = pi\<lparr>p_data := (p_data pi)[slot (nwrite pi) := ch], nwrite := nwrite pi + 1\<rparr>"

definition pipe_take :: "pipe \<Rightarrow> u8 \<times> pipe" where
  "pipe_take pi = (p_data pi ! slot (nread pi), pi\<lparr>nread := nread pi + 1\<rparr>)"

definition pipe_full :: "pipe \<Rightarrow> bool" where
  "pipe_full pi \<longleftrightarrow> nwrite pi = nread pi + of_nat PIPESIZE"

definition pipe_empty :: "pipe \<Rightarrow> bool" where
  "pipe_empty pi \<longleftrightarrow> nread pi = nwrite pi"

datatype call = Returns int | Sleeps int

text \<open>The loop of \<open>pipewrite\<close> from index \<open>i\<close> with \<open>k\<close> bytes to go.\<close>

fun pipewrite_loop :: "(u64 \<Rightarrow> u8 option) \<Rightarrow> bool \<Rightarrow> u64 \<Rightarrow> int \<Rightarrow> nat \<Rightarrow> pipe \<Rightarrow> call \<times> pipe" where
  "pipewrite_loop getc killed addr i 0 pi = (Returns i, pi)"
| "pipewrite_loop getc killed addr i (Suc k) pi =
     (if \<not> readopen pi \<or> killed then (Returns (-1), pi)
      else if pipe_full pi then (Sleeps i, pi)
      else case getc (addr + of_int i) of
             None \<Rightarrow> (Returns i, pi)
           | Some ch \<Rightarrow> pipewrite_loop getc killed addr (i + 1) k (pipe_put ch pi))"

definition pipewrite :: "(u64 \<Rightarrow> u8 option) \<Rightarrow> bool \<Rightarrow> u64 \<Rightarrow> int \<Rightarrow> pipe \<Rightarrow> call \<times> pipe" where
  "pipewrite getc killed addr n pi = pipewrite_loop getc killed addr 0 (nat n) pi"

text \<open>
  \<open>pipewrite_resume\<close>: the call continues after the sleep at index \<open>i\<close>.
\<close>

definition pipewrite_resume :: "(u64 \<Rightarrow> u8 option) \<Rightarrow> bool \<Rightarrow> u64 \<Rightarrow> int \<Rightarrow> int \<Rightarrow> pipe \<Rightarrow> call \<times> pipe" where
  "pipewrite_resume getc killed addr n i pi = pipewrite_loop getc killed addr i (nat (n - i)) pi"

fun piperead_loop :: "(u64 \<Rightarrow> bool) \<Rightarrow> u64 \<Rightarrow> int \<Rightarrow> nat \<Rightarrow> pipe \<Rightarrow> u8 list \<Rightarrow> call \<times> u8 list \<times> pipe" where
  "piperead_loop putc addr i 0 pi out = (Returns i, out, pi)"
| "piperead_loop putc addr i (Suc k) pi out =
     (if pipe_empty pi then (Returns i, out, pi)
      else let (ch, pi1) = pipe_take pi in
           if putc (addr + of_int i) then piperead_loop putc addr (i + 1) k pi1 (out @ [ch])
           else (Returns i, out, pi1))"

text \<open>
  The bytes copied out to the user are returned beside the result. A call that sleeps starts over
  when it is woken.
\<close>

definition piperead :: "(u64 \<Rightarrow> bool) \<Rightarrow> bool \<Rightarrow> u64 \<Rightarrow> int \<Rightarrow> pipe \<Rightarrow> call \<times> u8 list \<times> pipe" where
  "piperead putc killed addr n pi =
     (if pipe_empty pi \<and> writeopen pi then
        if killed then (Returns (-1), [], pi) else (Sleeps 0, [], pi)
      else piperead_loop putc addr 0 (nat n) pi [])"

section \<open>The pipe as a queue of bytes\<close>

definition pipe_inv :: "pipe \<Rightarrow> bool" where
  "pipe_inv pi \<longleftrightarrow> length (p_data pi) = PIPESIZE \<and> unat (nwrite pi - nread pi) \<le> PIPESIZE"

definition pipe_bytes :: "pipe \<Rightarrow> u8 list" where
  "pipe_bytes pi = ring_cont PIPESIZE (p_data pi) (nread pi) (nwrite pi)"

lemma slot_eq: "slot n = unat n mod PIPESIZE"
  by (simp add: slot_def PIPESIZE_def unat_mod_distrib)

interpretation pring: word_ring PIPESIZE "TYPE(32)"
  by unfold_locales (simp_all add: PIPESIZE_def dvd_def)

lemma pipe_put_ok:
  assumes "pipe_inv q" and "\<not> pipe_full q"
  shows "pipe_inv (pipe_put ch q) \<and> pipe_bytes (pipe_put ch q) = pipe_bytes q @ [ch]"
proof -
  have lt: "unat (nwrite q - nread q) < PIPESIZE" and len: "length (p_data q) = PIPESIZE"
    using assms pring.ring_full_iff [of "nwrite q" "nread q"] by (auto simp: pipe_inv_def pipe_full_def)
  show ?thesis
    using pring.ring_count_put [OF lt] pring.ring_put [OF len lt] lt len
    by (simp add: pipe_inv_def pipe_bytes_def pipe_put_def slot_eq)
qed

lemma pipe_take_ok:
  assumes "pipe_inv q" and "\<not> pipe_empty q"
  shows "\<exists>x q'. pipe_take q = (x, q') \<and> pipe_inv q' \<and> pipe_bytes q = x # pipe_bytes q'"
proof -
  have ne: "nwrite q \<noteq> nread q" using assms(2) by (auto simp: pipe_empty_def)
  show ?thesis
    using pring.ring_count_take(1) [OF ne] pring.ring_take [OF ne, of "p_data q"] assms(1)
    by (auto simp: pipe_inv_def pipe_bytes_def pipe_take_def slot_eq)
qed

interpretation pipeq: bounded_queue pipe_inv pipe_bytes PIPESIZE pipe_full pipe_empty pipe_put pipe_take
proof
  show "pipe_inv q \<Longrightarrow> pipe_empty q \<longleftrightarrow> pipe_bytes q = []" for q
    by (auto simp: pipe_empty_def pipe_bytes_def ring_cont_empty_iff)
  show "pipe_inv q \<Longrightarrow> pipe_full q \<longleftrightarrow> length (pipe_bytes q) = PIPESIZE" for q
    using pring.ring_full_iff [of "nwrite q" "nread q"] by (simp add: pipe_full_def pipe_bytes_def)
  show "pipe_inv q \<Longrightarrow> length (pipe_bytes q) \<le> PIPESIZE" for q
    by (simp add: pipe_inv_def pipe_bytes_def)
qed (use pipe_put_ok pipe_take_ok in blast)+

section \<open>What the calls do to the stream of bytes\<close>

lemma pipewrite_loop_appends:
  assumes "pipe_inv pi" and "pipewrite_loop getc killed addr i k pi = (r, pi')"
  shows "\<exists>j\<le>k. pipe_inv pi' \<and> readopen pi' = readopen pi \<and> writeopen pi' = writeopen pi \<and>
    nwrite pi' = nwrite pi + of_nat j \<and> pipe_bytes pi' = pipe_bytes pi @ map (\<lambda>x. the (getc (addr + of_int (i + int x)))) [0..<j] \<and>
    (\<forall>x<j. getc (addr + of_int (i + int x)) \<noteq> None) \<and>
    (case r of
       Sleeps i' \<Rightarrow> i' = i + int j \<and> j < k \<and> readopen pi \<and> \<not> killed \<and> length (pipe_bytes pi') = PIPESIZE
     | Returns i' \<Rightarrow> i' = -1 \<and> j < k \<and> (\<not> readopen pi \<or> killed) \<or> i' = i + int j \<and>
         (j = k \<or> getc (addr + of_int (i + int j)) = None))"
  using assms
proof (induction k arbitrary: i pi)
  case 0
  then show ?case by auto
next
  case (Suc k)
  show ?case
  proof (cases "\<not> readopen pi \<or> killed \<or> pipe_full pi \<or> getc (addr + of_int i) = None")
    case True
    then show ?thesis
      using Suc.prems pipeq.full_iff [OF Suc.prems(1)]
      by (intro exI [of _ 0]) (auto split: if_splits option.splits)
  next
    case False
    then obtain ch where ch: "getc (addr + of_int i) = Some ch" by blast
    have put: "pipe_inv (pipe_put ch pi)" "pipe_bytes (pipe_put ch pi) = pipe_bytes pi @ [ch]"
      using pipe_put_ok [OF Suc.prems(1)] False by auto
    have opn: "readopen (pipe_put ch pi) = readopen pi" "writeopen (pipe_put ch pi) = writeopen pi"
        "nwrite (pipe_put ch pi) = nwrite pi + 1"
      by (simp_all add: pipe_put_def)
    have run: "pipewrite_loop getc killed addr (i + 1) k (pipe_put ch pi) = (r, pi')"
      using Suc.prems(2) False ch by simp
    obtain j where j: "j \<le> k" "pipe_inv pi'" "readopen pi' = readopen pi" "writeopen pi' = writeopen pi"
      "nwrite pi' = nwrite pi + 1 + of_nat j"
      "pipe_bytes pi' = (pipe_bytes pi @ [ch]) @
         map (\<lambda>x. the (getc (addr + of_int (i + 1 + int x)))) [0..<j]"
      "\<forall>x<j. getc (addr + of_int (i + 1 + int x)) \<noteq> None"
      "case r of
         Sleeps i' \<Rightarrow> i' = i + 1 + int j \<and> j < k \<and> readopen pi \<and> \<not> killed \<and> length (pipe_bytes pi') = PIPESIZE
       | Returns i' \<Rightarrow> i' = -1 \<and> j < k \<and> (\<not> readopen pi \<or> killed) \<or> i' = i + 1 + int j \<and>
           (j = k \<or> getc (addr + of_int (i + 1 + int j)) = None)"
      using Suc.IH [OF put(1) run, unfolded put(2) opn] by blast
    have sh: "i + int (Suc x) = i + 1 + int x" for x by simp
    have "map (\<lambda>x. the (getc (addr + of_int (i + int x)))) [0..<Suc j] =
        ch # map (\<lambda>x. the (getc (addr + of_int (i + 1 + int x)))) [0..<j]"
      using ch by (simp add: upt_conv_Cons map_Suc_upt [symmetric] comp_def algebra_simps del: upt_Suc)
    moreover have "\<forall>x<Suc j. getc (addr + of_int (i + int x)) \<noteq> None"
      using j(7) ch sh by (auto simp: less_Suc_eq_0_disj algebra_simps)
    ultimately show ?thesis
      using j by (intro exI [of _ "Suc j"]) (auto simp: sh algebra_simps simp del: upt_Suc split: call.splits)
  qed
qed


lemma piperead_loop_takes:
  assumes "pipe_inv pi" and "piperead_loop putc addr i k pi out = (r, out', pi')"
  shows "\<exists>c d. pipe_inv pi' \<and> pipe_bytes pi = c @ pipe_bytes pi' \<and> out' = out @ d \<and>
    r = Returns (i + int (length d)) \<and> length d \<le> k \<and>
    (c = d \<and> (length d = k \<or> pipe_bytes pi' = []) \<or>
     (\<exists>x. c = d @ [x]) \<and> \<not> putc (addr + of_int (i + int (length d))))"
  using assms
proof (induction k arbitrary: i pi out)
  case 0
  then show ?case by auto
next
  case (Suc k)
  show ?case
  proof (cases "pipe_empty pi")
    case True
    then show ?thesis using Suc.prems pipeq.empty_iff by auto
  next
    case False
    then obtain x q where t: "pipe_take pi = (x, q)" "pipe_inv q" "pipe_bytes pi = x # pipe_bytes q"
      using pipe_take_ok [OF Suc.prems(1)] by blast
    show ?thesis
    proof (cases "putc (addr + of_int i)")
      case True
      then have run: "piperead_loop putc addr (i + 1) k q (out @ [x]) = (r, out', pi')"
        using Suc.prems(2) False t by simp
      obtain c d where "pipe_inv pi'" "pipe_bytes q = c @ pipe_bytes pi'" "out' = (out @ [x]) @ d"
        "r = Returns (i + 1 + int (length d))" "length d \<le> k"
        "c = d \<and> (length d = k \<or> pipe_bytes pi' = []) \<or>
         (\<exists>x. c = d @ [x]) \<and> \<not> putc (addr + of_int (i + 1 + int (length d)))"
        using Suc.IH [OF t(2) run] by blast
      then show ?thesis using t
        by (intro exI [of _ "x # c"] exI [of _ "x # d"]) (auto simp: algebra_simps)
    next
      case fault: False
      then show ?thesis
        using Suc.prems(2) False t by (intro exI [of _ "[x]"] exI [of _ "[]"]) auto
    qed
  qed
qed

section \<open>Readers and writers\<close>

text \<open>
  The states of a pipe together with the bytes its writers have put in and what each read gave, under
  any interleaving of calls and of their continuations after a sleep. Of a read the bytes it copied
  out are kept, and whether \<^verbatim>\<open>copyout\<close> would succeed at the address behind them.
\<close>

inductive pipe_run :: "pipe \<Rightarrow> u8 list \<Rightarrow> (u8 list \<times> bool) list \<Rightarrow> bool" where
  run_new: "length (p_data pi) = PIPESIZE \<Longrightarrow> nread pi = 0 \<Longrightarrow> nwrite pi = 0 \<Longrightarrow> pipe_run pi [] []"
| run_write: "pipe_run pi w rs \<Longrightarrow> pipewrite_loop getc killed addr i k pi = (r, pi') \<Longrightarrow>
    j = unat (nwrite pi' - nwrite pi) \<Longrightarrow>
    pipe_run pi' (w @ map (\<lambda>x. the (getc (addr + of_int (i + int x)))) [0..<j]) rs"
| run_read: "pipe_run pi w rs \<Longrightarrow> piperead putc killed addr n pi = (r, out, pi') \<Longrightarrow>
    pipe_run pi' w (rs @ [(out, putc (addr + of_nat (length out)))])"
| run_close: "pipe_run pi w rs \<Longrightarrow> pipe_run (pi\<lparr>readopen := ro, writeopen := wo\<rparr>) w rs"

text \<open>
  What a read took out of the ring: the bytes it delivered, and after a fault at the next address at
  most one byte more, which is lost.
\<close>

fun took :: "u8 list \<times> bool \<Rightarrow> u8 list \<Rightarrow> bool" where
  "took (out, ok) c \<longleftrightarrow> c = out \<or> \<not> ok \<and> (\<exists>x. c = out @ [x])"

lemma piperead_took:
  assumes "pipe_inv pi" and "piperead putc killed addr n pi = (r, out, pi')"
  shows "\<exists>c. pipe_bytes pi = c @ pipe_bytes pi' \<and> pipe_inv pi' \<and> took (out, putc (addr + of_nat (length out))) c"
proof (cases "pipe_empty pi \<and> writeopen pi")
  case True
  then show ?thesis using assms by (auto simp: piperead_def split: if_splits)
next
  case False
  then have "piperead_loop putc addr 0 (nat n) pi [] = (r, out, pi')" using assms(2) by (auto simp: piperead_def)
  from piperead_loop_takes [OF assms(1) this] show ?thesis by auto
qed

lemma took_all:
  assumes "list_all2 took rs cs" and "\<forall>x\<in>set rs. snd x"
  shows "cs = map fst rs"
  using assms by (induction rule: list_all2_induct) auto

text \<open>
  C11: whatever calls of readers and writers interleave on a pipe, the bytes written so far are
  the bytes the reads took out followed by the bytes in the ring, in order, and the ring never holds
  more than its 512 bytes, although the counters wrap. A read delivers the bytes it takes out, except
  that one whose \<^verbatim>\<open>copyout\<close> fails may lose one byte behind those it delivered; when no \<^verbatim>\<open>copyout\<close> fails,
  the bytes written are the bytes delivered followed by the bytes in the ring.
\<close>

theorem pipe_fifo:
  assumes "pipe_run pi w rs"
  shows "(\<exists>cs. list_all2 took rs cs \<and> w = concat cs @ pipe_bytes pi) \<and>
    ((\<forall>x\<in>set rs. snd x) \<longrightarrow> w = concat (map fst rs) @ pipe_bytes pi) \<and>
    pipe_inv pi \<and> length (pipe_bytes pi) \<le> PIPESIZE"
proof -
  have "(\<exists>cs. list_all2 took rs cs \<and> w = concat cs @ pipe_bytes pi) \<and> pipe_inv pi" using assms
  proof (induction rule: pipe_run.induct)
    case (run_new pi)
    then show ?case by (simp add: pipe_bytes_def pipe_inv_def ring_cont_def)
  next
    case (run_write pi w rs getc killed addr i k r pi' j)
    obtain j' where j': "pipe_inv pi'" "nwrite pi' = nwrite pi + of_nat j'"
      "pipe_bytes pi' = pipe_bytes pi @ map (\<lambda>x. the (getc (addr + of_int (i + int x)))) [0..<j']"
      using pipewrite_loop_appends [OF _ run_write(2)] run_write(4) by blast
    have "length (pipe_bytes pi') \<le> PIPESIZE" using pipeq.cap_bound j'(1) by blast
    then have "j' \<le> 512" using j'(3) by (simp add: PIPESIZE_def)
    then have "j = j'" using j'(2) run_write(3) by (simp add: unat_of_nat)
    then show ?case using j' run_write(4) by auto
  next
    case (run_read pi w rs putc killed addr n r out pi')
    then obtain cs c where "list_all2 took rs cs" "w = concat cs @ c @ pipe_bytes pi'" "pipe_inv pi'"
      "took (out, putc (addr + of_nat (length out))) c"
      using piperead_took [OF _ run_read(2)] by fastforce
    then show ?case by (intro conjI exI [of _ "cs @ [c]"]) (auto intro: list_all2_appendI)
  next
    case (run_close pi w rs ro wo)
    then show ?case by (simp add: pipe_bytes_def pipe_inv_def)
  qed
  then show ?thesis using took_all pipeq.cap_bound by blast
qed

theorem pipe_fifo_witness:
  "let p0 = \<lparr>p_data = replicate PIPESIZE 0, nread = 0, nwrite = 0, readopen = True, writeopen = True\<rparr>;
       p1 = snd (pipewrite (\<lambda>a. Some (ucast a)) False 65 2 p0);
       p2 = snd (snd (piperead (\<lambda>_. True) False 0 1 p1));
       p3 = snd (snd (piperead (\<lambda>_. False) False 0 1 p2))
   in [65, 66] = [65] @ pipe_bytes p2 \<and> length (pipe_bytes p2) \<le> PIPESIZE \<and>
      (\<exists>cs. list_all2 took [([65], True), ([], False)] cs \<and> [65, 66] = concat cs @ pipe_bytes p3)"
proof -
  let ?p0 = "\<lparr>p_data = replicate PIPESIZE 0, nread = 0, nwrite = 0, readopen = True, writeopen = True\<rparr>"
  let ?p1 = "pipe_put 66 (pipe_put 65 ?p0)"
  let ?p2 = "?p1\<lparr>nread := 1\<rparr>"
  let ?p3 = "?p1\<lparr>nread := 2\<rparr>"
  have ps: "(of_nat PIPESIZE :: u32) = 512" "0 < PIPESIZE" "1 < PIPESIZE" "slot 0 = 0" "slot 1 = 1"
    by (simp_all add: PIPESIZE_def slot_eq)
  have two: "nat 2 = Suc (Suc 0)" and upt2: "[0..<2] = [0, 1 :: nat]" by (simp_all add: upt_conv_Cons)
  have w: "pipewrite (\<lambda>a. Some (ucast a)) False 65 2 ?p0 = (Returns 2, ?p1)"
    unfolding pipewrite_def two by (simp add: pipe_full_def ps pipe_put_def)
  have r: "piperead (\<lambda>_. True) False 0 1 ?p1 = (Returns 1, [65], ?p2)"
    by (simp add: piperead_def pipe_empty_def pipe_take_def pipe_put_def ps)
  have r3: "piperead (\<lambda>_. False) False 0 1 ?p2 = (Returns 0, [], ?p3)"
    by (simp add: piperead_def pipe_empty_def pipe_take_def pipe_put_def ps)
  have "pipe_run ?p0 [] []" by (rule run_new) simp_all
  then have "pipe_run ?p1 ([] @ map (\<lambda>x. the (Some (ucast (65 + of_int (0 + int x) :: u64)))) [0..<2]) []"
    using w [unfolded pipewrite_def] by (rule run_write) (simp add: pipe_put_def)
  then have "pipe_run ?p1 [65, 66] []" by (simp add: upt2)
  from run_read [OF this r] have p2: "pipe_run ?p2 [65, 66] [([65], True)]" by simp
  from run_read [OF this r3] have "pipe_run ?p3 [65, 66] [([65], True), ([], False)]" by simp
  from pipe_fifo [OF this] pipe_fifo [OF p2] show ?thesis by (simp add: Let_def w r r3)
qed

end
