(* ===== verification/Kstate.thy ===== *)
theory Kstate
  imports Fs Vm Pipe
begin

text \<open>
  The state of the whole kernel: \<^verbatim>\<open>kernel/proc.h\<close> and \<^verbatim>\<open>kernel/file.h\<close> on top of the file-system
  state. It extends \<open>fstate\<close> by physical memory with its free pages (\<open>kphys\<close>), the file table, the
  process table and the objects that live in pages of their own, the pipes and the trap frames,
  each in a store indexed by the address of its page. Pointers into the fixed tables are indices,
  \<open>None\<close> is the null pointer. Addresses the linker fixes are the record \<open>syms\<close>. Spin-lock critical
  sections are single steps (see \<open>Locks\<close>); a process is its index in the table.

  The theory also holds the copies between user memory and kernel objects that the model keeps
  outside \<open>pmem\<close> (file blocks, structures on the kernel stack), which follow \<open>copyout\<close> and \<open>copyin\<close>
  page by page, and \<open>wakeup\<close>, which every component calls.
\<close>

section \<open>Data\<close>

definition NPROC :: nat where "NPROC = 10"
definition NOFILE :: nat where "NOFILE = 16"
definition NFILE :: nat where "NFILE = 100"
definition NDEV :: nat where "NDEV = 10"
definition MAXPATH :: nat where "MAXPATH = 128"
definition MAXARG :: nat where "MAXARG = 32"

text \<open>What the linker provides: the end of the kernel and the addresses of code.\<close>

record syms =
  sy_end :: u64
  sy_trampoline :: u64
  sy_uservec :: u64
  sy_userret :: u64
  sy_usertrap :: u64
  sy_kernelvec :: u64
  sy_forkret :: u64
  sy_initcode :: u64

datatype fdtype = FD_NONE | FD_PIPE | FD_INODE | FD_DEVICE

record kfile =
  f_type :: fdtype
  f_ref :: int
  f_readable :: bool
  f_writable :: bool
  f_pipe :: u64
  f_ip :: nat
  f_off :: u32
  f_major :: u16

record kcontext =
  c_ra :: u64
  c_sp :: u64
  c_s0 :: u64
  c_s1 :: u64
  c_s2 :: u64
  c_s3 :: u64
  c_s4 :: u64
  c_s5 :: u64
  c_s6 :: u64
  c_s7 :: u64
  c_s8 :: u64
  c_s9 :: u64
  c_s10 :: u64
  c_s11 :: u64

record trapframe =
  kernel_satp :: u64
  kernel_sp :: u64
  kernel_trap :: u64
  tf_epc :: u64
  kernel_hartid :: u64
  tf_ra :: u64
  tf_sp :: u64
  tf_gp :: u64
  tf_tp :: u64
  tf_t0 :: u64
  tf_t1 :: u64
  tf_t2 :: u64
  tf_s0 :: u64
  tf_s1 :: u64
  tf_a0 :: u64
  tf_a1 :: u64
  tf_a2 :: u64
  tf_a3 :: u64
  tf_a4 :: u64
  tf_a5 :: u64
  tf_a6 :: u64
  tf_a7 :: u64
  tf_s2 :: u64
  tf_s3 :: u64
  tf_s4 :: u64
  tf_s5 :: u64
  tf_s6 :: u64
  tf_s7 :: u64
  tf_s8 :: u64
  tf_s9 :: u64
  tf_s10 :: u64
  tf_s11 :: u64
  tf_t3 :: u64
  tf_t4 :: u64
  tf_t5 :: u64
  tf_t6 :: u64

datatype procstate = UNUSED | SLEEPING | RUNNABLE | RUNNING | ZOMBIE

text \<open>Sleep channels: the addresses the kernel passes to \<open>sleep\<close>.\<close>

datatype chan = ProcCh nat | PipeReadCh u64 | PipeWriteCh u64 | TicksCh

record proc =
  p_state :: procstate
  p_parent :: "nat option"
  p_chan :: "chan option"
  p_killed :: bool
  p_xstate :: int
  p_pid :: int
  p_kstack :: u64
  p_sz :: u64
  p_pagetable :: u64
  p_trapframe :: u64
  p_context :: kcontext
  p_ofile :: "nat \<Rightarrow> nat option"
  p_cwd :: "nat option"
  p_name :: "u8 list"

record kstate = fstate +
  kphys :: phys
  ftable :: "nat \<Rightarrow> kfile"
  pipes :: "u64 \<Rightarrow> pipe"
  tframes :: "u64 \<Rightarrow> trapframe"
  procs :: "nat \<Rightarrow> proc"
  nextpid :: int
  initproc :: nat
  ticks :: u32

definition upd_file :: "nat \<Rightarrow> (kfile \<Rightarrow> kfile) \<Rightarrow> kstate \<Rightarrow> kstate" where
  "upd_file f g s = s\<lparr>ftable := (ftable s)(f := g (ftable s f))\<rparr>"

definition upd_proc :: "nat \<Rightarrow> (proc \<Rightarrow> proc) \<Rightarrow> kstate \<Rightarrow> kstate" where
  "upd_proc p g s = s\<lparr>procs := (procs s)(p := g (procs s p))\<rparr>"

definition upd_pipe :: "u64 \<Rightarrow> (pipe \<Rightarrow> pipe) \<Rightarrow> kstate \<Rightarrow> kstate" where
  "upd_pipe a g s = s\<lparr>pipes := (pipes s)(a := g (pipes s a))\<rparr>"

definition upd_tf :: "nat \<Rightarrow> (trapframe \<Rightarrow> trapframe) \<Rightarrow> kstate \<Rightarrow> kstate" where
  "upd_tf p g s =
     (let a = p_trapframe (procs s p) in s\<lparr>tframes := (tframes s)(a := g (tframes s a))\<rparr>)"

text \<open>Routines of \<^verbatim>\<open>vm.c\<close> and \<^verbatim>\<open>kalloc.c\<close> run on the physical memory of the kernel state.\<close>

definition vm_do :: "(phys \<Rightarrow> phys outcome) \<Rightarrow> kstate \<Rightarrow> kstate outcome" where
  "vm_do f s = obind (f (kphys s)) (\<lambda>ph. Ok (s\<lparr>kphys := ph\<rparr>))"

definition vm_get :: "(phys \<Rightarrow> ('r \<times> phys) outcome) \<Rightarrow> kstate \<Rightarrow> ('r \<times> kstate) outcome" where
  "vm_get f s = obind (f (kphys s)) (\<lambda>(r, ph). Ok (r, s\<lparr>kphys := ph\<rparr>))"

definition kalloc_k :: "kstate \<Rightarrow> u64 \<times> kstate" where
  "kalloc_k s = (let (pa, ph) = kalloc (kphys s) in (pa, s\<lparr>kphys := ph\<rparr>))"

section \<open>Copies between user memory and kernel objects\<close>

fun put_bytes :: "memory \<Rightarrow> u64 \<Rightarrow> u8 list \<Rightarrow> memory" where
  "put_bytes m a [] = m"
| "put_bytes m a (b # bs) = put_bytes (m(a := b)) (a + 1) bs"

fun get_bytes :: "memory \<Rightarrow> u64 \<Rightarrow> nat \<Rightarrow> u8 list" where
  "get_bytes m a 0 = []"
| "get_bytes m a (Suc n) = m a # get_bytes m (a + 1) n"

text \<open>The result of \<open>walkaddr\<close>, which neither panics nor changes memory.\<close>

definition uaddr :: "u64 \<Rightarrow> u64 \<Rightarrow> phys \<Rightarrow> u64" where
  "uaddr pagetable va ph = (case walkaddr pagetable va ph of Ok (pa, ph') \<Rightarrow> pa | Panic e \<Rightarrow> 0 | Blocked \<Rightarrow> 0)"

lemma walk_loop_False: "snd (walk_loop l pt va False s) = s"
  by (induction l arbitrary: pt) (simp_all add: Let_def)

lemma walkaddr_uaddr: "walkaddr pagetable va ph = Ok (uaddr pagetable va ph, ph)"
  using walk_loop_False [of 2 pagetable va ph]
  by (auto simp: uaddr_def walkaddr_def walk_def split: prod.splits)

definition page_rest :: "u64 \<Rightarrow> nat \<Rightarrow> nat" where
  "page_rest va n = min n (4096 - unat (va - PGROUNDDOWN va))"

lemma page_rest_pos: "0 < n \<Longrightarrow> 0 < page_rest va n"
  using page_offset_less [of va] by (simp add: page_rest_def)

text \<open>\<open>copyout\<close> of bytes that do not lie in \<open>pmem\<close>; the result says whether it succeeded.\<close>

function copyout_bytes :: "u64 \<Rightarrow> u64 \<Rightarrow> u8 list \<Rightarrow> phys \<Rightarrow> bool \<times> phys" where
  "copyout_bytes pagetable dstva bs ph =
     (if bs = [] then (True, ph)
      else
        let va0 = PGROUNDDOWN dstva;
            pa0 = uaddr pagetable va0 ph;
            n = page_rest dstva (length bs)
        in if pa0 = 0 then (False, ph)
           else copyout_bytes pagetable (va0 + PGSIZE) (drop n bs)
                  (ph\<lparr>pmem := put_bytes (pmem ph) (pa0 + (dstva - va0)) (take n bs)\<rparr>))"
  by pat_completeness auto

termination copyout_bytes
  by (relation "measure (\<lambda>(pagetable, dstva, bs, ph). length bs)") (auto simp: page_rest_pos)

declare copyout_bytes.simps [simp del]

text \<open>\<open>copyin\<close> into a kernel object: the bytes stored before the copy ended or failed.\<close>

function copyin_bytes :: "u64 \<Rightarrow> phys \<Rightarrow> u64 \<Rightarrow> nat \<Rightarrow> u8 list \<times> bool" where
  "copyin_bytes pagetable ph srcva len =
     (if len = 0 then ([], True)
      else
        let va0 = PGROUNDDOWN srcva;
            pa0 = uaddr pagetable va0 ph;
            n = page_rest srcva len
        in if pa0 = 0 then ([], False)
           else
             let (bs, ok) = copyin_bytes pagetable ph (va0 + PGSIZE) (len - n)
             in (get_bytes (pmem ph) (pa0 + (srcva - va0)) n @ bs, ok))"
  by pat_completeness auto

termination copyin_bytes
proof (relation "measure (\<lambda>(pagetable, ph, srcva, len). len)", goal_cases)
  case (2 pagetable ph srcva len va0 pa0 n)
  then show ?case using page_rest_pos [of len srcva] by simp
qed simp

declare copyin_bytes.simps [simp del]

text \<open>
  \<open>copyinstr\<close> into a kernel array: the string without its NUL, or \<open>None\<close> for the result -1.
\<close>

function copyinstr_bytes :: "u64 \<Rightarrow> phys \<Rightarrow> u64 \<Rightarrow> nat \<Rightarrow> u8 list option" where
  "copyinstr_bytes pagetable ph srcva maxlen =
     (if maxlen = 0 then None
      else
        let va0 = PGROUNDDOWN srcva;
            pa0 = uaddr pagetable va0 ph;
            n = page_rest srcva maxlen
        in if pa0 = 0 then None
           else
             let bs = get_bytes (pmem ph) (pa0 + (srcva - va0)) n
             in if 0 \<in> set bs then Some (takeWhile (\<lambda>c. c \<noteq> 0) bs)
                else map_option (append bs) (copyinstr_bytes pagetable ph (va0 + PGSIZE) (maxlen - n)))"
  by pat_completeness auto

termination copyinstr_bytes
proof (relation "measure (\<lambda>(pagetable, ph, srcva, maxlen). maxlen)", goal_cases)
  case (2 pagetable ph srcva maxlen va0 pa0 n bs)
  then show ?case using page_rest_pos [of maxlen srcva] by simp
qed simp

declare copyinstr_bytes.simps [simp del]

definition copyout_k :: "nat \<Rightarrow> u64 \<Rightarrow> u8 list \<Rightarrow> kstate \<Rightarrow> bool \<times> kstate" where
  "copyout_k p dst bs s =
     (let (ok, ph) = copyout_bytes (p_pagetable (procs s p)) dst bs (kphys s) in (ok, s\<lparr>kphys := ph\<rparr>))"

text \<open>The bytes of a 32-bit and a 64-bit integer in memory.\<close>

definition bytes32 :: "u32 \<Rightarrow> u8 list" where
  "bytes32 v = map (\<lambda>i. ucast (drop_bit (8 * i) v)) [0..<4]"

definition bytes64 :: "u64 \<Rightarrow> u8 list" where
  "bytes64 v = map (\<lambda>i. ucast (drop_bit (8 * i) v)) [0..<8]"

text \<open>The bytes of a C string literal, without its NUL.\<close>

definition cstr :: "string \<Rightarrow> u8 list" where
  "cstr xs = map of_char xs"

text \<open>\<open>safestrcpy\<close> of a string into an array of \<open>n\<close> bytes.\<close>

definition safestr :: "u8 list \<Rightarrow> nat \<Rightarrow> u8 list \<Rightarrow> u8 list" where
  "safestr src n arr = (let w = take (n - 1) src in w @ [0] @ drop (length w + 1) arr)"

section \<open>Wakeups\<close>

fun wakeup_loop :: "chan \<Rightarrow> nat \<Rightarrow> nat \<Rightarrow> kstate \<Rightarrow> kstate" where
  "wakeup_loop ch p 0 s = s"
| "wakeup_loop ch p (Suc k) s =
     wakeup_loop ch (Suc p) k
       (if p_state (procs s p) = SLEEPING \<and> p_chan (procs s p) = Some ch
        then upd_proc p (\<lambda>x. x\<lparr>p_state := RUNNABLE\<rparr>) s else s)"

definition wakeup :: "chan \<Rightarrow> kstate \<Rightarrow> kstate" where
  "wakeup ch s = wakeup_loop ch 0 NPROC s"

section \<open>A concrete state\<close>

text \<open>A kernel with empty tables and an empty allocator, on which the theorems are instantiated.\<close>

definition empty_inode :: inode where
  "empty_inode = \<lparr>i_dev = 0, i_inum = 0, i_ref = 0, i_lock = initsleeplock, i_valid = False, i_type = 0,
     i_major = 0, i_minor = 0, i_nlink = 0, i_size = 0, i_addrs = replicate 13 0\<rparr>"

definition empty_fs :: fstate where
  "empty_fs = \<lparr>bufs = (\<lambda>_. \<lparr>b_valid = False, b_dev = 0, b_blockno = 0, b_lock = initsleeplock, b_refcnt = 0,
       b_prev = 0, b_next = 0, b_data = replicate BSIZE 0\<rparr>), disk = (\<lambda>_. replicate BSIZE 0), dwrites = [],
     lg_start = 2, lg_size = 30, outstanding = 0, committing = False, lg_dev = 1, lh_n = 0, lh_block = (\<lambda>_. 0),
     fsb = \<lparr>sb_magic = FSMAGIC, sb_size = 1000, sb_nblocks = 900, sb_ninodes = 200, sb_nlog = 30,
       sb_logstart = 2, sb_inodestart = 32, sb_bmapstart = 45\<rparr>, inodes = (\<lambda>_. empty_inode)\<rparr>"

definition empty_file :: kfile where
  "empty_file = \<lparr>f_type = FD_NONE, f_ref = 0, f_readable = False, f_writable = False, f_pipe = 0, f_ip = 0,
     f_off = 0, f_major = 0\<rparr>"

definition empty_context :: kcontext where
  "empty_context = \<lparr>c_ra = 0, c_sp = 0, c_s0 = 0, c_s1 = 0, c_s2 = 0, c_s3 = 0, c_s4 = 0, c_s5 = 0, c_s6 = 0, c_s7 = 0, c_s8 = 0, c_s9 = 0, c_s10 = 0, c_s11 = 0\<rparr>"

definition empty_proc :: proc where
  "empty_proc = \<lparr>p_state = UNUSED, p_parent = None, p_chan = None, p_killed = False, p_xstate = 0, p_pid = 0,
     p_kstack = 0, p_sz = 0, p_pagetable = 0, p_trapframe = 0, p_context = empty_context, p_ofile = (\<lambda>_. None),
     p_cwd = None, p_name = replicate 16 0\<rparr>"

definition empty_trapframe :: trapframe where
  "empty_trapframe = \<lparr>kernel_satp = 0, kernel_sp = 0, kernel_trap = 0, tf_epc = 0, kernel_hartid = 0,
     tf_ra = 0, tf_sp = 0, tf_gp = 0, tf_tp = 0, tf_t0 = 0, tf_t1 = 0, tf_t2 = 0, tf_s0 = 0, tf_s1 = 0, tf_a0 = 0, tf_a1 = 0, tf_a2 = 0, tf_a3 = 0, tf_a4 = 0,
     tf_a5 = 0, tf_a6 = 0, tf_a7 = 0, tf_s2 = 0, tf_s3 = 0, tf_s4 = 0, tf_s5 = 0, tf_s6 = 0, tf_s7 = 0, tf_s8 = 0, tf_s9 = 0, tf_s10 = 0, tf_s11 = 0, tf_t3 = 0, tf_t4 = 0, tf_t5 = 0, tf_t6 = 0\<rparr>"

definition empty_pipe :: pipe where
  "empty_pipe = \<lparr>p_data = replicate PIPESIZE 0, nread = 0, nwrite = 0, readopen = False, writeopen = False\<rparr>"

definition empty_k :: kstate where
  "empty_k = fstate.extend empty_fs (kstate.fields \<lparr>pmem = (\<lambda>_. 0), freelist = 0\<rparr> (\<lambda>_. empty_file) (\<lambda>_. empty_pipe)
     (\<lambda>_. empty_trapframe) (\<lambda>_. empty_proc) 1 0 0)"

lemma empty_k_simps [simp]:
  "ftable empty_k = (\<lambda>_. empty_file)" "procs empty_k = (\<lambda>_. empty_proc)" "pipes empty_k = (\<lambda>_. empty_pipe)"
  "kphys empty_k = \<lparr>pmem = (\<lambda>_. 0), freelist = 0\<rparr>" "nextpid empty_k = 1" "initproc empty_k = 0" "ticks empty_k = 0"
  "inodes empty_k = (\<lambda>_. empty_inode)"
  by (simp_all add: empty_k_def fstate.defs kstate.defs empty_fs_def)

end
