(* ===== verification/Fs_Read.thy ===== *)
theory Fs_Read
  imports Kstate
begin

text \<open>
  The contents of a file. \<open>file_block\<close> follows the direct, indirect and doubly indirect pointers of an
  inode through the contents of the blocks, \<open>file_bytes\<close> joins the data blocks up to the size of the
  file. \<open>bmap\<close> finds the blocks that are allocated, \<open>readi\<close> delivers the bytes of the file.
\<close>

section \<open>Reading a block and giving it back\<close>

lemma hold_clean:
  assumes H: "hold me s P H" and n: "n \<notin> P" "n \<notin> H"
  shows "bview s n = disk s n"
proof (cases "\<exists>b. cached (bufs s) n b \<and> b_valid (bufs s b)")
  case True
  then obtain b where b: "cached (bufs s) n b" "b_valid (bufs s b)" by blast
  have bn: "b < NBUF" "b_dev (bufs s b) = ROOTDEV" "b_blockno (bufs s b) = n" using b(1) by (auto simp: cached_def)
  have "b_refcnt (bufs s b) = 0" using holdD(4) [OF H b(1)] n by simp
  then have "b_data (bufs s b) = disk s n" using holdD(1) [OF H] b bn unfolding binv_def by blast
  then show ?thesis using bview_cached [OF holdD(1) [OF H] b] by simp
next
  case False
  then show ?thesis by (intro bview_disk) auto
qed

lemma bread_brelse:
  assumes H: "hold me s P H" and n: "n \<notin> H" and room: "n \<in> P \<or> card (P \<union> H) < NBUF"
  shows "\<exists>b s1 s2. bread me ROOTDEV n s = Ok (b, s1) \<and> b_data (bufs s1 b) = bview s n \<and>
    (\<exists>bs. s1 = s\<lparr>bufs := bs\<rparr>) \<and> brelse me b s1 = Ok s2 \<and> hold me s2 P H \<and> bview s2 = bview s \<and>
    (\<exists>bs. s2 = s\<lparr>bufs := bs\<rparr>)"
proof -
  obtain b s1 bs where 1: "bread me ROOTDEV n s = Ok (b, s1)" "hold me s1 P (insert n H)" "cached (bufs s1) n b"
    "b_data (bufs s1 b) = bview s n" "bview s1 = bview s" "s1 = s\<lparr>bufs := bs\<rparr>"
    using bread_hold [OF H n room] by blast
  have "n \<in> P \<or> bview s1 n = disk s1 n" using hold_clean [OF H _ n] 1(5,6) by auto
  from brelse_hold [OF 1(2) insertI1 1(3) this] obtain s2 bs' where
    2: "brelse me b s1 = Ok s2" "hold me s2 P (insert n H - {n})" "bview s2 = bview s1" "s2 = s1\<lparr>bufs := bs'\<rparr>" by blast
  have "insert n H - {n} = H" using n by auto
  then show ?thesis using 1 2 by auto
qed

section \<open>The blocks of a file\<close>

definition file_block :: "(u32 \<Rightarrow> block) \<Rightarrow> u32 list \<Rightarrow> nat \<Rightarrow> u32" where
  "file_block v addrs bn =
     (if bn < NDIRECT then addrs ! bn
      else if bn - NDIRECT < NINDIRECT then get32 (v (addrs ! NDIRECT)) (bn - NDIRECT)
      else let k = bn - NDIRECT - NINDIRECT in
           get32 (v (get32 (v (addrs ! (NDIRECT + 1))) (k div NINDIRECT))) (k mod NINDIRECT))"

text \<open>
  Every pointer on the way to block \<open>bn\<close> is there, and the two levels of a doubly indirect block are
  different blocks.
\<close>

definition has_block :: "(u32 \<Rightarrow> block) \<Rightarrow> u32 list \<Rightarrow> nat \<Rightarrow> bool" where
  "has_block v addrs bn \<longleftrightarrow> bn < MAXFILE \<and> file_block v addrs bn \<noteq> 0 \<and>
     (NDIRECT \<le> bn \<longrightarrow> bn < NDIRECT + NINDIRECT \<longrightarrow> addrs ! NDIRECT \<noteq> 0) \<and>
     (NDIRECT + NINDIRECT \<le> bn \<longrightarrow>
        (let d = addrs ! (NDIRECT + 1); e = get32 (v d) ((bn - NDIRECT - NINDIRECT) div NINDIRECT)
         in d \<noteq> 0 \<and> e \<noteq> 0 \<and> d \<noteq> e))"

lemma bmap_entry_found:
  "get32 (b_data (bufs s bp)) i \<noteq> 0 \<Longrightarrow> bmap_entry me dev bp i s = Ok (get32 (b_data (bufs s bp)) i, s)"
  by (simp add: bmap_entry_def Let_def)

definition keeps :: "int \<Rightarrow> u32 set \<Rightarrow> 'a bstate_scheme \<Rightarrow> 'a bstate_scheme \<Rightarrow> bool" where
  "keeps me P s s' \<longleftrightarrow> hold me s' P {} \<and> bview s' = bview s \<and> (\<exists>bs. s' = s\<lparr>bufs := bs\<rparr>)"

lemma bmap_double_found:
  assumes H: "hold me s P {}" and room: "card P + 1 < NBUF" and d: "d \<noteq> e"
    and e: "get32 (bview s d) i = e" "e \<noteq> 0" and a: "get32 (bview s e) j = a" "a \<noteq> 0"
  shows "\<exists>s'. keeps me P s s' \<and>
    obind (bread me ROOTDEV d s) (\<lambda>(bp, s1).
    obind (bmap_entry me ROOTDEV bp i s1) (\<lambda>(addr, s2).
    obind (bread me ROOTDEV addr s2) (\<lambda>(bp2, s3).
    obind (bmap_entry me ROOTDEV bp2 j s3) (\<lambda>(addr, s4).
    obind (brelse me bp s4) (\<lambda>s5.
    obind (brelse me bp2 s5) (\<lambda>s6. Ok (addr, s6))))))) = Ok (a, s')"
proof -
  have fin: "finite P" using holdD(2) [OF H] by simp
  have c: "card (P \<union> {}) < NBUF" "card (P \<union> {d}) < NBUF" using room card_insert_le_m1 [of "card P + 1" P d] fin
    by (auto simp: card_insert_if)
  obtain b1 s1 bs1 where 1: "bread me ROOTDEV d s = Ok (b1, s1)" "hold me s1 P {d}" "cached (bufs s1) d b1"
    "b_data (bufs s1 b1) = bview s d" "bview s1 = bview s" "s1 = s\<lparr>bufs := bs1\<rparr>"
    using bread_hold [OF H, of d] c(1) by auto
  obtain b2 s3 bs3 where 3: "bread me ROOTDEV e s1 = Ok (b2, s3)" "hold me s3 P {e, d}" "cached (bufs s3) e b2"
    "b_data (bufs s3 b2) = bview s1 e" "bview s3 = bview s1" "s3 = s1\<lparr>bufs := bs3\<rparr>" "cached (bufs s3) d b1"
    using bread_hold [OF 1(2), of e] c(2) d 1(3) by auto
  have cl: "n \<in> P \<or> bview s n = disk s n" for n using hold_clean [OF H] by auto
  obtain s5 bs5 where 5: "brelse me b1 s3 = Ok s5" "hold me s5 P ({e, d} - {d})" "bview s5 = bview s3" "s5 = s3\<lparr>bufs := bs5\<rparr>"
    "cached (bufs s5) e b2"
    using brelse_hold [OF 3(2) _ 3(7)] cl [of d] 1(5,6) 3(3,5,6) by auto
  have "{e, d} - {d} = {e}" using d by auto
  then obtain s6 bs6 where 6: "brelse me b2 s5 = Ok s6" "hold me s6 P ({e} - {e})" "bview s6 = bview s5" "s6 = s5\<lparr>bufs := bs6\<rparr>"
    using brelse_hold [of me s5 P "{e}" e b2] 5 cl [of e] 1(5,6) 3(5,6) by auto
  have "keeps me P s s6" using 1 3 5 6 by (auto simp: keeps_def)
  then show ?thesis using 1 3 5 6 e a by (auto simp: bmap_entry_found)
qed

lemma bmap_found:
  assumes H: "hold me s P {}" and room: "card P + 1 < NBUF" and dev: "i_dev (inodes s ip) = ROOTDEV"
    and bn: "has_block (bview s) (i_addrs (inodes s ip)) bn"
  shows "\<exists>s'. bmap me ip bn s = Ok (file_block (bview s) (i_addrs (inodes s ip)) bn, s') \<and> keeps me P s s'"
proof -
  let ?A = "i_addrs (inodes s ip)"
  have z: "file_block (bview s) ?A bn \<noteq> 0" using bn by (simp add: has_block_def)
  have refl: "keeps me P s s" using H by (auto simp: keeps_def intro: exI [of _ "bufs s"])
  consider "bn < NDIRECT" | "NDIRECT \<le> bn" "bn < NDIRECT + NINDIRECT" | "NDIRECT + NINDIRECT \<le> bn" by linarith
  then show ?thesis
  proof cases
    case 1
    then show ?thesis using z refl by (auto simp: bmap_def file_block_def)
  next
    case 2
    let ?n = "?A ! NDIRECT"
    have c: "card (P \<union> {}) < NBUF" using room by simp
    obtain b s1 s2 where b: "bread me ROOTDEV ?n s = Ok (b, s1)" "b_data (bufs s1 b) = bview s ?n"
      "brelse me b s1 = Ok s2" "keeps me P s s2"
      using bread_brelse [OF H, of ?n] c by (auto simp: keeps_def)
    have lt: "bn - NDIRECT < NINDIRECT" using 2 by simp
    then have "?n \<noteq> 0" "get32 (bview s ?n) (bn - NDIRECT) \<noteq> 0" using bn 2 by (auto simp: has_block_def file_block_def)
    then show ?thesis using 2 lt b dev by (auto simp: bmap_def file_block_def bmap_entry_found)
  next
    case 3
    let ?k = "bn - NDIRECT - NINDIRECT"
    have lt: "\<not> bn < NDIRECT" "\<not> bn - NDIRECT < NINDIRECT" using 3 by auto
    have k: "?k div NINDIRECT < NINDIRECT"
      using bn 3 by (auto simp: has_block_def MAXFILE_def NINDIRECT_def NDIRECT_def BSIZE_def div_less_iff_less_mult)
    let ?e = "get32 (bview s (?A ! (NDIRECT + 1))) (?k div NINDIRECT)"
    have e: "?A ! (NDIRECT + 1) \<noteq> ?e" "?e \<noteq> 0" using bn 3 by (auto simp: has_block_def Let_def)
    have fb: "file_block (bview s) ?A bn = get32 (bview s ?e) (?k mod NINDIRECT)"
      using lt by (simp add: file_block_def Let_def)
    have nz: "get32 (bview s ?e) (?k mod NINDIRECT) \<noteq> 0" using z unfolding fb .
    show ?thesis
      using lt bmap_double_found [OF H room e(1) HOL.refl e(2) HOL.refl nz] k dev
      by (simp add: bmap_def fb Let_def) blast
  qed
qed

section \<open>The bytes of a file\<close>

definition nblocks :: "nat \<Rightarrow> nat" where
  "nblocks sz = (sz + BSIZE - 1) div BSIZE"

definition file_bytes :: "(u32 \<Rightarrow> block) \<Rightarrow> inode \<Rightarrow> u8 list" where
  "file_bytes v i = take (unat (i_size i))
     (concat (map (\<lambda>bn. v (file_block v (i_addrs i) bn)) [0..<nblocks (unat (i_size i))]))"

lemma nblocks_gt: "off < sz \<Longrightarrow> off div BSIZE < nblocks sz"
  unfolding nblocks_def BSIZE_def by linarith

lemma concat_block:
  assumes "\<And>i. i < k \<Longrightarrow> length (f i) = B" and "q < k" and "r + m \<le> B"
  shows "take m (drop (q * B + r) (concat (map f [0..<k]))) = take m (drop r (f q))"
proof -
  have len: "length (concat (map f [0..<q])) = q * B" if "q \<le> k" for q
    using that assms(1) by (induction q) auto
  have "[0..<k] = [0..<q] @ q # [Suc q..<k]"
    using assms(2) by (metis le0 le_add_diff_inverse less_imp_le_nat upt_add_eq_append upt_conv_Cons)
  then have "concat (map f [0..<k]) = concat (map f [0..<q]) @ f q @ concat (map f [Suc q..<k])" by simp
  then show ?thesis using len [of q] assms by simp
qed

lemma file_bytes_block:
  assumes "\<And>bn. bn < nblocks (unat (i_size i)) \<Longrightarrow> length (v (file_block v (i_addrs i) bn)) = BSIZE"
    and "0 < m" and "off + m \<le> unat (i_size i)" and "off mod BSIZE + m \<le> BSIZE"
  shows "take m (drop off (file_bytes v i)) = take m (drop (off mod BSIZE) (v (file_block v (i_addrs i) (off div BSIZE))))"
proof -
  let ?f = "\<lambda>bn. v (file_block v (i_addrs i) bn)"
  have q: "off div BSIZE < nblocks (unat (i_size i))" using assms(2,3) by (intro nblocks_gt) simp
  have "take m (drop off (file_bytes v i)) = take m (drop (off div BSIZE * BSIZE + off mod BSIZE) (concat (map ?f [0..<nblocks (unat (i_size i))])))"
    using assms(3) by (simp add: file_bytes_def drop_take min_def)
  then show ?thesis using concat_block [of "nblocks (unat (i_size i))" ?f BSIZE, OF assms(1) q assms(4)] by simp
qed

lemma nblocks_le: "sz \<le> nblocks sz * BSIZE"
  unfolding nblocks_def BSIZE_def by linarith

text \<open>A file whose blocks are all there.\<close>

definition file_ok :: "(u32 \<Rightarrow> block) \<Rightarrow> inode \<Rightarrow> bool" where
  "file_ok v i \<longleftrightarrow> i_dev i = ROOTDEV \<and>
     (\<forall>bn < nblocks (unat (i_size i)). has_block v (i_addrs i) bn \<and> length (v (file_block v (i_addrs i) bn)) = BSIZE)"

lemma length_file_bytes:
  assumes "file_ok v i"
  shows "length (file_bytes v i) = unat (i_size i)"
proof -
  let ?f = "\<lambda>bn. v (file_block v (i_addrs i) bn)" and ?k = "nblocks (unat (i_size i))"
  have "length (concat (map ?f [0..<q])) = q * BSIZE" if "q \<le> ?k" for q
    using that assms by (induction q) (auto simp: file_ok_def)
  from this [OF order_refl] show ?thesis using nblocks_le [of "unat (i_size i)"] by (simp add: file_bytes_def)
qed

lemma readi_loop_reads:
  assumes "hold me s P {}" and "card P + 1 < NBUF" and "file_ok (bview s) (inodes s ip)"
    and "off + (n - tot) \<le> unat (i_size (inodes s ip))" and "tot \<le> n"
  shows "\<exists>s'. readi_loop me kcout ip dst off tot n acc s =
      Ok (int n, acc @ take (n - tot) (drop off (file_bytes (bview s) (inodes s ip))), s') \<and> keeps me P s s'"
  using assms
proof (induction "n - tot" arbitrary: dst off tot acc s rule: less_induct)
  case less
  note H = less.prems(1) and room = less.prems(2) and ok = less.prems(3)
  let ?i = "inodes s ip" and ?m = "blk_part (n - tot) off"
  let ?F = "file_bytes (bview s) ?i" and ?a = "file_block (bview s) (i_addrs (inodes s ip)) (off div BSIZE)"
  show ?case
  proof (cases "tot < n")
    case False
    then show ?thesis using less.prems H
      by (subst readi_loop.simps) (auto simp: keeps_def intro: exI [of _ "bufs s"])
  next
    case True
    have m: "0 < ?m" "?m \<le> n - tot" "off mod BSIZE + ?m \<le> BSIZE"
      using True by (auto simp: blk_part_def BSIZE_def)
    have bn: "off div BSIZE < nblocks (unat (i_size ?i))" using True less.prems(4) by (intro nblocks_gt) simp
    then have hb: "has_block (bview s) (i_addrs ?i) (off div BSIZE)" and dev: "i_dev ?i = ROOTDEV" using ok by (auto simp: file_ok_def)
    obtain s1 bs1 where 1: "bmap me ip (off div BSIZE) s = Ok (?a, s1)" "hold me s1 P {}" "bview s1 = bview s" "s1 = s\<lparr>bufs := bs1\<rparr>"
      using bmap_found [OF H room dev hb] by (auto simp: keeps_def)
    have c: "card (P \<union> {}) < NBUF" using room by simp
    obtain b s2 s3 bs3 where 2: "bread me ROOTDEV ?a s1 = Ok (b, s2)" "b_data (bufs s2 b) = bview s ?a"
      "brelse me b s2 = Ok s3" "hold me s3 P {}" "bview s3 = bview s" "s3 = s\<lparr>bufs := bs3\<rparr>"
      using bread_brelse [OF 1(2), of ?a] c 1(3,4) by auto
    have i3: "inodes s3 ip = ?i" using 2(6) by simp
    have "n - (tot + ?m) < n - tot" using m True by simp
    from less.hyps [OF this 2(4) room, of "off + ?m" "dst + of_nat ?m" "acc @ take ?m (drop (off mod BSIZE) (bview s ?a))"]
    obtain s' where s': "readi_loop me kcout ip (dst + of_nat ?m) (off + ?m) (tot + ?m) n
          (acc @ take ?m (drop (off mod BSIZE) (bview s ?a))) s3 =
        Ok (int n, (acc @ take ?m (drop (off mod BSIZE) (bview s ?a))) @ take (n - (tot + ?m)) (drop (off + ?m) ?F), s')"
      "keeps me P s3 s'"
      using less.prems(4) m ok True unfolding i3 2(5) by fastforce
    have "take ?m (drop off ?F) = take ?m (drop (off mod BSIZE) (bview s ?a))"
      using ok m less.prems(4) by (intro file_bytes_block) (auto simp: file_ok_def)
    then have "take ?m (drop (off mod BSIZE) (bview s ?a)) @ take (n - (tot + ?m)) (drop (off + ?m) ?F) = take (n - tot) (drop off ?F)"
      using m take_add [of ?m "n - (tot + ?m)" "drop off ?F"] by (simp add: add.commute)
    moreover have "keeps me P s s'" using s'(2) 2(5,6) by (auto simp: keeps_def)
    ultimately show ?thesis
      using True 1 2 s'(1) dev by (subst readi_loop.simps) (auto simp: kcout_def)
  qed
qed

lemma readi_reads:
  assumes "hold me s P {}" and "card P + 1 < NBUF" and "file_ok (bview s) (inodes s ip)"
    and "unat off + unat n < 2 ^ 32"
  shows "\<exists>s' bs. readi me kcout ip dst off n [] s =
      Ok (int (length bs), bs, s') \<and> bs = take (unat n) (drop (unat off) (file_bytes (bview s) (inodes s ip))) \<and>
      hold me s' P {} \<and> bview s' = bview s \<and> disk s' = disk s \<and> inodes s' = inodes s"
proof -
  let ?F = "file_bytes (bview s) (inodes s ip)" and ?sz = "i_size (inodes s ip)"
  have sum: "unat (off + n) = unat off + unat n" using assms(4) by (simp add: unat_plus_no_wrap)
  then have no: "\<not> off + n < off" by (simp add: word_less_nat_alt)
  have len: "length ?F = unat ?sz" by (rule length_file_bytes [OF assms(3)])
  show ?thesis
  proof (cases "off > ?sz")
    case True
    then show ?thesis using assms(1) len by (auto simp: readi_def word_less_nat_alt)
  next
    case False
    let ?n = "if off + n > ?sz then ?sz - off else n"
    have n: "unat off + unat ?n \<le> unat ?sz" "take (unat ?n) (drop (unat off) ?F) = take (unat n) (drop (unat off) ?F)"
      "unat ?n = length (take (unat n) (drop (unat off) ?F))"
      using False sum len by (auto simp: word_less_nat_alt unat_minus_le word_le_nat_alt not_less min_def)
    obtain s' where "readi_loop me kcout ip dst (unat off) 0 (unat ?n) [] s = Ok (int (unat ?n), take (unat ?n) (drop (unat off) ?F), s')"
      "keeps me P s s'"
      using readi_loop_reads [OF assms(1-3), of "unat off" "unat ?n" 0 dst "[]"] n(1) by auto
    then show ?thesis using False no n(2,3) by (auto simp: readi_def Let_def keeps_def)
  qed
qed

text \<open>
  C6: \<open>readi\<close> into a kernel buffer delivers exactly the bytes of the file from \<open>off\<close> on, at most \<open>n\<close> of
  them and none behind the end of the file, for a file whose blocks are all there, direct, indirect
  and doubly indirect; it changes neither the disk nor the contents of any block, and holds no
  buffer at the end.
\<close>

theorem readi_reads_file:
  assumes "hold me s P {}" and "card P + 1 < NBUF" and "file_ok (bview s) (inodes s ip)"
    and "unat off + unat n < 2 ^ 32"
  shows "\<exists>s' bs. readi me kcout ip dst off n [] s =
      Ok (int (length bs), bs, s') \<and> bs = take (unat n) (drop (unat off) (file_bytes (bview s) (inodes s ip))) \<and>
      hold me s' P {} \<and> bview s' = bview s \<and> disk s' = disk s \<and> inodes s' = inodes s"
  using readi_reads [OF assms] .

definition sample_fs :: fstate where
  "sample_fs = binit (empty_fs\<lparr>disk := (\<lambda>_. replicate BSIZE 7),
     inodes := (\<lambda>_. empty_inode\<lparr>i_dev := ROOTDEV, i_size := 5, i_addrs := 46 # replicate 12 0\<rparr>)\<rparr>)"

lemma sample_fs_hold: "hold me sample_fs {} {}" "bview sample_fs = (\<lambda>_. replicate BSIZE 7)"
  "inodes sample_fs ip = empty_inode\<lparr>i_dev := ROOTDEV, i_size := 5, i_addrs := 46 # replicate 12 0\<rparr>"
  using binit_hold [of "empty_fs\<lparr>disk := (\<lambda>_. replicate BSIZE 7),
     inodes := (\<lambda>_. empty_inode\<lparr>i_dev := ROOTDEV, i_size := 5, i_addrs := 46 # replicate 12 0\<rparr>)\<rparr>" me]
  by (auto simp: sample_fs_def empty_fs_def ROOTDEV_def)

lemma sample_file: "file_ok (bview sample_fs) (inodes sample_fs ip)"
  "file_bytes (bview sample_fs) (inodes sample_fs ip) = [7, 7, 7, 7, 7]"
proof -
  have n: "nblocks 5 = 1" "unat (5 :: u32) = 5" by (simp_all add: nblocks_def BSIZE_def)
  show "file_ok (bview sample_fs) (inodes sample_fs ip)"
    by (simp add: sample_fs_hold file_ok_def has_block_def file_block_def n NDIRECT_def MAXFILE_def)
  have "replicate 5 (7 :: u8) = [7, 7, 7, 7, 7]" by (simp add: eval_nat_numeral)
  moreover have "min 5 BSIZE = 5" by (simp add: BSIZE_def)
  ultimately show "file_bytes (bview sample_fs) (inodes sample_fs ip) = [7, 7, 7, 7, 7]"
    by (simp add: sample_fs_hold file_bytes_def n)
qed

theorem readi_reads_file_witness:
  "\<exists>s'. readi 1 kcout 0 0 1 9 [] sample_fs = Ok (4, [7, 7, 7, 7], s') \<and> hold 1 s' {} {} \<and>
     bview s' = bview sample_fs \<and> disk s' = disk sample_fs \<and> inodes s' = inodes sample_fs"
  using readi_reads_file [OF sample_fs_hold(1) _ sample_file(1), of 1 9 1 0]
  by (auto simp: sample_file(2) NBUF_def)

end
