(* ===== verification/Fs_Write.thy ===== *)
theory Fs_Write
  imports Fs_Read Log_Commit
begin

text \<open>
  Writing to a file inside a transaction. \<open>txn\<close> is the state of a transaction with \<open>k\<close> logged blocks;
  \<open>writei\<close> over existing bytes of a file replaces exactly these bytes, and \<open>readi\<close> reads them back.
\<close>

section \<open>Writing a block in a transaction\<close>

definition txn :: "int \<Rightarrow> nat \<Rightarrow> 'a lstate_scheme \<Rightarrow> bool" where
  "txn me k s \<longleftrightarrow> hold me s (logged s k) {} \<and> lh_n s = int k \<and> inj_on (lh_block s) {..<k} \<and> 1 \<le> outstanding s"

text \<open>What a write may change of the state: the buffers and the list of logged blocks.\<close>

definition log_only :: "'a lstate_scheme \<Rightarrow> 'a lstate_scheme \<Rightarrow> bool" where
  "log_only s s' \<longleftrightarrow> (\<exists>bs lb ln. s' = s\<lparr>bufs := bs, lh_block := lb, lh_n := ln\<rparr>)"

lemma log_only_trans: "log_only s s' \<Longrightarrow> log_only s' s'' \<Longrightarrow> log_only s s''"
  by (fastforce simp: log_only_def)

lemma log_only_refl [simp]: "log_only s s"
  unfolding log_only_def by (intro exI [of _ "bufs s"] exI [of _ "lh_block s"] exI [of _ "lh_n s"]) simp

lemma log_only_bufs: "s' = s\<lparr>bufs := bs\<rparr> \<Longrightarrow> log_only s s'"
  unfolding log_only_def by (intro exI [of _ bs] exI [of _ "lh_block s"] exI [of _ "lh_n s"]) simp

lemma log_only_rest:
  assumes "log_only s (s' :: 'a fstate_scheme)"
  shows "disk s' = disk s" "inodes s' = inodes s" "fsb s' = fsb s" "lg_size s' = lg_size s"
  using assms by (auto simp: log_only_def)

lemma card_logged: "card (logged s k) \<le> k"
  unfolding logged_def using card_image_le [of "{..<k}" "lh_block s"] by simp

lemma block_write:
  assumes T: "txn me k s" and k: "int k < LOGSIZE" "int k < lg_size s - 1"
  shows "\<exists>b s1. bread me ROOTDEV n s = Ok (b, s1) \<and> b_data (bufs s1 b) = bview s n \<and> log_only s s1 \<and>
    (\<forall>d. \<exists>s2 s3 k'. log_write b (set_data b d s1) = Ok s2 \<and> brelse me b s2 = Ok s3 \<and>
       txn me k' s3 \<and> k' \<le> Suc k \<and> bview s3 = (bview s)(n := d) \<and> log_only s s3)"
proof -
  have H: "hold me s (logged s k) {}" using T by (simp add: txn_def)
  have c: "card (logged s k \<union> {}) < NBUF" using card_logged [of s k] k by (simp add: LOGSIZE_def NBUF_def)
  obtain b s1 bs where 1: "bread me ROOTDEV n s = Ok (b, s1)" "hold me s1 (logged s k) {n}" "cached (bufs s1) n b"
    "b_data (bufs s1 b) = bview s n" "bview s1 = bview s" "s1 = s\<lparr>bufs := bs\<rparr>"
    using bread_hold [OF H, of n] c by auto
  have "\<exists>s2 s3 k'. log_write b (set_data b d s1) = Ok s2 \<and> brelse me b s2 = Ok s3 \<and>
       txn me k' s3 \<and> k' \<le> Suc k \<and> bview s3 = (bview s)(n := d) \<and> log_only s s3" for d
  proof -
    let ?s = "set_data b d s1"
    have sd: "hold me ?s (logged s k) {n}" "bview ?s = (bview s)(n := d)" "cached (bufs ?s) n b"
      using set_data_hold [OF 1(2) _ 1(3), of d] 1(3,5) by auto
    have r: "logged ?s k = logged s k" "lh_n ?s = lh_n s" "lh_block ?s = lh_block s" "outstanding ?s = outstanding s"
      "lg_size ?s = lg_size s" using 1(6) by (simp_all add: set_data_def upd_buf_def logged_def)
    have lo: "log_only s ?s" unfolding 1(6) set_data_def upd_buf_def by (rule log_only_bufs) simp
    have t: "lh_n s = int k" "inj_on (lh_block s) {..<k}" "1 \<le> outstanding s" using T by (auto simp: txn_def)
    obtain s2 k' where 2: "log_write b ?s = Ok s2" "k' = (if n \<in> logged s k then k else Suc k)" "lh_n s2 = int k'"
      "logged s2 k' = insert n (logged s k)" "inj_on (lh_block s2) {..<k'}" "hold me s2 (logged s2 k') {n}"
      "bview s2 = bview ?s" "log_only ?s s2" "cached (bufs s2) n b"
      using log_write_hold [of me ?s k "{n}" n b, unfolded r, OF sd(1) t(1,2) _ sd(3) t(3) k] sd(3) unfolding log_only_def by blast
    obtain s3 bs' where 3: "brelse me b s2 = Ok s3" "hold me s3 (logged s2 k') ({n} - {n})" "bview s3 = bview s2" "s3 = s2\<lparr>bufs := bs'\<rparr>"
      using brelse_hold [OF 2(6) _ 2(9)] 2(4) by auto
    have out: "outstanding s2 = outstanding s" using 2(8) r(4) by (auto simp: log_only_def)
    have "txn me k' s3" using 3 2 T out by (simp add: txn_def logged_def)
    moreover have "log_only s s3" using log_only_trans [OF log_only_trans [OF lo 2(8)] log_only_bufs [OF 3(4)]] .
    ultimately show ?thesis using 2 3 sd(2) by (intro exI [of _ s2] exI [of _ s3] exI [of _ k']) auto
  qed
  then show ?thesis using 1 log_only_bufs [OF 1(6)] by (intro exI [of _ b] exI [of _ s1]) auto
qed

section \<open>Files whose blocks are apart\<close>

definition meta_blocks :: "(u32 \<Rightarrow> block) \<Rightarrow> u32 list \<Rightarrow> u32 set" where
  "meta_blocks v addrs = {addrs ! NDIRECT, addrs ! (NDIRECT + 1)} \<union> get32 (v (addrs ! (NDIRECT + 1))) ` {..<NINDIRECT}"

definition data_blocks :: "(u32 \<Rightarrow> block) \<Rightarrow> inode \<Rightarrow> u32 set" where
  "data_blocks v i = file_block v (i_addrs i) ` {..<nblocks (unat (i_size i))}"

definition file_apart :: "(u32 \<Rightarrow> block) \<Rightarrow> inode \<Rightarrow> bool" where
  "file_apart v i \<longleftrightarrow> file_ok v i \<and> inj_on (file_block v (i_addrs i)) {..<nblocks (unat (i_size i))} \<and>
     data_blocks v i \<inter> meta_blocks v (i_addrs i) = {}"

lemma file_block_upd:
  assumes "a \<notin> meta_blocks v addrs" and "bn < MAXFILE"
  shows "file_block (v(a := d)) addrs bn = file_block v addrs bn"
proof (cases "bn < NDIRECT + NINDIRECT")
  case True
  then show ?thesis using assms(1) by (auto simp: file_block_def meta_blocks_def)
next
  case False
  let ?e = "get32 (v (addrs ! (NDIRECT + 1))) ((bn - NDIRECT - NINDIRECT) div NINDIRECT)"
  have "(bn - NDIRECT - NINDIRECT) div NINDIRECT < NINDIRECT"
    using False assms(2) by (auto simp: MAXFILE_def NINDIRECT_def NDIRECT_def BSIZE_def div_less_iff_less_mult)
  then have "a \<noteq> ?e" "a \<noteq> addrs ! (NDIRECT + 1)" using assms(1) by (auto simp: meta_blocks_def)
  moreover have "\<not> bn < NDIRECT" "\<not> bn - NDIRECT < NINDIRECT" using False by auto
  ultimately show ?thesis by (simp add: file_block_def Let_def)
qed

lemma meta_upd: "a \<notin> meta_blocks v addrs \<Longrightarrow> meta_blocks (v(a := d)) addrs = meta_blocks v addrs"
  by (auto simp: meta_blocks_def)

lemma has_block_upd:
  assumes "a \<notin> meta_blocks v addrs"
  shows "has_block (v(a := d)) addrs bn = has_block v addrs bn"
  using assms file_block_upd [OF assms, of bn d] unfolding has_block_def meta_blocks_def
  by (cases "bn < MAXFILE") (auto simp: Let_def)

lemma file_ok_MAXFILE: "file_ok v i \<Longrightarrow> bn < nblocks (unat (i_size i)) \<Longrightarrow> bn < MAXFILE"
  by (simp add: file_ok_def has_block_def)

lemma file_apart_upd:
  assumes A: "file_apart v i" and a: "a \<notin> meta_blocks v (i_addrs i)" and d: "length d = BSIZE"
  shows "file_apart (v(a := d)) i \<and> data_blocks (v(a := d)) i = data_blocks v i"
proof -
  have eq: "file_block (v(a := d)) (i_addrs i) bn = file_block v (i_addrs i) bn" if "bn < nblocks (unat (i_size i))" for bn
    using file_block_upd [OF a] file_ok_MAXFILE [of v, OF _ that] A by (simp add: file_apart_def)
  have "data_blocks (v(a := d)) i = data_blocks v i" unfolding data_blocks_def using eq by (intro image_cong) auto
  moreover have "file_ok (v(a := d)) i"
    using A d eq has_block_upd [OF a] by (auto simp: file_apart_def file_ok_def)
  ultimately show ?thesis using A eq meta_upd [OF a] by (auto simp: file_apart_def inj_on_def)
qed

lemma nth_file_bytes:
  assumes "file_ok v i" and "j < unat (i_size i)"
  shows "file_bytes v i ! j = v (file_block v (i_addrs i) (j div BSIZE)) ! (j mod BSIZE)"
proof -
  have "j mod BSIZE + 1 \<le> BSIZE" by (simp add: BSIZE_def Suc_leI)
  then have "take 1 (drop j (file_bytes v i)) = take 1 (drop (j mod BSIZE) (v (file_block v (i_addrs i) (j div BSIZE))))"
    using assms by (intro file_bytes_block) (auto simp: file_ok_def)
  moreover have "length (v (file_block v (i_addrs i) (j div BSIZE))) = BSIZE"
    using assms nblocks_gt [OF assms(2)] by (simp add: file_ok_def)
  ultimately show ?thesis using assms length_file_bytes [OF assms(1)]
    by (simp add: take_Suc_conv_app_nth take_drop hd_drop_conv_nth take_Suc_Cons Cons_nth_drop_Suc [symmetric] BSIZE_def)
qed

definition overwrite :: "nat \<Rightarrow> 'a list \<Rightarrow> 'a list \<Rightarrow> 'a list" where
  "overwrite off bs xs = take off xs @ bs @ drop (off + length bs) xs"

lemma length_overwrite [simp]: "off + length bs \<le> length xs \<Longrightarrow> length (overwrite off bs xs) = length xs"
  by (simp add: overwrite_def)

lemma nth_overwrite:
  assumes "off + length bs \<le> length xs" and "j < length xs"
  shows "overwrite off bs xs ! j = (if off \<le> j \<and> j < off + length bs then bs ! (j - off) else xs ! j)"
  using assms by (auto simp: overwrite_def nth_append min_def)

lemma overwrite_overwrite:
  assumes "off + length bs + length cs \<le> length xs"
  shows "overwrite (off + length bs) cs (overwrite off bs xs) = overwrite off (bs @ cs) xs"
  using assms by (intro nth_equalityI) (auto simp: nth_overwrite nth_append)

lemma same_block:
  assumes "j div B = off div (B :: nat)"
  shows "off \<le> j \<and> j < off + l \<longleftrightarrow> off mod B \<le> j mod B \<and> j mod B < off mod B + l"
    and "j mod B - off mod B = j - off"
proof -
  have "j = off div B * B + j mod B" "off = off div B * B + off mod B" using assms by (metis div_mult_mod_eq)+
  moreover have "(b \<le> a \<and> a < b + l \<longleftrightarrow> b' \<le> a' \<and> a' < b' + l) \<and> a' - b' = a - b"
    if "a = q + a'" "b = q + b'" for a b q a' b' :: nat
    using that by auto
  ultimately show "off \<le> j \<and> j < off + l \<longleftrightarrow> off mod B \<le> j mod B \<and> j mod B < off mod B + l"
    "j mod B - off mod B = j - off" by metis+
qed

lemma file_bytes_upd:
  assumes A: "file_apart v i" and m: "off + length bs \<le> unat (i_size i)" "off mod BSIZE + length bs \<le> BSIZE" "bs \<noteq> []"
    and a: "a = file_block v (i_addrs i) (off div BSIZE)"
  shows "file_bytes (v(a := overwrite (off mod BSIZE) bs (v a))) i = overwrite off bs (file_bytes v i)"
proof -
  let ?v = "v(a := overwrite (off mod BSIZE) bs (v a))" and ?N = "nblocks (unat (i_size i))"
  have ok: "file_ok v i" using A by (simp add: file_apart_def)
  have q: "off div BSIZE < ?N" using m(1,3) by (intro nblocks_gt) (cases bs; simp)
  have la: "length (v a) = BSIZE" using ok q a by (simp add: file_ok_def)
  have am: "a \<notin> meta_blocks v (i_addrs i)" using A q a by (auto simp: file_apart_def data_blocks_def)
  have ok': "file_ok ?v i" using file_apart_upd [OF A am] la m(2) by (simp add: file_apart_def)
  note len = length_file_bytes [OF ok] length_file_bytes [OF ok']
  show ?thesis
  proof (rule nth_equalityI)
    show "length (file_bytes ?v i) = length (overwrite off bs (file_bytes v i))" using len m(1) by simp
    fix j assume "j < length (file_bytes ?v i)"
    then have j: "j < unat (i_size i)" using len by simp
    have jN: "j div BSIZE < ?N" by (rule nblocks_gt [OF j])
    have fb: "file_block ?v (i_addrs i) (j div BSIZE) = file_block v (i_addrs i) (j div BSIZE)"
      using file_block_upd [OF am] file_ok_MAXFILE [OF ok jN] by simp
    have inj: "file_block v (i_addrs i) (j div BSIZE) = a \<longleftrightarrow> j div BSIZE = off div BSIZE"
      using A jN q a unfolding file_apart_def inj_on_def by auto
    have j1: "file_bytes ?v i ! j = ?v (file_block v (i_addrs i) (j div BSIZE)) ! (j mod BSIZE)"
      using nth_file_bytes [OF ok' j] fb by simp
    show "file_bytes ?v i ! j = overwrite off bs (file_bytes v i) ! j"
    proof (cases "j div BSIZE = off div BSIZE")
      case True
      have jb: "j mod BSIZE < BSIZE" by (simp add: BSIZE_def)
      note io = same_block [OF True]
      show ?thesis
        using True inj j1 nth_file_bytes [OF ok j] m(1,2) la jb len j io by (simp add: nth_overwrite)
    next
      case False
      have "\<not> (off \<le> j \<and> j < off + length bs)"
      proof
        assume h: "off \<le> j \<and> j < off + length bs"
        then have "j < off div BSIZE * BSIZE + BSIZE" using m(2) div_mult_mod_eq [of off BSIZE] by linarith
        then have "j < (off div BSIZE + 1) * BSIZE" by simp
        then have "j div BSIZE \<le> off div BSIZE" by (simp add: less_mult_imp_div_less less_Suc_eq_le [symmetric])
        then show False using False h div_le_mono [of off j BSIZE] by simp
      qed
      then show ?thesis using False inj j1 nth_file_bytes [OF ok j] m(1) len j by (auto simp: nth_overwrite)
    qed
  qed
qed

section \<open>Overwriting bytes of a file\<close>

text \<open>How many blocks the next \<open>r\<close> bytes from \<open>off\<close> touch.\<close>

definition touched_blocks :: "nat \<Rightarrow> nat \<Rightarrow> nat" where
  "touched_blocks off r = (if r = 0 then 0 else (off mod BSIZE + r + BSIZE - 1) div BSIZE)"

lemma touched_blocks_step:
  assumes "0 < r"
  shows "Suc (touched_blocks (off + blk_part r off) (r - blk_part r off)) \<le> touched_blocks off r"
proof (cases "r \<le> BSIZE - off mod BSIZE")
  case True
  then show ?thesis using assms by (simp add: touched_blocks_def blk_part_def BSIZE_def)
next
  case False
  then have m: "blk_part r off = BSIZE - off mod BSIZE" by (simp add: blk_part_def)
  have lt: "off mod BSIZE < BSIZE" by (simp add: BSIZE_def)
  have "off + (BSIZE - off mod BSIZE) = off div BSIZE * BSIZE + BSIZE"
    using lt div_mult_mod_eq [of off BSIZE] by linarith
  then have z: "(off + (BSIZE - off mod BSIZE)) mod BSIZE = 0" by simp
  have "off mod BSIZE + r + BSIZE - 1 = (r - (BSIZE - off mod BSIZE) + BSIZE - 1) + BSIZE" using False lt by simp
  then have "(off mod BSIZE + r + BSIZE - 1) div BSIZE = Suc ((r - (BSIZE - off mod BSIZE) + BSIZE - 1) div BSIZE)"
    by (simp add: BSIZE_def)
  then show ?thesis using False m z by (simp add: touched_blocks_def)
qed

lemma txn_keeps: "txn me k s \<Longrightarrow> keeps me (logged s k) s s' \<Longrightarrow> txn me k s'"
  by (auto simp: txn_def keeps_def logged_def)

lemma txnD: "txn me k s \<Longrightarrow> hold me s (logged s k) {}"
  by (simp add: txn_def)

text \<open>One iteration of the loop of \<open>writei\<close>.\<close>

lemma writei_step:
  assumes T: "txn me k s" and k: "int k + 1 < LOGSIZE" "int k < lg_size s - 1" and A: "file_apart (bview s) (inodes s ip)"
    and r: "tot < n" "off + (n - tot) \<le> unat (i_size (inodes s ip))"
    and m: "m = blk_part (n - tot) off" and bs: "cin src m = (bs, True)" "length bs = m"
  shows "\<exists>s' k'. writei_loop me cin ip src off tot n s = writei_loop me cin ip (src + of_nat m) (off + m) (tot + m) n s' \<and>
    txn me k' s' \<and> k' \<le> Suc k \<and> log_only s s' \<and> file_apart (bview s') (inodes s ip) \<and>
    file_bytes (bview s') (inodes s ip) = overwrite off bs (file_bytes (bview s) (inodes s ip)) \<and>
    data_blocks (bview s') (inodes s ip) = data_blocks (bview s) (inodes s ip) \<and>
    (\<forall>x. x \<notin> data_blocks (bview s) (inodes s ip) \<longrightarrow> bview s' x = bview s x)"
proof -
  let ?i = "inodes s ip" and ?a = "file_block (bview s) (i_addrs (inodes s ip)) (off div BSIZE)"
  have m': "0 < m" "m \<le> n - tot" "off mod BSIZE + m \<le> BSIZE" using r(1) unfolding m by (auto simp: blk_part_def BSIZE_def)
  have q: "off div BSIZE < nblocks (unat (i_size ?i))" using r by (intro nblocks_gt) simp
  have ok: "file_ok (bview s) ?i" using A by (simp add: file_apart_def)
  have dev: "i_dev ?i = ROOTDEV" and hb: "has_block (bview s) (i_addrs ?i) (off div BSIZE)" and la: "length (bview s ?a) = BSIZE"
    using ok q by (auto simp: file_ok_def)
  have c: "card (logged s k) + 1 < NBUF" using card_logged [of s k] k(1) by (simp add: LOGSIZE_def NBUF_def)
  obtain s1 where 1: "bmap me ip (off div BSIZE) s = Ok (?a, s1)" "keeps me (logged s k) s s1"
    using bmap_found [OF txnD [OF T] c dev hb] by blast
  obtain bs1 where s1: "s1 = s\<lparr>bufs := bs1\<rparr>" "bview s1 = bview s" using 1(2) by (auto simp: keeps_def)
  have lo1: "log_only s s1" by (rule log_only_bufs [OF s1(1)])
  let ?d = "overwrite (off mod BSIZE) bs (bview s ?a)"
  obtain b s2 where 2: "bread me ROOTDEV ?a s1 = Ok (b, s2)" "b_data (bufs s2 b) = bview s ?a"
    and w: "\<exists>s3 s4 k'. log_write b (set_data b ?d s2) = Ok s3 \<and> brelse me b s3 = Ok s4 \<and>
       txn me k' s4 \<and> k' \<le> Suc k \<and> bview s4 = (bview s1)(?a := ?d) \<and> log_only s1 s4"
    using block_write [OF txn_keeps [OF T 1(2)], of ?a] k s1 by auto
  obtain s3 s4 k' where 3: "log_write b (set_data b ?d s2) = Ok s3" "brelse me b s3 = Ok s4" "txn me k' s4" "k' \<le> Suc k"
    "bview s4 = (bview s)(?a := ?d)" "log_only s s4"
    using w log_only_trans [OF lo1] s1(2) by metis
  have am: "?a \<notin> meta_blocks (bview s) (i_addrs ?i)" and ad: "?a \<in> data_blocks (bview s) ?i"
    using A q by (auto simp: file_apart_def data_blocks_def)
  have bs0: "bs \<noteq> []" using m'(1) bs(2) by auto
  have "file_bytes (bview s4) ?i = overwrite off bs (file_bytes (bview s) ?i)"
    unfolding 3(5) using r(2) m' bs(2) bs0 by (intro file_bytes_upd [OF A]) auto
  moreover have "file_apart (bview s4) ?i" "data_blocks (bview s4) ?i = data_blocks (bview s) ?i"
    using file_apart_upd [OF A am, of ?d] la m'(3) bs(2) unfolding 3(5) by simp_all
  moreover have "writei_loop me cin ip src off tot n s = writei_loop me cin ip (src + of_nat m) (off + m) (tot + m) n s4"
    using r(1) 1 2 3(1,2) s1 dev bs m by (subst writei_loop.simps) (simp add: overwrite_def Let_def)
  ultimately show ?thesis using 3 ad by (intro exI [of _ s4] exI [of _ k']) auto
qed

lemma writei_loop_writes:
  assumes "txn me k s" and "int (k + touched_blocks off (n - tot)) < LOGSIZE" "int (k + touched_blocks off (n - tot)) \<le> lg_size s - 1"
    and "file_apart (bview s) (inodes s ip)" and "off + (n - tot) \<le> unat (i_size (inodes s ip))" and "tot \<le> n"
    and "unat src + (n - tot) \<le> length data" and "length data < 2 ^ 64"
  shows "\<exists>s' k'. writei_loop me (kcin data) ip src off tot n s = Ok (n, off + (n - tot), s') \<and>
    txn me k' s' \<and> k' \<le> k + touched_blocks off (n - tot) \<and> log_only s s' \<and> file_apart (bview s') (inodes s ip) \<and>
    file_bytes (bview s') (inodes s ip) = overwrite off (take (n - tot) (drop (unat src) data)) (file_bytes (bview s) (inodes s ip)) \<and>
    data_blocks (bview s') (inodes s ip) = data_blocks (bview s) (inodes s ip) \<and>
    (\<forall>x. x \<notin> data_blocks (bview s) (inodes s ip) \<longrightarrow> bview s' x = bview s x)"
  using assms
proof (induction "n - tot" arbitrary: k s src off tot rule: less_induct)
  case less
  let ?i = "inodes s ip" and ?m = "blk_part (n - tot) off" and ?r = "n - tot"
  show ?case
  proof (cases "tot < n")
    case False
    then show ?thesis using less.prems
      by (subst writei_loop.simps) (auto simp: overwrite_def touched_blocks_def)
  next
    case True
    then have m: "0 < ?m" "?m \<le> ?r" by (auto simp: blk_part_def BSIZE_def)
    let ?bs = "take ?m (drop (unat src) data)"
    have tb: "Suc (touched_blocks (off + ?m) (?r - ?m)) \<le> touched_blocks off ?r" using True by (intro touched_blocks_step) simp
    have bs: "kcin data src ?m = (?bs, True)" "length ?bs = ?m" using less.prems(7) m by (auto simp: kcin_def)
    have k: "int k + 1 < LOGSIZE" "int k < lg_size s - 1" using less.prems(2,3) tb by linarith+
    obtain s1 k1 where 1: "writei_loop me (kcin data) ip src off tot n s = writei_loop me (kcin data) ip (src + of_nat ?m) (off + ?m) (tot + ?m) n s1"
      "txn me k1 s1" "k1 \<le> Suc k" "log_only s s1" "file_apart (bview s1) ?i"
      "file_bytes (bview s1) ?i = overwrite off ?bs (file_bytes (bview s) ?i)"
      "data_blocks (bview s1) ?i = data_blocks (bview s) ?i"
      "\<forall>x. x \<notin> data_blocks (bview s) ?i \<longrightarrow> bview s1 x = bview s x"
      using writei_step [where cin = "kcin data", OF less.prems(1) k less.prems(4) True less.prems(5) refl bs]
      by (elim exE conjE) (rule that, assumption+)
    have i1: "inodes s1 = inodes s" "lg_size s1 = lg_size s" using log_only_rest [OF 1(4)] by auto
    have src: "unat (src + of_nat ?m) = unat src + ?m"
      using m less.prems(7,8) unat_plus_no_wrap [of src "of_nat ?m"] by (simp add: unat_of_nat)
    have r: "n - (tot + ?m) = ?r - ?m" "n - (tot + ?m) < ?r" "tot + ?m \<le> n" using m True by auto
    have p: "int (k1 + touched_blocks (off + ?m) (n - (tot + ?m))) < LOGSIZE"
      "int (k1 + touched_blocks (off + ?m) (n - (tot + ?m))) \<le> lg_size s1 - 1"
      using less.prems(2,3) 1(3) tb unfolding r(1) i1 by linarith+
    have A: "file_apart (bview s1) (inodes s1 ip)" "off + ?m + (n - (tot + ?m)) \<le> unat (i_size (inodes s1 ip))"
      using 1(5) less.prems(5) m(2) unfolding i1 r(1) by simp_all
    have d: "unat (src + of_nat ?m) + (n - (tot + ?m)) \<le> length data" using less.prems(7) m(2) unfolding src r(1) by simp
    have e: "off + ?m + (?r - ?m) = off + ?r" using m(2) by simp
    from less.hyps [OF r(2) 1(2) p A r(3) d less.prems(8)]
    obtain s' k' where 2: "writei_loop me (kcin data) ip (src + of_nat ?m) (off + ?m) (tot + ?m) n s1 = Ok (n, off + ?r, s')"
      "txn me k' s'" "k' \<le> k1 + touched_blocks (off + ?m) (?r - ?m)" "log_only s1 s'" "file_apart (bview s') ?i"
      "file_bytes (bview s') ?i = overwrite (off + ?m) (take (?r - ?m) (drop (unat src + ?m) data)) (file_bytes (bview s1) ?i)"
      "data_blocks (bview s') ?i = data_blocks (bview s1) ?i"
      "\<forall>x. x \<notin> data_blocks (bview s1) ?i \<longrightarrow> bview s' x = bview s1 x"
      unfolding i1 src r(1) e by (elim exE conjE) (rule that, assumption+)
    have F: "length (file_bytes (bview s) ?i) = unat (i_size ?i)"
      using length_file_bytes less.prems(4) by (auto simp: file_apart_def)
    have "?bs @ take (?r - ?m) (drop (unat src + ?m) data) = take ?r (drop (unat src) data)"
      using m take_add [of ?m "?r - ?m" "drop (unat src) data"] by (simp add: add.commute)
    then have "file_bytes (bview s') ?i = overwrite off (take ?r (drop (unat src) data)) (file_bytes (bview s) ?i)"
      unfolding 2(6) 1(6) using overwrite_overwrite [of off ?bs "take (?r - ?m) (drop (unat src + ?m) data)" "file_bytes (bview s) ?i"]
        less.prems(5,7) m F bs(2) by simp
    moreover have "k' \<le> k + touched_blocks off ?r" using 1(3) 2(3) tb by linarith
    moreover have "\<forall>x. x \<notin> data_blocks (bview s) ?i \<longrightarrow> bview s' x = bview s x" using 1(7,8) 2(8) by simp
    ultimately show ?thesis
      unfolding 1(1) 2(1) using 2(2,5,7) 1(7) log_only_trans [OF 1(4) 2(4)] by (intro exI [of _ s'] exI [of _ k']) simp
  qed
qed

lemma file_bytes_other:
  assumes ok: "file_ok v i" and a: "a \<notin> meta_blocks v (i_addrs i)" "a \<notin> data_blocks v i"
  shows "file_ok (v(a := d)) i" and "file_bytes (v(a := d)) i = file_bytes v i"
proof -
  have eq: "file_block (v(a := d)) (i_addrs i) bn = file_block v (i_addrs i) bn \<and> file_block v (i_addrs i) bn \<noteq> a"
    if "bn < nblocks (unat (i_size i))" for bn
    using file_block_upd [OF a(1)] file_ok_MAXFILE [OF ok that] a(2) that by (auto simp: data_blocks_def)
  show "file_ok (v(a := d)) i" using ok eq has_block_upd [OF a(1)] by (auto simp: file_ok_def)
  have "map (\<lambda>bn. (v(a := d)) (file_block (v(a := d)) (i_addrs i) bn)) [0..<nblocks (unat (i_size i))] =
    map (\<lambda>bn. v (file_block v (i_addrs i) bn)) [0..<nblocks (unat (i_size i))]"
    using eq by (intro map_cong) auto
  then show "file_bytes (v(a := d)) i = file_bytes v i" by (simp only: file_bytes_def)
qed

lemma iupdate_txn:
  assumes T: "txn me k s" and k: "int k < LOGSIZE" "int k < lg_size s - 1" and dev: "i_dev (inodes s ip) = ROOTDEV"
  shows "\<exists>s' k' d. iupdate me ip s = Ok s' \<and> txn me k' s' \<and> k' \<le> Suc k \<and> log_only s s' \<and>
    bview s' = (bview s)(IBLOCK (i_inum (inodes s ip)) (fsb s) := d)"
proof -
  let ?n = "IBLOCK (i_inum (inodes s ip)) (fsb s)"
  obtain b s1 where 1: "bread me ROOTDEV ?n s = Ok (b, s1)"
    and w: "\<And>d. \<exists>s2 s3 k'. log_write b (set_data b d s1) = Ok s2 \<and> brelse me b s2 = Ok s3 \<and>
       txn me k' s3 \<and> k' \<le> Suc k \<and> bview s3 = (bview s)(?n := d) \<and> log_only s s3"
    using block_write [OF T k, of ?n] by blast
  let ?d = "write_dinode (inodes s1 ip) (unat (i_inum (inodes s1 ip)) mod IPB) (b_data (bufs s1 b))"
  obtain s2 s3 k' where "log_write b (set_data b ?d s1) = Ok s2" "brelse me b s2 = Ok s3"
    "txn me k' s3" "k' \<le> Suc k" "bview s3 = (bview s)(?n := ?d)" "log_only s s3" using w [of ?d] by blast
  then show ?thesis using 1 dev by (intro exI [of _ s3] exI [of _ k'] exI [of _ ?d]) (simp add: iupdate_def Let_def)
qed

text \<open>
  C5: inside a transaction with room for the blocks touched, \<open>writei\<close> over existing bytes of a file
  replaces exactly these bytes and changes no other block but the one that holds the inode; the
  disk is untouched until the commit, and \<open>readi\<close> reads the new bytes back.
\<close>

theorem writei_readi_roundtrip:
  assumes "txn me k s" and "file_apart (bview s) (inodes s ip)"
    and "unat off + length data \<le> unat (i_size (inodes s ip))"
    and "int (k + touched_blocks (unat off) (length data)) + 2 < LOGSIZE"
    and "int (k + touched_blocks (unat off) (length data)) < lg_size s - 1"
    and "IBLOCK (i_inum (inodes s ip)) (fsb s) \<notin> data_blocks (bview s) (inodes s ip) \<union> meta_blocks (bview s) (i_addrs (inodes s ip))"
  shows "\<exists>s' s'' k'. writei me (kcin data) ip 0 off (of_nat (length data)) s = Ok (int (length data), s') \<and>
    txn me k' s' \<and> disk s' = disk s \<and> inodes s' = inodes s \<and>
    file_bytes (bview s') (inodes s ip) = overwrite (unat off) data (file_bytes (bview s) (inodes s ip)) \<and>
    (\<forall>x. x \<notin> insert (IBLOCK (i_inum (inodes s ip)) (fsb s)) (data_blocks (bview s) (inodes s ip)) \<longrightarrow> bview s' x = bview s x) \<and>
    readi me kcout ip 0 off (of_nat (length data)) [] s' = Ok (int (length data), data, s'')"
proof -
  let ?i = "inodes s ip" and ?n = "length data" and ?N = "IBLOCK (i_inum (inodes s ip)) (fsb s)"
  have ok: "file_ok (bview s) ?i" using assms(2) by (simp add: file_apart_def)
  have sz: "unat (i_size ?i) < 2 ^ 32" using unat_less_power [of "i_size ?i"] by simp
  have n: "unat (of_nat ?n :: u32) = ?n" using assms(3) sz by (simp add: unat_of_nat)
  have sum: "unat (off + of_nat ?n) = unat off + ?n" using unat_plus_no_wrap [of off "of_nat ?n"] n assms(3) sz by simp
  have "nblocks (unat (i_size ?i)) \<le> MAXFILE"
    using file_ok_MAXFILE [OF ok, of "nblocks (unat (i_size ?i)) - 1"] by (cases "nblocks (unat (i_size ?i))") auto
  then have "unat (i_size ?i) \<le> MAXFILE * BSIZE" using nblocks_le [of "unat (i_size ?i)"] by (meson le_trans mult_le_mono1)
  then have guards: "\<not> off > i_size ?i" "\<not> off + of_nat ?n < off" "\<not> unat (off + of_nat ?n) > MAXFILE * BSIZE"
    using assms(3) sum by (auto simp: word_less_nat_alt)
  obtain s1 k1 where 1: "writei_loop me (kcin data) ip 0 (unat off) 0 ?n s = Ok (?n, unat off + ?n, s1)"
    "txn me k1 s1" "k1 \<le> k + touched_blocks (unat off) ?n" "log_only s s1" "file_apart (bview s1) ?i"
    "file_bytes (bview s1) ?i = overwrite (unat off) data (file_bytes (bview s) ?i)"
    "data_blocks (bview s1) ?i = data_blocks (bview s) ?i"
    "\<forall>x. x \<notin> data_blocks (bview s) ?i \<longrightarrow> bview s1 x = bview s x"
    using writei_loop_writes [OF assms(1) _ _ assms(2), of "unat off" ?n 0 0 data] assms(3-5) sz by auto
  have r1: "inodes s1 = inodes s" "lg_size s1 = lg_size s" "fsb s1 = fsb s" "disk s1 = disk s" using log_only_rest [OF 1(4)] by auto
  have dev: "i_dev ?i = ROOTDEV" using ok by (simp add: file_ok_def)
  obtain s2 k2 d where 2: "iupdate me ip s1 = Ok s2" "txn me k2 s2" "k2 \<le> Suc k1" "log_only s1 s2" "bview s2 = (bview s1)(?N := d)"
    using iupdate_txn [OF 1(2), of ip] 1(3) assms(4,5) dev unfolding r1 by auto
  have r2: "inodes s2 = inodes s" "disk s2 = disk s" using log_only_rest [OF 2(4)] r1 by auto
  have w: "writei me (kcin data) ip 0 off (of_nat ?n) s = Ok (int ?n, s2)"
    using guards 1(1) 2(1) assms(3) n r1 by (simp add: writei_def Let_def)
  have m: "meta_blocks (bview s1) (i_addrs ?i) = meta_blocks (bview s) (i_addrs ?i)"
  proof -
    have "i_addrs ?i ! (NDIRECT + 1) \<notin> data_blocks (bview s) ?i" using assms(2) by (auto simp: file_apart_def meta_blocks_def)
    then show ?thesis using 1(8) by (simp add: meta_blocks_def)
  qed
  have f: "file_ok (bview s2) ?i" "file_bytes (bview s2) ?i = overwrite (unat off) data (file_bytes (bview s) ?i)"
    using file_bytes_other [of "bview s1" ?i ?N d] 1(5,6,7) assms(6) m unfolding 2(5) by (auto simp: file_apart_def)
  have c: "card (logged s2 k2) + 1 < NBUF" using card_logged [of s2 k2] 1(3) 2(3) assms(4) by (simp add: LOGSIZE_def NBUF_def)
  obtain s3 where "readi me kcout ip 0 off (of_nat ?n) [] s2 = Ok (int ?n, data, s3)"
  proof -
    have "length (file_bytes (bview s) ?i) = unat (i_size ?i)" by (rule length_file_bytes [OF ok])
    then have "take ?n (drop (unat off) (overwrite (unat off) data (file_bytes (bview s) ?i))) = data"
      using assms(3) by (simp add: overwrite_def)
    then show thesis
      using readi_reads [OF txnD [OF 2(2)] c, of ip off "of_nat ?n" 0] f assms(3) sz n unfolding r2 by (auto intro: that)
  qed
  then show ?thesis using w 2(2) r2 f(2) 1(7,8) 2(5) by (intro exI [of _ s2] exI [of _ s3] exI [of _ k2]) auto
qed

text \<open>The transaction of the example: the sample file, nothing logged.\<close>

abbreviation sample_txn :: fstate where "sample_txn \<equiv> sample_fs\<lparr>outstanding := 1\<rparr>"

lemma sample_fs_rest: "fsb sample_fs = fsb empty_fs" "lg_size sample_fs = 30" "lh_n sample_fs = 0"
  "bview sample_txn = (\<lambda>_. replicate BSIZE 7)" "inodes sample_txn = inodes sample_fs"
proof -
  let ?s = "empty_fs\<lparr>disk := (\<lambda>_. replicate BSIZE 7),
     inodes := (\<lambda>_. empty_inode\<lparr>i_dev := ROOTDEV, i_size := 5, i_addrs := 46 # replicate 12 0\<rparr>)\<rparr>"
  obtain bs where bs: "sample_fs = ?s\<lparr>bufs := bs\<rparr>"
    using binit_hold [of ?s 1] unfolding sample_fs_def by (auto simp: empty_fs_def ROOTDEV_def)
  show "fsb sample_fs = fsb empty_fs" "lg_size sample_fs = 30" "lh_n sample_fs = 0" by (simp_all add: bs, simp_all add: empty_fs_def)
  show "bview sample_txn = (\<lambda>_. replicate BSIZE 7)" "inodes sample_txn = inodes sample_fs" using sample_fs_hold(2) by simp_all
qed

lemma sample_txn_ok: "txn 1 0 sample_txn" "file_apart (bview sample_txn) (inodes sample_txn 0)"
  "data_blocks (bview sample_txn) (inodes sample_txn 0) = {46}"
  "32 \<notin> meta_blocks (bview sample_txn) (i_addrs (inodes sample_txn 0))"
proof -
  have "hold 1 sample_txn {} {}" using sample_fs_hold(1) [of 1] by simp
  then show "txn 1 0 sample_txn" by (simp add: txn_def logged_def sample_fs_rest)
  have n: "nblocks 5 = 1" by (simp add: nblocks_def BSIZE_def)
  show d: "data_blocks (bview sample_txn) (inodes sample_txn 0) = {46}"
    by (simp add: data_blocks_def sample_fs_hold n file_block_def NDIRECT_def lessThan_Suc)
  have g: "get32 (replicate BSIZE 7) k = 0x07070707" if "k < NINDIRECT" for k
    using that by (simp add: get32_def NINDIRECT_def BSIZE_def)
  have m: "meta_blocks (bview sample_txn) (i_addrs (inodes sample_txn 0)) = {0, 0x07070707}"
  proof -
    have "get32 (replicate BSIZE 7) ` {..<NINDIRECT} = (\<lambda>_. 0x07070707) ` {..<NINDIRECT}" using g by (intro image_cong) auto
    also have "\<dots> = {0x07070707}" by (rule image_constant [of 0]) (simp add: NINDIRECT_def BSIZE_def)
    finally show ?thesis unfolding meta_blocks_def sample_fs_rest sample_fs_hold by (auto simp: NDIRECT_def)
  qed
  show "32 \<notin> meta_blocks (bview sample_txn) (i_addrs (inodes sample_txn 0))" unfolding m by simp
  show "file_apart (bview sample_txn) (inodes sample_txn 0)"
    using sample_file(1) [of 0] d m by (simp add: file_apart_def inj_on_def n sample_fs_hold)
qed

theorem writei_readi_roundtrip_witness:
  "\<exists>s' s'' k'. writei 1 (kcin [1, 2]) 0 0 1 2 sample_txn = Ok (2, s') \<and> txn 1 k' s' \<and> disk s' = disk sample_txn \<and>
     file_bytes (bview s') (inodes s' 0) = [7, 1, 2, 7, 7] \<and> readi 1 kcout 0 0 1 2 [] s' = Ok (2, [1, 2], s'')"
proof -
  have t: "touched_blocks (Suc 0) (Suc (Suc 0)) = 1" by (simp add: touched_blocks_def BSIZE_def)
  have i: "IBLOCK (i_inum (inodes sample_txn 0)) (fsb sample_txn) = 32"
    by (simp add: sample_fs_hold sample_fs_rest IBLOCK_def empty_inode_def empty_fs_def IPB_def BSIZE_def)
  have F: "file_bytes (bview sample_txn) (inodes sample_txn 0) = [7, 7, 7, 7, 7]" using sample_file(2) [of 0] by simp
  show ?thesis
    using writei_readi_roundtrip [OF sample_txn_ok(1,2), of 1 "[1, 2]", unfolded i sample_txn_ok(3) F] sample_txn_ok(4) t
    by (auto simp: sample_fs_hold sample_fs_rest LOGSIZE_def overwrite_def)
qed

end
