(* ===== verification/Fs_Share.thy ===== *)
theory Fs_Share
  imports Fs_Write
begin

text \<open>
  Allocating blocks inside a transaction: what \<open>balloc\<close> and the entries of an indirect block do to the
  blocks a call holds, and what becomes of files whose doubly indirect block \<open>bmap\<close> never allocates.
\<close>

section \<open>Transactions that hold blocks\<close>

text \<open>
  A transaction with \<open>k\<close> logged blocks whose caller holds the blocks \<open>H\<close>; every block that is not logged
  is as on the disk.
\<close>

definition txn_h :: "int \<Rightarrow> nat \<Rightarrow> u32 set \<Rightarrow> 'a lstate_scheme \<Rightarrow> bool" where
  "txn_h me k H s \<longleftrightarrow> hold me s (logged s k) H \<and> lh_n s = int k \<and> inj_on (lh_block s) {..<k} \<and>
     1 \<le> outstanding s \<and> (\<forall>n. n \<in> logged s k \<or> bview s n = disk s n) \<and> (\<forall>n. length (bview s n) = BSIZE)"

text \<open>\<open>room j k H s\<close>: the log and the cache have room for \<open>j\<close> more blocks.\<close>

definition room :: "nat \<Rightarrow> nat \<Rightarrow> u32 set \<Rightarrow> 'a lstate_scheme \<Rightarrow> bool" where
  "room j k H s \<longleftrightarrow> int (k + j) \<le> LOGSIZE \<and> int (k + j) \<le> lg_size s - 1 \<and> k + card H + j \<le> NBUF"

text \<open>What an allocation keeps: the buffers of held blocks, and all state but buffers and log.\<close>

definition grows :: "int \<Rightarrow> nat \<Rightarrow> nat \<Rightarrow> u32 set \<Rightarrow> 'a lstate_scheme \<Rightarrow> 'a lstate_scheme \<Rightarrow> bool" where
  "grows me k j H s s' \<longleftrightarrow> (\<exists>k'\<le>k + j. txn_h me k' H s') \<and> log_only s s' \<and>
     (\<forall>m c. m \<in> H \<longrightarrow> cached (bufs s) m c \<longrightarrow> cached (bufs s') m c)"

lemma txn_txn_h: "txn me k s \<Longrightarrow> \<forall>n. length (bview s n) = BSIZE \<Longrightarrow> txn_h me k {} s"
  using hold_clean [of me s "logged s k" "{}"] by (auto simp: txn_def txn_h_def)

lemma txn_h_hold: "txn_h me k H s \<Longrightarrow> hold me s (logged s k) H"
  by (simp add: txn_h_def)

lemma held_blocked:
  assumes H: "hold me s P H" and n: "n \<in> H"
  shows "bread me ROOTDEV n s = Blocked"
proof -
  obtain b where b: "cached (bufs s) n b" using holdD(3) [OF H] n by blast
  then have lk: "sl_locked (b_lock (bufs s b))" using holdD(5) [OF H b] n by simp
  obtain L where L: "lru (bufs s) L" using binvD(1) [OF holdD(1) [OF H]] by blast
  have c: "b_dev (bufs s b) = ROOTDEV" "b_blockno (bufs s b) = n" "b < NBUF" using b by (simp_all add: cached_def)
  have "find (\<lambda>b. b_dev (bufs s b) = ROOTDEV \<and> b_blockno (bufs s b) = n) L = Some b"
  proof (rule find_unique)
    show "b \<in> set L" using c lru_facts(3) [OF L] by simp
    show "x = b" if "x \<in> set L" "b_dev (bufs s x) = ROOTDEV \<and> b_blockno (bufs s x) = n" for x
      using that binvD(2) [OF holdD(1) [OF H] _ b, of x] lru_facts(3) [OF L, of x] by (simp add: cached_def)
  qed (simp add: c)
  then show ?thesis using lru_find_cached(1) [OF L] lk
    by (simp add: bread_def bget_def block_lock_def acquiresleep_def upd_buf_def)
qed

lemma bread_h:
  assumes T: "txn_h me k H s" and r: "room 1 k H s" and b: "bread me ROOTDEV n s = Ok (b, s1)"
  shows "n \<notin> H" "txn_h me k (insert n H) s1" "cached (bufs s1) n b" "b_data (bufs s1 b) = bview s n"
    "bview s1 = bview s" "logged s1 k = logged s k" "log_only s s1"
    "m \<in> H \<Longrightarrow> cached (bufs s) m c \<Longrightarrow> cached (bufs s1) m c"
proof -
  note H = txn_h_hold [OF T]
  show n: "n \<notin> H" using held_blocked [OF H] b by auto
  have "card (logged s k \<union> H) < NBUF"
    using card_Un_le [of "logged s k" H] card_logged [of s k] r by (simp add: room_def)
  then obtain bs where 1: "hold me s1 (logged s k) (insert n H)" "cached (bufs s1) n b" "b_data (bufs s1 b) = bview s n"
    "bview s1 = bview s" "s1 = s\<lparr>bufs := bs\<rparr>" "\<forall>m c. m \<in> H \<longrightarrow> cached (bufs s) m c \<longrightarrow> cached (bufs s1) m c"
    using bread_hold [OF H n, of] b by auto
  have l: "logged s1 k = logged s k" using 1(5) by (simp add: logged_def)
  show "txn_h me k (insert n H) s1" using T 1(1,4) l unfolding txn_h_def by (simp add: 1(5))
  show "cached (bufs s1) n b" "b_data (bufs s1 b) = bview s n" "bview s1 = bview s" "log_only s s1"
    "logged s1 k = logged s k" using 1 l log_only_bufs [OF 1(5)] by auto
  show "m \<in> H \<Longrightarrow> cached (bufs s) m c \<Longrightarrow> cached (bufs s1) m c" using 1(6) by blast
qed

lemma brelse_h:
  assumes T: "txn_h me k H s" and b: "n \<in> H" "cached (bufs s) n b" and ok: "brelse me b s = Ok s1"
  shows "txn_h me k (H - {n}) s1" "bview s1 = bview s" "log_only s s1"
    "cached (bufs s) m c \<Longrightarrow> cached (bufs s1) m c"
proof -
  note H = txn_h_hold [OF T]
  obtain bs where 1: "hold me s1 (logged s k) (H - {n})" "bview s1 = bview s" "s1 = s\<lparr>bufs := bs\<rparr>"
    "\<forall>m c. cached (bufs s) m c \<longrightarrow> cached (bufs s1) m c"
    using brelse_hold [OF H b] T ok by (auto simp: txn_h_def)
  have l: "logged s1 k = logged s k" using 1(3) by (simp add: logged_def)
  show "txn_h me k (H - {n}) s1" using T 1(1,2) l unfolding txn_h_def by (simp add: 1(3))
  show "bview s1 = bview s" "log_only s s1" "cached (bufs s) m c \<Longrightarrow> cached (bufs s1) m c"
    using 1 log_only_bufs [OF 1(3)] by auto
qed

lemma log_write_h:
  assumes T: "txn_h me k H s" and r: "room 1 k H s" and b: "n \<in> H" "cached (bufs s) n b" and d: "length d = BSIZE"
    and ok: "log_write b (set_data b d s) = Ok s1"
  shows "\<exists>k'\<le>Suc k. txn_h me k' H s1" "bview s1 = (bview s)(n := d)" "log_only s s1"
    "cached (bufs s) m c \<Longrightarrow> cached (bufs s1) m c"
proof -
  let ?s = "set_data b d s"
  have sd: "hold me ?s (logged s k) H" "bview ?s = (bview s)(n := d)" "\<And>m c. cached (bufs s) m c \<Longrightarrow> cached (bufs ?s) m c"
    using set_data_hold [OF txn_h_hold [OF T] b, of d] by auto
  have q: "logged ?s k = logged s k" "lh_n ?s = lh_n s" "lh_block ?s = lh_block s" "outstanding ?s = outstanding s"
      "lg_size ?s = lg_size s" by (simp_all add: set_data_def upd_buf_def logged_def)
  have lo: "log_only s ?s" unfolding set_data_def upd_buf_def by (rule log_only_bufs) simp
  have t: "lh_n s = int k" "inj_on (lh_block s) {..<k}" "1 \<le> outstanding s" using T by (auto simp: txn_h_def)
  have k: "int k < LOGSIZE" "int k < lg_size s - 1" using r by (auto simp: room_def)
  obtain k' where 2: "k' = (if n \<in> logged s k then k else Suc k)" "lh_n s1 = int k'"
      "logged s1 k' = insert n (logged s k)" "inj_on (lh_block s1) {..<k'}" "hold me s1 (logged s1 k') H"
      "bview s1 = bview ?s" "log_only ?s s1" "\<And>m c. cached (bufs ?s) m c \<Longrightarrow> cached (bufs s1) m c"
    using log_write_hold [of me ?s k H n b, unfolded q, OF sd(1) t(1,2) b(1) sd(3) [OF b(2)] t(3) k] ok
    unfolding log_only_def by auto
  have out: "outstanding s1 = outstanding s" "disk s1 = disk s" using log_only_trans [OF lo 2(7)] by (auto simp: log_only_def)
  have "txn_h me k' H s1" using T 2 out sd(2) d t(3) by (auto simp: txn_h_def)
  then show "\<exists>k'\<le>Suc k. txn_h me k' H s1" using 2(1) by (intro exI [of _ k']) auto
  show "bview s1 = (bview s)(n := d)" "log_only s s1" "cached (bufs s) m c \<Longrightarrow> cached (bufs s1) m c"
    using 2 sd log_only_trans [OF lo 2(7)] by auto
qed

section \<open>Allocating a block\<close>

lemma room_le: "room i k H s \<Longrightarrow> j \<le> i \<Longrightarrow> room j k H s"
  by (auto simp: room_def)

lemma room_step: "room (i + j) k H s \<Longrightarrow> k' \<le> k + i \<Longrightarrow> log_only s s' \<Longrightarrow> room j k' H s'"
  by (auto simp: room_def log_only_def)

lemma room_insert:
  assumes "room (Suc j) k H s" and "log_only s s'"
  shows "room j k (insert n H) s'"
proof -
  have "card (insert n H) \<le> Suc (card H)" by (rule card_insert_le_m1) simp_all
  then show ?thesis using assms by (auto simp: room_def log_only_def)
qed

lemma grows_trans:
  assumes "grows me k i H s s1" and "k1 \<le> k + i" and "grows me k1 j H s1 s2" and "l = i + j"
  shows "grows me k l H s s2"
proof -
  obtain k2 where "k2 \<le> k1 + j" "txn_h me k2 H s2" using assms(3) by (auto simp: grows_def)
  moreover have "log_only s s2" using assms(1,3) log_only_trans by (auto simp: grows_def)
  ultimately show ?thesis using assms unfolding grows_def by (intro conjI exI [of _ k2]) auto
qed

lemma grows_0:
  assumes "txn_h me k H s1" and "log_only s s1" and "\<And>m c. m \<in> H \<Longrightarrow> cached (bufs s) m c \<Longrightarrow> cached (bufs s1) m c"
  shows "grows me k 0 H s s1"
  using assms by (auto simp: grows_def)

text \<open>A block read and given back.\<close>

lemma look_h:
  assumes T: "txn_h me k H s" and r: "room 1 k H s" and 1: "bread me ROOTDEV n s = Ok (b, s1)" and 2: "brelse me b s1 = Ok s2"
  shows "txn_h me k H s2" "bview s2 = bview s" "log_only s s2" "m \<in> H \<Longrightarrow> cached (bufs s) m c \<Longrightarrow> cached (bufs s2) m c"
proof -
  note B = bread_h [OF T r 1]
  note R = brelse_h [OF B(2) insertI1 B(3) 2]
  have "insert n H - {n} = H" using B(1) by auto
  then show "txn_h me k H s2" "bview s2 = bview s" "log_only s s2" "m \<in> H \<Longrightarrow> cached (bufs s) m c \<Longrightarrow> cached (bufs s2) m c"
    using R B log_only_trans [OF B(7) R(3)] by auto
qed

text \<open>A block changed in the transaction.\<close>

lemma change_h:
  assumes T: "txn_h me k H s" and r: "room 2 k H s" and 1: "bread me ROOTDEV n s = Ok (b, s1)"
    and 2: "log_write b (set_data b d s1) = Ok s2" and 3: "brelse me b s2 = Ok s3" and d: "length d = BSIZE"
  shows "n \<notin> H" "grows me k 1 H s s3" "bview s3 = (bview s)(n := d)"
proof -
  note B = bread_h [OF T room_le [OF r] 1, simplified]
  show n: "n \<notin> H" by (rule B(1))
  have "room 1 k (insert n H) s1" using room_insert [of 1 k H s s1 n] r B(7) by (simp add: numeral_2_eq_2)
  note W = log_write_h [OF B(2) this insertI1 B(3) d 2]
  obtain k' where k': "k' \<le> Suc k" "txn_h me k' (insert n H) s2" using W(1) by auto
  note R = brelse_h [OF k'(2) insertI1 W(4) [OF B(3)] 3]
  have "insert n H - {n} = H" using n by auto
  then show "grows me k 1 H s s3" "bview s3 = (bview s)(n := d)"
    using R W B k'(1) log_only_trans [OF log_only_trans [OF B(7) W(3)] R(3)] by (auto simp: grows_def)
qed

lemma bzero_h:
  assumes T: "txn_h me k H s" and r: "room 2 k H s" and ok: "bzero me ROOTDEV n s = Ok s'"
  shows "n \<notin> H" "grows me k 1 H s s'" "bview s' = (bview s)(n := replicate BSIZE 0)"
proof -
  from ok obtain b s1 s2 where "bread me ROOTDEV n s = Ok (b, s1)"
    "log_write b (set_data b (replicate BSIZE 0) s1) = Ok s2" "brelse me b s2 = Ok s'"
    by (auto simp: bzero_def outcome_simps)
  from change_h [OF T r this] show "n \<notin> H" "grows me k 1 H s s'" "bview s' = (bview s)(n := replicate BSIZE 0)" by simp_all
qed

lemma balloc_loop_h:
  assumes "txn_h me k H s" and "room 3 k H s" and "balloc_loop me ROOTDEV b s = Ok (a, s')"
  shows "a \<notin> H \<and> grows me k 2 H s s' \<and> (\<forall>n\<in>H. bview s' n = bview s n)"
  using assms
proof (induction "unat (sb_size (fsb s)) - b" arbitrary: b s rule: less_induct)
  case less
  note T = less.prems(1) and r = less.prems(2)
  have lt: "b < unat (sb_size (fsb s))" using less.prems(3) by (subst (asm) balloc_loop.simps) (simp split: if_splits)
  let ?n = "BBLOCK b (fsb s)"
  obtain bp s1 where 1: "bread me ROOTDEV ?n s = Ok (bp, s1)"
    using less.prems(3) lt by (subst (asm) balloc_loop.simps) (auto simp: outcome_simps)
  let ?d = "b_data (bufs s1 bp)"
  show ?case
  proof (cases "balloc_scan ?d b (unat (sb_size (fsb s))) 0 BPB")
    case None
    obtain s2 where 2: "brelse me bp s1 = Ok s2" and l: "balloc_loop me ROOTDEV (b + BPB) s2 = Ok (a, s')"
      using less.prems(3) lt 1 None by (subst (asm) balloc_loop.simps) (auto simp: outcome_simps)
    note L = look_h [OF T room_le [OF r] 1 2, simplified]
    have "fsb s2 = fsb s" using L(3) by (auto simp: log_only_def)
    then have "unat (sb_size (fsb s2)) - (b + BPB) < unat (sb_size (fsb s)) - b" using lt by (simp add: BPB_def BSIZE_def)
    moreover have "room 3 k H s2" using room_step [of 0 3 k H s k s2] r L(3) by simp
    ultimately have "a \<notin> H \<and> grows me k 2 H s2 s' \<and> (\<forall>n\<in>H. bview s' n = bview s2 n)"
      using less.hyps [OF _ L(1)] l by blast
    then show ?thesis using grows_trans [OF grows_0 [OF L(1,3,4)], of k 2 s' 2] L(2) by simp
  next
    case (Some bi)
    let ?d' = "?d[bi div 8 := ?d ! (bi div 8) OR bit_mask bi]"
    obtain s2 s3 s4 where 2: "log_write bp (set_data bp ?d' s1) = Ok s2" "brelse me bp s2 = Ok s3"
      "bzero me ROOTDEV (of_nat (b + bi)) s3 = Ok s4" "a = of_nat (b + bi)" "s' = s4"
      using less.prems(3) lt 1 Some by (subst (asm) balloc_loop.simps) (auto simp: outcome_simps Let_def)
    have "length ?d' = BSIZE" using bread_h(4) [OF T room_le [OF r] 1] T by (simp add: txn_h_def)
    note C = change_h [OF T room_le [OF r] 1 2(1,2) this, simplified]
    obtain k3 where k3: "k3 \<le> k + 1" "txn_h me k3 H s3" and lo: "log_only s s3" using C(2) by (auto simp: grows_def)
    have "room 2 k3 H s3" using room_step [of 1 2 k H s k3 s3] r k3(1) lo by (simp add: numeral_3_eq_3)
    note Z = bzero_h [OF k3(2) this 2(3)]
    have "grows me k 2 H s s'" using grows_trans [OF C(2) _ Z(2), of 2] k3(1) 2(5) by simp
    then show ?thesis using Z C 2(4,5) by auto
  qed
qed

lemma held_data:
  assumes T: "txn_h me k H s" and n: "n \<in> H" and b: "cached (bufs s) n bp"
  shows "b_data (bufs s bp) = bview s n"
proof -
  note H = txn_h_hold [OF T]
  obtain c where "cached (bufs s) n c" "b_valid (bufs s c)" using holdD(3) [OF H, of n] n by blast
  then show ?thesis using bview_cached [OF holdD(1) [OF H] b] binvD(2) [OF holdD(1) [OF H] b] by metis
qed

lemma bmap_entry_h:
  assumes T: "txn_h me k H s" and r: "room 3 k H s" and b: "n \<in> H" "cached (bufs s) n bp" and i: "i < NINDIRECT"
    and ok: "bmap_entry me ROOTDEV bp i s = Ok (a, s')" and z: "0 \<in> H"
  shows "a \<noteq> 0 \<and> grows me k 3 H s s' \<and> get32 (bview s' n) i = a \<and> (\<forall>m\<in>H. m \<noteq> n \<longrightarrow> bview s' m = bview s m)"
proof -
  note dat = held_data [OF _ b(1)]
  show ?thesis
  proof (cases "get32 (bview s n) i = 0")
    case False
    then have "a = get32 (bview s n) i" "s' = s" using ok dat [OF T b(2)] by (auto simp: bmap_entry_def Let_def)
    moreover have "grows me k 3 H s s" using T by (auto simp: grows_def intro: exI [of _ k])
    ultimately show ?thesis using False by auto
  next
    case True
    then obtain s1 where 1: "balloc_loop me ROOTDEV 0 s = Ok (a, s1)"
      and 2: "log_write bp (set_data bp (put32 (b_data (bufs s1 bp)) i a) s1) = Ok s'"
      using ok dat [OF T b(2)] by (auto simp: bmap_entry_def Let_def balloc_def outcome_simps)
    note A = balloc_loop_h [OF T r 1]
    then obtain k1 where k1: "k1 \<le> k + 2" "txn_h me k1 H s1" and lo: "log_only s s1" and c: "cached (bufs s1) n bp"
      using b by (auto simp: grows_def)
    have r1: "room 1 k1 H s1" using room_step [of 2 1 k H s k1 s1] r k1(1) lo by simp
    have d1: "b_data (bufs s1 bp) = bview s1 n" "length (bview s1 n) = BSIZE" using dat [OF k1(2) c] k1(2) by (auto simp: txn_h_def)
    have len: "length (put32 (b_data (bufs s1 bp)) i a) = BSIZE" using d1 by (simp add: put32_def)
    note W = log_write_h [OF k1(2) r1 b(1) c len 2]
    obtain k2 where k2: "k2 \<le> Suc k1" "txn_h me k2 H s'" using W(1) by auto
    have "grows me k1 1 H s1 s'" using k2 W(3,4) by (auto simp: grows_def)
    then have g: "grows me k 3 H s s'" using grows_trans [of me k 2 H s s1 k1 1 s' 3] A k1(1) by simp
    have "get32 (bview s' n) i = a" using W(2) d1 i by (simp add: NINDIRECT_def BSIZE_def)
    moreover have "a \<noteq> 0" using A z by auto
    ultimately show ?thesis using g W(2) A by auto
  qed
qed

section \<open>The missing doubly indirect block\<close>

text \<open>
  What \<open>bmap\<close> leaves behind for a block behind the indirect blocks of an inode whose pointer to the doubly
  indirect block is 0: it takes block 0 of the disk for that block.
\<close>

lemma bmap_double_zero:
  assumes T: "txn_h me k {} s" and r: "room 8 k {} s" and bn: "NDIRECT + NINDIRECT \<le> bn"
    and i: "i_dev (inodes s ip) = ROOTDEV" "i_addrs (inodes s ip) ! (NDIRECT + 1) = 0" and ok: "bmap me ip bn s = Ok (a, s')"
  defines "p \<equiv> (bn - NDIRECT - NINDIRECT) div NINDIRECT" and "q \<equiv> (bn - NDIRECT - NINDIRECT) mod NINDIRECT"
  shows "\<exists>e k'. e \<noteq> 0 \<and> a \<noteq> 0 \<and> k' \<le> k + 6 \<and> txn_h me k' {} s' \<and> log_only s s' \<and> p < NINDIRECT \<and>
    get32 (bview s' 0) p = e \<and> get32 (bview s' e) q = a"
proof -
  have q: "q < NINDIRECT" unfolding q_def by (simp add: NINDIRECT_def BSIZE_def)
  have lt: "\<not> bn < NDIRECT" "\<not> bn - NDIRECT < NINDIRECT" using bn by auto
  have p: "p < NINDIRECT" using ok lt by (auto simp: bmap_def Let_def p_def split: if_splits)
  have run: "obind (bread me ROOTDEV 0 s) (\<lambda>(bp, s1).
      obind (bmap_entry me ROOTDEV bp p s1) (\<lambda>(addr, s2).
      obind (bread me ROOTDEV addr s2) (\<lambda>(bp2, s3).
      obind (bmap_entry me ROOTDEV bp2 q s3) (\<lambda>(addr, s4).
      obind (brelse me bp s4) (\<lambda>s5.
      obind (brelse me bp2 s5) (\<lambda>s6. Ok (addr, s6))))))) = Ok (a, s')"
    using ok lt p i unfolding p_def q_def by (simp add: bmap_def Let_def)
  obtain b1 s1 e s2 b2 s3 s4 s5 where
    1: "bread me ROOTDEV 0 s = Ok (b1, s1)" and 2: "bmap_entry me ROOTDEV b1 p s1 = Ok (e, s2)" and
    3: "bread me ROOTDEV e s2 = Ok (b2, s3)" and 4: "bmap_entry me ROOTDEV b2 q s3 = Ok (a, s4)" and
    5: "brelse me b1 s4 = Ok s5" and 6: "brelse me b2 s5 = Ok s'"
    using run by (auto simp: outcome_simps)
  note B1 = bread_h [OF T room_le [OF r] 1, simplified]
  have r1: "room 7 k {0} s1" using room_insert [of 7 k "{}" s s1 0] r B1(7) by simp
  note E1 = bmap_entry_h [OF B1(2) room_le [OF r1] _ B1(3) p 2, simplified]
  obtain k2 where k2: "k2 \<le> k + 3" "txn_h me k2 {0} s2" and lo2: "log_only s1 s2" and c2: "cached (bufs s2) 0 b1"
    using E1 B1(3) by (auto simp: grows_def)
  have r2: "room 4 k2 {0} s2" using room_step [of 3 4 k "{0}" s1 k2 s2] r1 k2(1) lo2 by simp
  note B2 = bread_h [OF k2(2) room_le [OF r2] 3, simplified]
  have r3: "room 3 k2 {e, 0} s3" using room_insert [of 3 k2 "{0}" s2 s3 e] r2 B2(7) by simp
  note E2 = bmap_entry_h [OF B2(2) r3 _ B2(3) q 4, simplified]
  obtain k4 where k4: "k4 \<le> k2 + 3" "txn_h me k4 {e, 0} s4" and lo4: "log_only s3 s4"
    and c4: "cached (bufs s4) 0 b1" "cached (bufs s4) e b2"
    using E2 B2(3,8) c2 by (auto simp: grows_def)
  note R1 = brelse_h [OF k4(2) _ c4(1) 5, simplified]
  have "{e, 0} - {0} = {e}" using B2(1) by auto
  then have t5: "txn_h me k4 {e} s5" using R1(1) by simp
  note R2 = brelse_h [OF t5 _ R1(4) [OF c4(2)] 6, simplified]
  have v: "bview s' = bview s4" using R1(2) R2(2) by simp
  have "get32 (bview s' 0) p = e" using v E1 E2 B2(1,5) by auto
  moreover have "log_only s s'"
    using B1(7) lo2 B2(7) lo4 R1(3) R2(3) log_only_trans by metis
  ultimately show ?thesis using v E1 E2 k2(1) k4(1) R2(1) p by (intro exI [of _ e] exI [of _ k4]) auto
qed

text \<open>
  C20: \<open>bmap\<close> does not allocate the doubly indirect block of a file: after it has mapped a block behind
  the indirect blocks for one inode whose pointer to it is 0, and allocated whatever was missing on
  the way, it maps the same block number of any other such inode to the same disk block. The two
  files share their data there.
\<close>

theorem bmap_shares_double:
  assumes "txn me k s" and "\<forall>n. length (bview s n) = BSIZE" and "int k + 8 \<le> LOGSIZE" and "int k + 8 \<le> lg_size s - 1"
    and "NDIRECT + NINDIRECT \<le> bn" and "i_dev (inodes s ip) = ROOTDEV" and "i_dev (inodes s jp) = ROOTDEV"
    and "i_addrs (inodes s ip) ! (NDIRECT + 1) = 0" and "i_addrs (inodes s jp) ! (NDIRECT + 1) = 0"
    and "bmap me ip bn s = Ok (a, s1)"
  shows "a \<noteq> 0 \<and> (\<exists>s2. bmap me jp bn s1 = Ok (a, s2))"
proof -
  let ?p = "(bn - NDIRECT - NINDIRECT) div NINDIRECT" and ?q = "(bn - NDIRECT - NINDIRECT) mod NINDIRECT"
  have "room 8 k {} s" using assms(3,4) by (simp add: room_def LOGSIZE_def NBUF_def)
  from bmap_double_zero [OF txn_txn_h [OF assms(1,2)] this assms(5,6,8,10)]
  obtain e k' where z: "e \<noteq> 0" "a \<noteq> 0" "k' \<le> k + 6" and T: "txn_h me k' {} s1" and lo: "log_only s s1" and p: "?p < NINDIRECT"
    and g: "get32 (bview s1 0) ?p = e" "get32 (bview s1 e) ?q = a" by blast
  have j: "i_dev (inodes s1 jp) = ROOTDEV" "i_addrs (inodes s1 jp) ! (NDIRECT + 1) = 0"
    using log_only_rest [OF lo] assms(7,9) by simp_all
  have c: "card (logged s1 k') + 1 < NBUF" using card_logged [of s1 k'] z(3) assms(3) by (simp add: LOGSIZE_def NBUF_def)
  have lt: "\<not> bn < NDIRECT" "\<not> bn - NDIRECT < NINDIRECT" using assms(5) by auto
  show ?thesis
    using bmap_double_found [OF txn_h_hold [OF T] c z(1) [symmetric] g(1) z(1) g(2) z(2)] lt p j z(2)
    by (auto simp: bmap_def Let_def)
qed

section \<open>Two new files\<close>

text \<open>When the steps of an allocation succeed.\<close>

lemma bread_ok:
  assumes "txn_h me k H s" and "room 1 k H s" and "n \<notin> H"
  shows "\<exists>b s1. bread me ROOTDEV n s = Ok (b, s1)"
proof -
  have "card (logged s k \<union> H) < NBUF"
    using card_Un_le [of "logged s k" H] card_logged [of s k] assms(2) by (simp add: room_def)
  then show ?thesis using bread_hold [OF txn_h_hold [OF assms(1)] assms(3)] by blast
qed

lemma brelse_ok:
  assumes "txn_h me k H s" and "n \<in> H" and "cached (bufs s) n b"
  shows "\<exists>s1. brelse me b s = Ok s1"
  using brelse_hold [OF txn_h_hold [OF assms(1)] assms(2,3)] assms(1) by (auto simp: txn_h_def)

lemma log_write_ok:
  assumes T: "txn_h me k H s" and r: "room 1 k H s" and b: "n \<in> H" "cached (bufs s) n b"
  shows "\<exists>s1. log_write b (set_data b d s) = Ok s1"
proof -
  let ?s = "set_data b d s"
  have sd: "hold me ?s (logged s k) H" "cached (bufs ?s) n b" using set_data_hold [OF txn_h_hold [OF T] b, of d] b(2) by auto
  have q: "logged ?s k = logged s k" "lh_n ?s = lh_n s" "lh_block ?s = lh_block s" "outstanding ?s = outstanding s"
      "lg_size ?s = lg_size s" by (simp_all add: set_data_def upd_buf_def logged_def)
  show ?thesis
    using log_write_hold [of me ?s k H n b, unfolded q, OF sd(1) _ _ b(1) sd(2)] T r by (auto simp: txn_h_def room_def)
qed

lemma change_ok:
  assumes T: "txn_h me k H s" and r: "room 2 k H s" and n: "n \<notin> H"
  obtains b s1 where "bread me ROOTDEV n s = Ok (b, s1)" "b_data (bufs s1 b) = bview s n"
    "\<And>d. length d = BSIZE \<Longrightarrow> \<exists>s2 s3. log_write b (set_data b d s1) = Ok s2 \<and> brelse me b s2 = Ok s3"
proof -
  have r1: "room 1 k H s" using room_le [OF r] by simp
  obtain b s1 where 1: "bread me ROOTDEV n s = Ok (b, s1)" using bread_ok [OF T r1 n] by blast
  note B = bread_h [OF T r1 1]
  have r2: "room 1 k (insert n H) s1" using room_insert [of 1 k H s s1 n] r B(7) by (simp add: numeral_2_eq_2)
  have "\<exists>s2 s3. log_write b (set_data b d s1) = Ok s2 \<and> brelse me b s2 = Ok s3" if d: "length d = BSIZE" for d
  proof -
    obtain s2 where 2: "log_write b (set_data b d s1) = Ok s2" using log_write_ok [OF B(2) r2 insertI1 B(3)] by blast
    note W = log_write_h [OF B(2) r2 insertI1 B(3) d 2]
    then show ?thesis using brelse_ok [OF _ insertI1 W(4) [OF B(3)]] 2 by blast
  qed
  then show ?thesis using that 1 B(4) by blast
qed

lemma balloc_ok:
  assumes T: "txn_h me k H s" and r: "room 3 k H s" and n: "n = BBLOCK 0 (fsb s)" "n \<notin> H" and z: "0 < unat (sb_size (fsb s))"
    and sc: "balloc_scan (bview s n) 0 (unat (sb_size (fsb s))) 0 BPB = Some bi" and a: "a = of_nat bi" "a \<notin> H"
  shows "\<exists>s'. balloc me ROOTDEV s = Ok (a, s') \<and>
    bview s' = (bview s)(n := (bview s n)[bi div 8 := bview s n ! (bi div 8) OR bit_mask bi], a := replicate BSIZE 0)"
proof -
  have r2: "room 2 k H s" using room_le [OF r] by simp
  obtain b s1 where 1: "bread me ROOTDEV n s = Ok (b, s1)" "b_data (bufs s1 b) = bview s n"
    and w: "\<And>d. length d = BSIZE \<Longrightarrow> \<exists>s2 s3. log_write b (set_data b d s1) = Ok s2 \<and> brelse me b s2 = Ok s3"
    using change_ok [OF T r2 n(2)] by blast
  let ?d = "(bview s n)[bi div 8 := bview s n ! (bi div 8) OR bit_mask bi]"
  have len: "length ?d = BSIZE" using T by (simp add: txn_h_def)
  obtain s2 s3 where 2: "log_write b (set_data b ?d s1) = Ok s2" "brelse me b s2 = Ok s3" using w [OF len] by blast
  note C = change_h [OF T r2 1(1) 2 len]
  obtain k3 where k3: "k3 \<le> k + 1" "txn_h me k3 H s3" and lo: "log_only s s3" using C(2) by (auto simp: grows_def)
  have r3: "room 2 k3 H s3" using room_step [of 1 2 k H s k3 s3] r k3(1) lo by (simp add: numeral_3_eq_3)
  obtain b' t1 where "bread me ROOTDEV a s3 = Ok (b', t1)"
    "\<exists>t2 t3. log_write b' (set_data b' (replicate BSIZE 0) t1) = Ok t2 \<and> brelse me b' t2 = Ok t3"
    using change_ok [OF k3(2) r3 a(2)] by (metis length_replicate)
  then obtain s4 where 4: "bzero me ROOTDEV a s3 = Ok s4" by (auto simp: bzero_def)
  have "balloc me ROOTDEV s = Ok (a, s4)"
    unfolding balloc_def using 1 2 4 sc z n(1) a(1) by (subst balloc_loop.simps) (simp add: Let_def)
  then show ?thesis using bzero_h(3) [OF k3(2) r3 4] C(3) by auto
qed

lemma bmap_entry_ok:
  assumes T: "txn_h me k H s" and r: "room 3 k H s" and b: "m \<in> H" "cached (bufs s) m bp" and g: "get32 (bview s m) i = 0"
    and n: "n = BBLOCK 0 (fsb s)" "n \<notin> H" and z: "0 < unat (sb_size (fsb s))"
    and sc: "balloc_scan (bview s n) 0 (unat (sb_size (fsb s))) 0 BPB = Some bi" and a: "a = of_nat bi" "a \<notin> H"
  shows "\<exists>s'. bmap_entry me ROOTDEV bp i s = Ok (a, s') \<and>
    bview s' = (bview s)(n := (bview s n)[bi div 8 := bview s n ! (bi div 8) OR bit_mask bi], a := replicate BSIZE 0,
      m := put32 (bview s m) i a)"
proof -
  obtain s1 where 1: "balloc me ROOTDEV s = Ok (a, s1)"
    "bview s1 = (bview s)(n := (bview s n)[bi div 8 := bview s n ! (bi div 8) OR bit_mask bi], a := replicate BSIZE 0)"
    using balloc_ok [OF T r n z sc a] by blast
  note A = balloc_loop_h [OF T r 1(1) [unfolded balloc_def]]
  then obtain k1 where k1: "k1 \<le> k + 2" "txn_h me k1 H s1" and lo: "log_only s s1" and c: "cached (bufs s1) m bp"
    using b by (auto simp: grows_def)
  have r1: "room 1 k1 H s1" using room_step [of 2 1 k H s k1 s1] r k1(1) lo by simp
  have d1: "b_data (bufs s1 bp) = bview s m" using held_data [OF k1(2) b(1) c] A b(1) by simp
  have len: "length (put32 (bview s m) i a) = BSIZE" using T by (simp add: put32_def txn_h_def)
  obtain s2 where 2: "log_write bp (set_data bp (put32 (bview s m) i a) s1) = Ok s2"
    using log_write_ok [OF k1(2) r1 b(1) c] by blast
  have "bmap_entry me ROOTDEV bp i s = Ok (a, s2)"
    using 1(1) 2 d1 g held_data [OF T b] by (simp add: bmap_entry_def)
  then show ?thesis using log_write_h(2) [OF k1(2) r1 b(1) c len 2] 1(2) by auto
qed

text \<open>A disk whose blocks below 46 are in use, and inodes of empty files.\<close>

definition used_map :: block where
  "used_map = replicate 5 0xff @ [0x3f] @ replicate 1018 0"

definition share_fs :: fstate where
  "share_fs = (binit (empty_fs\<lparr>disk := (\<lambda>_. replicate BSIZE 0)(45 := used_map),
     inodes := (\<lambda>_. empty_inode\<lparr>i_dev := ROOTDEV, i_addrs := replicate 13 0\<rparr>)\<rparr>))\<lparr>outstanding := 1\<rparr>"

lemma scan_first: "balloc_scan used_map 0 1000 0 BPB = Some 46"
  by code_simp

lemma scan_second: "balloc_scan (used_map[5 := 0x7f]) 0 1000 0 BPB = Some 47"
  by code_simp

lemma share_fs_txn: "txn_h 1 0 {} share_fs" "room 8 0 {} share_fs" "txn 1 0 share_fs"
  "bview share_fs = (\<lambda>_. replicate BSIZE 0)(45 := used_map)" "fsb share_fs = fsb empty_fs"
  "inodes share_fs = (\<lambda>_. empty_inode\<lparr>i_dev := ROOTDEV, i_addrs := replicate 13 0\<rparr>)" "lg_size share_fs = 30"
proof -
  let ?s = "empty_fs\<lparr>disk := (\<lambda>_. replicate BSIZE 0)(45 := used_map),
     inodes := (\<lambda>_. empty_inode\<lparr>i_dev := ROOTDEV, i_addrs := replicate 13 0\<rparr>)\<rparr>"
  obtain bs where h: "hold 1 (binit ?s) {} {}" "bview (binit ?s) = disk ?s" and bs: "binit ?s = ?s\<lparr>bufs := bs\<rparr>"
    using binit_hold [of ?s 1] by (auto simp: empty_fs_def ROOTDEV_def)
  have s: "share_fs = ?s\<lparr>bufs := bs, outstanding := 1\<rparr>" unfolding share_fs_def bs by simp
  have h1: "hold 1 share_fs {} {}" using h(1) unfolding share_fs_def by simp
  show v: "bview share_fs = (\<lambda>_. replicate BSIZE 0)(45 := used_map)" using h(2) unfolding share_fs_def by simp
  show "fsb share_fs = fsb empty_fs" "lg_size share_fs = 30"
    "inodes share_fs = (\<lambda>_. empty_inode\<lparr>i_dev := ROOTDEV, i_addrs := replicate 13 0\<rparr>)"
    unfolding s by (simp_all add: empty_fs_def)
  then show "room 8 0 {} share_fs" by (simp add: room_def LOGSIZE_def NBUF_def)
  have "lh_n share_fs = 0" "outstanding share_fs = 1" unfolding s by (simp_all add: empty_fs_def)
  then show t: "txn 1 0 share_fs" using h1 by (simp add: txn_def logged_def)
  have "length used_map = BSIZE" by (simp add: used_map_def BSIZE_def)
  then show "txn_h 1 0 {} share_fs" using txn_txn_h [OF t] v by simp
qed

text \<open>The first file gets block 46 as the block of pointers behind block 0, and block 47 for its data.\<close>

lemma share_fs_maps: "\<exists>s1. bmap 1 0 267 share_fs = Ok (47, s1)"
proof -
  let ?s = share_fs
  note T = share_fs_txn(1) and r = share_fs_txn(2) and v = share_fs_txn(4)
  have sb: "unat (sb_size (fsb t)) = 1000" "BBLOCK 0 (fsb t) = 45" if "log_only ?s t" for t
    using log_only_rest(3) [OF that] share_fs_txn(5) by (simp_all add: empty_fs_def BBLOCK_def)
  have g0: "get32 (replicate BSIZE 0) 0 = 0" by (simp add: get32_def BSIZE_def)
  obtain b1 s1 where 1: "bread 1 ROOTDEV 0 ?s = Ok (b1, s1)" using bread_ok [OF T room_le [OF r], of 0] by auto
  note B1 = bread_h [OF T room_le [OF r] 1, simplified]
  have r1: "room 7 0 {0} s1" using room_insert [of 7 0 "{}" ?s s1 0] r B1(7) by simp
  have v1: "bview s1 0 = replicate BSIZE 0" "bview s1 45 = used_map" using B1(5) v by simp_all
  obtain s2 where 2: "bmap_entry 1 ROOTDEV b1 0 s1 = Ok (46, s2)" and v2: "bview s2 = (bview s1)(45 :=
      used_map[46 div 8 := used_map ! (46 div 8) OR bit_mask 46], 46 := replicate BSIZE 0, 0 := put32 (bview s1 0) 0 46)"
    using bmap_entry_ok [OF B1(2) room_le [OF r1] _ B1(3), of 0 45 46 46] sb [OF B1(7)] scan_first v1 g0 by auto
  have m: "used_map[46 div 8 := used_map ! (46 div 8) OR bit_mask 46] = used_map[5 := 0x7f]"
    by (simp add: used_map_def bit_mask_def nth_append)
  have "0 < NINDIRECT" by (simp add: NINDIRECT_def BSIZE_def)
  note E1 = bmap_entry_h [OF B1(2) room_le [OF r1] _ B1(3) this 2, simplified]
  obtain k2 where k2: "k2 \<le> 3" "txn_h 1 k2 {0} s2" and lo2: "log_only s1 s2" and c2: "cached (bufs s2) 0 b1"
    using E1 B1(3) by (auto simp: grows_def)
  have r2: "room 4 k2 {0} s2" using room_step [of 3 4 0 "{0}" s1 k2 s2] r1 k2(1) lo2 by simp
  obtain b2 s3 where 3: "bread 1 ROOTDEV 46 s2 = Ok (b2, s3)" using bread_ok [OF k2(2) room_le [OF r2], of 46] by auto
  note B2 = bread_h [OF k2(2) room_le [OF r2] 3, simplified]
  have r3: "room 3 k2 {46, 0} s3" using room_insert [of 3 k2 "{0}" s2 s3 46] r2 B2(7) by simp
  have lo3: "log_only ?s s3" using B1(7) lo2 B2(7) log_only_trans by metis
  have v3: "bview s3 46 = replicate BSIZE 0" "bview s3 45 = used_map[5 := 0x7f]" using B2(5) v2 m by simp_all
  obtain s4 where 4: "bmap_entry 1 ROOTDEV b2 0 s3 = Ok (47, s4)"
    using bmap_entry_ok [OF B2(2) r3 _ B2(3), of 0 45 47 47] sb [OF lo3] scan_second v3 g0 by auto
  have "0 < NINDIRECT" by (simp add: NINDIRECT_def BSIZE_def)
  note E2 = bmap_entry_h [OF B2(2) r3 _ B2(3) this 4, simplified]
  obtain k4 where k4: "txn_h 1 k4 {46, 0} s4" and c4: "cached (bufs s4) 0 b1" "cached (bufs s4) 46 b2"
    using E2 B2(3,8) c2 by (auto simp: grows_def)
  obtain s5 where 5: "brelse 1 b1 s4 = Ok s5" using brelse_ok [OF k4 _ c4(1)] by auto
  note R1 = brelse_h [OF k4 _ c4(1) 5, simplified]
  obtain s6 where 6: "brelse 1 b2 s5 = Ok s6" using brelse_ok [OF R1(1) _ R1(4) [OF c4(2)]] by auto
  have "bmap 1 0 267 ?s = Ok (47, s6)"
    using 1 2 3 4 5 6 share_fs_txn(6) by (simp add: bmap_def Let_def NDIRECT_def NINDIRECT_def BSIZE_def)
  then show ?thesis by blast
qed

theorem bmap_shares_double_witness:
  "\<exists>s1 s2. bmap 1 0 267 share_fs = Ok (47, s1) \<and> bmap 1 1 267 s1 = Ok (47, s2)"
proof -
  obtain s1 where s1: "bmap 1 0 267 share_fs = Ok (47, s1)" using share_fs_maps by blast
  have "\<forall>n. length (bview share_fs n) = BSIZE" using share_fs_txn(1) by (simp add: txn_h_def)
  from bmap_shares_double [OF share_fs_txn(3) this _ _ _ _ _ _ _ s1, of 1] s1 share_fs_txn(6,7) show ?thesis
    by (auto simp: LOGSIZE_def NDIRECT_def NINDIRECT_def BSIZE_def)
qed

end
