(* ===== verification/File.thy ===== *)
theory File
  imports Kstate
begin

text \<open>
  Open files, \<^verbatim>\<open>kernel/file.c\<close>, and the creation and closing of pipes, \<^verbatim>\<open>kernel/pipe.c\<close>. \<open>p\<close> is the
  calling process and \<open>me\<close> its pid, \<open>sy\<close> the linker's addresses. A read or write that goes to sleep
  returns \<open>Sleeps i\<close>, \<open>i\<close> bytes done, with the process asleep on its channel. The device switch is
  a parameter: \<open>dev m\<close> is the routine device \<open>m\<close> registered, if any.
\<close>

section \<open>Sleeping and user bytes\<close>

text \<open>The state change of \<open>sleep\<close> before it enters the scheduler.\<close>

definition sleep_on :: "nat \<Rightarrow> chan \<Rightarrow> kstate \<Rightarrow> kstate" where
  "sleep_on p ch s = upd_proc p (\<lambda>x. x\<lparr>p_chan := Some ch, p_state := SLEEPING\<rparr>) s"

text \<open>\<open>copyin\<close> of one byte and whether \<open>copyout\<close> of one byte succeeds.\<close>

definition user_getc :: "u64 \<Rightarrow> phys \<Rightarrow> u64 \<Rightarrow> u8 option" where
  "user_getc pagetable ph a =
     (let va0 = PGROUNDDOWN a; pa0 = uaddr pagetable va0 ph
      in if pa0 = 0 then None else Some (pmem ph (pa0 + (a - va0))))"

definition user_putc :: "u64 \<Rightarrow> phys \<Rightarrow> u64 \<Rightarrow> bool" where
  "user_putc pagetable ph a \<longleftrightarrow> uaddr pagetable (PGROUNDDOWN a) ph \<noteq> 0"

section \<open>Pipes\<close>

definition pipeclose :: "syms \<Rightarrow> u64 \<Rightarrow> bool \<Rightarrow> kstate \<Rightarrow> kstate outcome" where
  "pipeclose sy pi writable s =
     (let s1 = (if writable
                then wakeup (PipeReadCh pi) (upd_pipe pi (\<lambda>x. x\<lparr>writeopen := False\<rparr>) s)
                else wakeup (PipeWriteCh pi) (upd_pipe pi (\<lambda>x. x\<lparr>readopen := False\<rparr>) s))
      in if \<not> readopen (pipes s1 pi) \<and> \<not> writeopen (pipes s1 pi)
         then vm_do (kfree (sy_end sy) pi) s1
         else Ok s1)"

definition kpipewrite :: "nat \<Rightarrow> u64 \<Rightarrow> u64 \<Rightarrow> int \<Rightarrow> kstate \<Rightarrow> call \<times> kstate" where
  "kpipewrite p pi addr n s =
     (let (r, x) = pipewrite (user_getc (p_pagetable (procs s p)) (kphys s)) (p_killed (procs s p)) addr n (pipes s pi);
          s1 = upd_pipe pi (\<lambda>_. x) s
      in case r of
           Sleeps i \<Rightarrow> (Sleeps i, sleep_on p (PipeWriteCh pi) (wakeup (PipeReadCh pi) s1))
         | Returns i \<Rightarrow> (Returns i, if i = -1 then s1 else wakeup (PipeReadCh pi) s1))"

text \<open>
  The bytes read are copied to consecutive user addresses; user pages are distinct from page-table
  pages, so that the copies do not affect which addresses are mapped.
\<close>

definition kpiperead :: "nat \<Rightarrow> u64 \<Rightarrow> u64 \<Rightarrow> int \<Rightarrow> kstate \<Rightarrow> call \<times> kstate" where
  "kpiperead p pi addr n s =
     (let (r, out, x) = piperead (user_putc (p_pagetable (procs s p)) (kphys s)) (p_killed (procs s p)) addr n (pipes s pi);
          s1 = snd (copyout_k p addr out (upd_pipe pi (\<lambda>_. x) s))
      in case r of
           Sleeps i \<Rightarrow> (Sleeps i, sleep_on p (PipeReadCh pi) s1)
         | Returns i \<Rightarrow> (Returns i, if i = -1 then s1 else wakeup (PipeWriteCh pi) s1))"

section \<open>The file table\<close>

definition filealloc :: "kstate \<Rightarrow> nat option \<times> kstate" where
  "filealloc s =
     (case first_from (\<lambda>f. f_ref (ftable s f) = 0) 0 NFILE of
        Some f \<Rightarrow> (Some f, upd_file f (\<lambda>x. x\<lparr>f_ref := 1\<rparr>) s)
      | None \<Rightarrow> (None, s))"

definition filedup :: "nat \<Rightarrow> kstate \<Rightarrow> (nat \<times> kstate) outcome" where
  "filedup f s =
     (if f_ref (ftable s f) < 1 then Panic ''filedup''
      else Ok (f, upd_file f (\<lambda>x. x\<lparr>f_ref := f_ref x + 1\<rparr>) s))"

definition fileclose :: "syms \<Rightarrow> int \<Rightarrow> nat \<Rightarrow> kstate \<Rightarrow> kstate outcome" where
  "fileclose sy me f s =
     (if f_ref (ftable s f) < 1 then Panic ''fileclose''
      else
        let s1 = upd_file f (\<lambda>x. x\<lparr>f_ref := f_ref x - 1\<rparr>) s in
        if f_ref (ftable s1 f) > 0 then Ok s1
        else
          let ff = ftable s1 f;
              s2 = upd_file f (\<lambda>x. x\<lparr>f_ref := 0, f_type := FD_NONE\<rparr>) s1
          in if f_type ff = FD_PIPE then pipeclose sy (f_pipe ff) (f_writable ff) s2
             else if f_type ff = FD_INODE \<or> f_type ff = FD_DEVICE then
               obind (begin_op s2) (\<lambda>s3.
               obind (iput me (f_ip ff) s3) (\<lambda>s4.
               end_op me s4))
             else Ok s2)"

text \<open>
  \<open>pipealloc\<close> returns the two files, or \<open>None\<close> for -1 after undoing what it did. The data of the
  new pipe is what \<open>kalloc\<close> left in the page.
\<close>

definition pipealloc :: "syms \<Rightarrow> int \<Rightarrow> kstate \<Rightarrow> ((nat \<times> nat) option \<times> kstate) outcome" where
  "pipealloc sy me s =
     (case filealloc s of
        (None, s1) \<Rightarrow> Ok (None, s1)
      | (Some f0, s1) \<Rightarrow>
          (case filealloc s1 of
             (None, s2) \<Rightarrow> obind (fileclose sy me f0 s2) (\<lambda>s3. Ok (None, s3))
           | (Some f1, s2) \<Rightarrow>
               let (pi, s3) = kalloc_k s2 in
               if pi = 0 then
                 obind (fileclose sy me f0 s3) (\<lambda>s4.
                 obind (fileclose sy me f1 s4) (\<lambda>s5. Ok (None, s5)))
               else
                 let s4 = upd_pipe pi (\<lambda>_. \<lparr>p_data = replicate PIPESIZE 5, nread = 0, nwrite = 0,
                            readopen = True, writeopen = True\<rparr>) s3;
                     s5 = upd_file f0 (\<lambda>x. x\<lparr>f_type := FD_PIPE, f_readable := True, f_writable := False, f_pipe := pi\<rparr>) s4;
                     s6 = upd_file f1 (\<lambda>x. x\<lparr>f_type := FD_PIPE, f_readable := False, f_writable := True, f_pipe := pi\<rparr>) s5
                 in Ok (Some (f0, f1), s6)))"

text \<open>\<^verbatim>\<open>struct stat\<close> in memory; the four bytes of padding before the size are zero here.\<close>

definition stat_bytes :: "stat \<Rightarrow> u8 list" where
  "stat_bytes st = bytes32 (st_dev st) @ bytes32 (st_ino st) @
     put16 (put16 [0, 0, 0, 0] 0 (st_type st)) 1 (st_nlink st) @ [0, 0, 0, 0] @ bytes64 (st_size st)"

definition filestat :: "int \<Rightarrow> nat \<Rightarrow> nat \<Rightarrow> u64 \<Rightarrow> kstate \<Rightarrow> (int \<times> kstate) outcome" where
  "filestat me p f addr s =
     (if f_type (ftable s f) = FD_INODE \<or> f_type (ftable s f) = FD_DEVICE then
        obind (ilock me (f_ip (ftable s f)) s) (\<lambda>s1.
          let st = stati (f_ip (ftable s1 f)) s1 in
        obind (iunlock me (f_ip (ftable s1 f)) s1) (\<lambda>s2.
          let (ok, s3) = copyout_k p addr (stat_bytes st) s2 in
          Ok (if ok then 0 else -1, s3)))
      else Ok (-1, s))"

definition dev_bad :: "(nat \<Rightarrow> 'd option) \<Rightarrow> u16 \<Rightarrow> bool" where
  "dev_bad dev major \<longleftrightarrow> sint major < 0 \<or> sint major \<ge> int NDEV \<or> dev (nat (sint major)) = None"

definition fileread :: "(nat \<Rightarrow> (u64 \<Rightarrow> int \<Rightarrow> kstate \<Rightarrow> (call \<times> kstate) outcome) option) \<Rightarrow> int \<Rightarrow> nat \<Rightarrow> nat \<Rightarrow>
    u64 \<Rightarrow> int \<Rightarrow> kstate \<Rightarrow> (call \<times> kstate) outcome" where
  "fileread dev me p f addr n s =
     (if \<not> f_readable (ftable s f) then Ok (Returns (-1), s)
      else case f_type (ftable s f) of
        FD_PIPE \<Rightarrow> Ok (kpiperead p (f_pipe (ftable s f)) addr n s)
      | FD_DEVICE \<Rightarrow>
          if dev_bad dev (f_major (ftable s f)) then Ok (Returns (-1), s)
          else the (dev (nat (sint (f_major (ftable s f))))) addr n s
      | FD_INODE \<Rightarrow>
          let ip = f_ip (ftable s f) in
          obind (ilock me ip s) (\<lambda>s1.
          obind (readi me (copyout_bytes (p_pagetable (procs s1 p))) ip addr (f_off (ftable s1 f)) (of_int n) (kphys s1) s1)
            (\<lambda>(r, ph, s2).
              let s3 = s2\<lparr>kphys := ph\<rparr>;
                  s4 = (if r > 0 then upd_file f (\<lambda>x. x\<lparr>f_off := f_off x + of_int r\<rparr>) s3 else s3)
              in obind (iunlock me ip s4) (\<lambda>s5. Ok (Returns r, s5))))
      | FD_NONE \<Rightarrow> Panic ''fileread'')"

text \<open>\<^verbatim>\<open>int max = ((MAXOPBLOCKS-1-1-2) / 2) * BSIZE\<close>\<close>

definition write_max :: int where
  "write_max = ((MAXOPBLOCKS - 1 - 1 - 2) div 2) * int BSIZE"

function filewrite_loop :: "int \<Rightarrow> nat \<Rightarrow> nat \<Rightarrow> u64 \<Rightarrow> int \<Rightarrow> int \<Rightarrow> kstate \<Rightarrow> (int \<times> kstate) outcome" where
  "filewrite_loop me p f addr i n s =
     (if i < n then
        let n1 = min (n - i) write_max;
            ip = f_ip (ftable s f)
        in obind (begin_op s) (\<lambda>s1.
           obind (ilock me ip s1) (\<lambda>s2.
           obind (writei me (copyin_bytes (p_pagetable (procs s2 p)) (kphys s2)) ip (addr + of_int i)
                    (f_off (ftable s2 f)) (of_int n1) s2) (\<lambda>(r, s3).
             let s4 = (if r > 0 then upd_file f (\<lambda>x. x\<lparr>f_off := f_off x + of_int r\<rparr>) s3 else s3)
             in obind (iunlock me ip s4) (\<lambda>s5.
                obind (end_op me s5) (\<lambda>s6.
                  if r \<noteq> n1 then Ok (i, s6)
                  else filewrite_loop me p f addr (i + r) n s6)))))
      else Ok (i, s))"
  by pat_completeness auto

termination filewrite_loop
  by (relation "measure (\<lambda>(me, p, f, addr, i, n, s). nat (n - i))")
    (auto simp: write_max_def MAXOPBLOCKS_def BSIZE_def)

declare filewrite_loop.simps [simp del]

definition filewrite :: "(nat \<Rightarrow> (u64 \<Rightarrow> int \<Rightarrow> kstate \<Rightarrow> (call \<times> kstate) outcome) option) \<Rightarrow> int \<Rightarrow> nat \<Rightarrow> nat \<Rightarrow>
    u64 \<Rightarrow> int \<Rightarrow> kstate \<Rightarrow> (call \<times> kstate) outcome" where
  "filewrite dev me p f addr n s =
     (if \<not> f_writable (ftable s f) then Ok (Returns (-1), s)
      else case f_type (ftable s f) of
        FD_PIPE \<Rightarrow> Ok (kpipewrite p (f_pipe (ftable s f)) addr n s)
      | FD_DEVICE \<Rightarrow>
          if dev_bad dev (f_major (ftable s f)) then Ok (Returns (-1), s)
          else the (dev (nat (sint (f_major (ftable s f))))) addr n s
      | FD_INODE \<Rightarrow>
          obind (filewrite_loop me p f addr 0 n s) (\<lambda>(i, s1). Ok (Returns (if i = n then n else -1), s1))
      | FD_NONE \<Rightarrow> Panic ''filewrite'')"

end
