(* ===== verification/Fs_Frame.thy ===== *)
theory Fs_Frame
  imports Fs
begin

text \<open>
  What the routines of \<^verbatim>\<open>bio.c\<close>, \<^verbatim>\<open>log.c\<close> and \<^verbatim>\<open>fs.c\<close> leave alone. \<open>fsrest\<close> collects the parts of the
  state that block-level routines keep: the superblock, the inode table and everything outside the
  file system. \<open>irest\<close> keeps of an inode only its identity and reference count, which the routines
  on inode contents leave alone. The rules are collected in \<open>fs_frame\<close>. With them: the reference
  counts of the inode table.
\<close>

named_theorems fs_frame "what file-system routines leave unchanged"

section \<open>Block-level routines\<close>

definition fsrest :: "'a fstate_scheme \<Rightarrow> superblock \<times> (nat \<Rightarrow> inode) \<times> 'a" where
  "fsrest s = (fsb s, inodes s, fstate.more s)"

lemma fsrest_eqD:
  "fsrest s' = fsrest s \<Longrightarrow> fsb s' = fsb s \<and> inodes s' = inodes s \<and> fstate.more s' = fstate.more s"
  by (simp add: fsrest_def)

lemma fsrest_bufs [simp]:
  "fsrest (s\<lparr>bufs := a\<rparr>) = fsrest s" "fsrest (s\<lparr>disk := d\<rparr>) = fsrest s" "fsrest (s\<lparr>dwrites := e\<rparr>) = fsrest s"
  "fsrest (s\<lparr>lg_start := b\<rparr>) = fsrest s" "fsrest (s\<lparr>lg_size := c\<rparr>) = fsrest s"
  "fsrest (s\<lparr>outstanding := g\<rparr>) = fsrest s" "fsrest (s\<lparr>committing := h\<rparr>) = fsrest s"
  "fsrest (s\<lparr>lg_dev := i\<rparr>) = fsrest s" "fsrest (s\<lparr>lh_n := j\<rparr>) = fsrest s" "fsrest (s\<lparr>lh_block := k\<rparr>) = fsrest s"
  by (simp_all add: fsrest_def)

lemma fsrest_upd_buf [simp]: "fsrest (upd_buf b f s) = fsrest s"
  by (simp add: upd_buf_def)

lemma fsrest_set_data [simp]: "fsrest (set_data b d s) = fsrest s"
  by (simp add: set_data_def)

lemma fsrest_only_bufs: "only_bufs s s' \<Longrightarrow> fsrest s' = fsrest s"
  by (metis fsrest_bufs(1) only_bufs_def)

lemma fsrest_bread [fs_frame]: "bread me dev n s = Ok (b, s') \<Longrightarrow> fsrest s' = fsrest s"
  by (simp add: bread_only_bufs fsrest_only_bufs)

lemma fsrest_brelse [fs_frame]: "brelse me b s = Ok s' \<Longrightarrow> fsrest s' = fsrest s"
  by (simp add: brelse_only_bufs fsrest_only_bufs)

lemma fsrest_bwrite [fs_frame]: "bwrite me b s = Ok s' \<Longrightarrow> fsrest s' = fsrest s"
  by (auto simp: bwrite_def disk_write_def Let_def outcome_simps split: if_splits)

lemma fsrest_pins [simp]: "fsrest (bpin b s) = fsrest s" "fsrest (bunpin b s) = fsrest s"
  by (simp_all add: bpin_def bunpin_def)

lemma fsrest_log_write [fs_frame]: "log_write b s = Ok s' \<Longrightarrow> fsrest s' = fsrest s"
  by (auto simp: log_write_def Let_def split: if_splits)

lemma fsrest_install_loop: "install_loop me r tail k s = Ok s' \<Longrightarrow> fsrest s' = fsrest s"
  by (induction k arbitrary: tail s)
    (auto simp: outcome_simps Let_def dest!: fs_frame split: if_splits)

lemma fsrest_write_log_loop: "write_log_loop me tail k s = Ok s' \<Longrightarrow> fsrest s' = fsrest s"
  by (induction k arbitrary: tail s) (auto simp: outcome_simps Let_def dest!: fs_frame)

lemma fsrest_write_head [fs_frame]: "write_head me s = Ok s' \<Longrightarrow> fsrest s' = fsrest s"
  by (auto simp: write_head_def outcome_simps Let_def dest!: fs_frame)

lemma fsrest_commit [fs_frame]: "commit me s = Ok s' \<Longrightarrow> fsrest s' = fsrest s"
  by (auto simp: commit_def write_log_def install_trans_def outcome_simps split: if_splits
      dest!: fs_frame fsrest_write_log_loop fsrest_install_loop)

lemma fsrest_end_op [fs_frame]: "end_op me s = Ok s' \<Longrightarrow> fsrest s' = fsrest s"
  by (auto simp: end_op_def Let_def outcome_simps dest!: fs_frame split: if_splits)

lemma fsrest_begin_op [fs_frame]: "begin_op s = Ok s' \<Longrightarrow> fsrest s' = fsrest s"
  by (auto simp: begin_op_def split: if_splits)

lemma fsrest_bzero [fs_frame]: "bzero me dev b s = Ok s' \<Longrightarrow> fsrest s' = fsrest s"
  by (auto simp: bzero_def outcome_simps dest!: fs_frame)

lemma fsrest_balloc_loop: "balloc_loop me dev b s = Ok (a, s') \<Longrightarrow> fsrest s' = fsrest s"
proof (induction me dev b s rule: balloc_loop.induct)
  case (1 me dev b s)
  from 1(2) obtain bp s1 where lt: "b < unat (sb_size (fsb s))" and rd: "bread me dev (BBLOCK b (fsb s)) s = Ok (bp, s1)"
    by (subst (asm) balloc_loop.simps) (auto simp: outcome_simps split: if_splits)
  note eq = 1(2) [unfolded balloc_loop.simps [of me dev b s] rd Let_def]
  show ?case
  proof (cases "balloc_scan (b_data (bufs s1 bp)) b (unat (sb_size (fsb s))) 0 BPB")
    case None
    then obtain s2 where s2: "brelse me bp s1 = Ok s2" "balloc_loop me dev (b + BPB) s2 = Ok (a, s')"
      using eq lt by (auto simp: outcome_simps)
    show ?thesis using 1(1) [OF lt rd refl refl None s2] rd s2(1) by (auto dest!: fs_frame)
  next
    case (Some bi)
    then show ?thesis using eq lt rd by (auto simp: outcome_simps dest!: fs_frame)
  qed
qed

lemma fsrest_balloc [fs_frame]: "balloc me dev s = Ok (a, s') \<Longrightarrow> fsrest s' = fsrest s"
  by (simp add: balloc_def fsrest_balloc_loop)

lemma fsrest_bfree [fs_frame]: "bfree me dev b s = Ok s' \<Longrightarrow> fsrest s' = fsrest s"
  by (auto simp: bfree_def Let_def outcome_simps dest!: fs_frame split: if_splits)

section \<open>Routines on inode contents\<close>

definition iident :: "inode \<Rightarrow> u32 \<times> u32 \<times> int" where
  "iident x = (i_dev x, i_inum x, i_ref x)"

definition irest :: "'a fstate_scheme \<Rightarrow> superblock \<times> (nat \<Rightarrow> u32 \<times> u32 \<times> int) \<times> 'a" where
  "irest s = (fsb s, iident \<circ> inodes s, fstate.more s)"

lemma irest_fsrest: "fsrest s' = fsrest s \<Longrightarrow> irest s' = irest s"
  by (simp add: fsrest_def irest_def)

lemma irest_eqD:
  assumes "irest s' = irest s"
  shows "fsb s' = fsb s" "i_ref (inodes s' i) = i_ref (inodes s i)" "i_dev (inodes s' i) = i_dev (inodes s i)"
    "i_inum (inodes s' i) = i_inum (inodes s i)" "fstate.more s' = fstate.more s"
proof -
  have "iident (inodes s' i) = iident (inodes s i)"
    using assms by (metis comp_apply fst_conv irest_def snd_conv)
  then show "fsb s' = fsb s" "i_ref (inodes s' i) = i_ref (inodes s i)" "i_dev (inodes s' i) = i_dev (inodes s i)"
    "i_inum (inodes s' i) = i_inum (inodes s i)" "fstate.more s' = fstate.more s"
    using assms by (simp_all add: irest_def iident_def)
qed

lemma irest_upd_ino: "(\<And>x. iident (f x) = iident x) \<Longrightarrow> irest (upd_ino ip f s) = irest s"
  by (auto simp: irest_def upd_ino_def fun_eq_iff)

lemma irest_upd_ino_simps [simp]:
  "irest (upd_ino ip (\<lambda>x. x\<lparr>i_lock := l\<rparr>) s) = irest s"
  "irest (upd_ino ip (\<lambda>x. x\<lparr>i_lock := releasesleep (i_lock x)\<rparr>) s) = irest s"
  "irest (upd_ino ip (\<lambda>x. x\<lparr>i_valid := v\<rparr>) s) = irest s"
  "irest (upd_ino ip (\<lambda>x. x\<lparr>i_type := t\<rparr>) s) = irest s"
  "irest (upd_ino ip (\<lambda>x. x\<lparr>i_size := z\<rparr>) s) = irest s"
  "irest (upd_ino ip (\<lambda>x. x\<lparr>i_valid := v, i_lock := releasesleep (i_lock x)\<rparr>) s) = irest s"
  "irest (upd_ino ip (\<lambda>x. x\<lparr>i_nlink := h x\<rparr>) s) = irest s"
  "irest (upd_ino ip (\<lambda>x. x\<lparr>i_major := ma, i_minor := mi, i_nlink := n\<rparr>) s) = irest s"
  "irest (upd_ino ip (read_dinode d k) s) = irest s"
  "irest (set_addr ip i a s) = irest s"
  by (simp_all add: set_addr_def irest_upd_ino iident_def read_dinode_def)

lemmas block_frame = fs_frame [THEN irest_fsrest]

lemma irest_set_data [simp]: "irest (set_data b d s) = irest s"
  by (rule irest_fsrest) simp

named_theorems ino_frame "what routines on inode contents leave unchanged"

lemma irest_iupdate [ino_frame]: "iupdate me ip s = Ok s' \<Longrightarrow> irest s' = irest s"
  by (auto simp: iupdate_def Let_def outcome_simps dest!: block_frame)

lemma irest_ilock [ino_frame]: "ilock me ip s = Ok s' \<Longrightarrow> irest s' = irest s"
proof (cases "i_valid (inodes s ip)")
  case True
  assume "ilock me ip s = Ok s'"
  with True show ?thesis by (auto simp: ilock_def Let_def outcome_simps upd_ino_def [of _ _ s] split: if_splits)
      (simp flip: upd_ino_def)
next
  case False
  assume "ilock me ip s = Ok s'"
  with False obtain lk bp s2 s4 where st:
    "bread me (i_dev (inodes (upd_ino ip (\<lambda>x. x\<lparr>i_lock := lk\<rparr>) s) ip))
       (IBLOCK (i_inum (inodes (upd_ino ip (\<lambda>x. x\<lparr>i_lock := lk\<rparr>) s) ip)) (fsb (upd_ino ip (\<lambda>x. x\<lparr>i_lock := lk\<rparr>) s)))
       (upd_ino ip (\<lambda>x. x\<lparr>i_lock := lk\<rparr>) s) = Ok (bp, s2)"
    "brelse me bp (upd_ino ip (read_dinode (b_data (bufs s2 bp)) (unat (i_inum (inodes s2 ip)) mod IPB)) s2) = Ok s4"
    "s' = upd_ino ip (\<lambda>x. x\<lparr>i_valid := True\<rparr>) s4"
    by (auto simp: ilock_def Let_def outcome_simps upd_ino_def split: if_splits)
  then show ?thesis by (auto dest!: block_frame)
qed

lemma irest_iunlock [ino_frame]: "iunlock me ip s = Ok s' \<Longrightarrow> irest s' = irest s"
  by (auto simp: iunlock_def split: if_splits)

lemma irest_bmap_entry [ino_frame]: "bmap_entry me dev bp i s = Ok (a, s') \<Longrightarrow> irest s' = irest s"
  by (auto simp: bmap_entry_def Let_def outcome_simps dest!: block_frame split: if_splits)

lemma irest_bmap_slot:
  assumes "(if a = 0 then obind (balloc me dev s) (\<lambda>(a', s1). Ok (a', set_addr ip k a' s1)) else Ok (a, s)) = Ok (b, s')"
  shows "irest s' = irest s"
  using assms by (auto simp: outcome_simps dest!: block_frame split: if_splits)

lemma irest_bmap [ino_frame]:
  assumes "bmap me ip bn s = Ok (a, s')"
  shows "irest s' = irest s"
proof (cases "bn < NDIRECT")
  case True
  then show ?thesis using assms by (auto simp: bmap_def Let_def outcome_simps dest!: block_frame split: if_splits)
next
  case False
  show ?thesis
  proof (cases "bn - NDIRECT < NINDIRECT")
    case True
    with False assms show ?thesis
      by (simp add: bmap_def Let_def outcome_simps split del: if_split)
        (auto dest!: block_frame ino_frame irest_bmap_slot split del: if_split)
  next
    case False2: False
    with False assms show ?thesis
      by (auto simp: bmap_def Let_def outcome_simps dest!: block_frame ino_frame split: if_splits)
  qed
qed

lemma irest_itrunc_direct: "itrunc_direct me ip i k s = Ok s' \<Longrightarrow> irest s' = irest s"
  by (induction k arbitrary: i s) (auto simp: Let_def outcome_simps dest!: block_frame split: if_splits)

lemma irest_itrunc_entries: "itrunc_entries me dev bp j k s = Ok s' \<Longrightarrow> irest s' = irest s"
  by (induction k arbitrary: j s) (auto simp: Let_def outcome_simps dest!: block_frame split: if_splits)

lemma irest_itrunc_double: "itrunc_double me dev bp j k s = Ok s' \<Longrightarrow> irest s' = irest s"
  by (induction k arbitrary: j s)
    (auto simp: Let_def outcome_simps dest!: block_frame irest_itrunc_entries split: if_splits)

lemma irest_itrunc [ino_frame]: "itrunc me ip s = Ok s' \<Longrightarrow> irest s' = irest s"
  by (auto simp: itrunc_def Let_def outcome_simps split: if_splits
      dest!: block_frame ino_frame irest_itrunc_direct irest_itrunc_entries irest_itrunc_double)

lemma irest_readi_loop: "readi_loop me cout ip dst off tot n mem s = Ok (r, mem', s') \<Longrightarrow> irest s' = irest s"
proof (induction me cout ip dst off tot n mem s rule: readi_loop.induct)
  case (1 me cout ip dst off tot n mem s)
  show ?case
  proof (cases "tot < n")
    case True
    obtain addr s1 bp s2 s3 where st: "bmap me ip (off div BSIZE) s = Ok (addr, s1)"
      "bread me (i_dev (inodes s1 ip)) addr s1 = Ok (bp, s2)" "brelse me bp s2 = Ok s3"
      using 1(2) True by (subst (asm) readi_loop.simps) (auto simp: outcome_simps Let_def case_prod_beta)
    have fr: "irest s3 = irest s" using st by (auto dest!: block_frame ino_frame)
    show ?thesis
    proof (cases "fst (cout dst (take (blk_part (n - tot) off) (drop (off mod BSIZE) (b_data (bufs s2 bp)))) mem)")
      case False
      then show ?thesis
        using 1(2) True st fr by (subst (asm) readi_loop.simps) (auto simp: Let_def case_prod_beta)
    next
      case c: True
      have "readi_loop me cout ip (dst + of_nat (blk_part (n - tot) off)) (off + blk_part (n - tot) off)
          (tot + blk_part (n - tot) off) n (snd (cout dst (take (blk_part (n - tot) off) (drop (off mod BSIZE) (b_data (bufs s2 bp)))) mem)) s3
          = Ok (r, mem', s')"
        using 1(2) True st c by (subst (asm) readi_loop.simps) (auto simp: Let_def case_prod_beta)
      then show ?thesis using 1(1) [OF True st(1) refl st(2) refl refl refl prod.collapse st(3)] c fr by simp
    qed
  next
    case False
    then show ?thesis using 1(2) by (simp add: readi_loop.simps)
  qed
qed

lemma irest_readi [ino_frame]: "readi me cout ip dst off n mem s = Ok (r, mem', s') \<Longrightarrow> irest s' = irest s"
  by (auto simp: readi_def Let_def dest!: irest_readi_loop split: if_splits)

lemma irest_writei_loop: "writei_loop me cin ip src off tot n s = Ok (t, o', s') \<Longrightarrow> irest s' = irest s"
proof (induction me cin ip src off tot n s rule: writei_loop.induct)
  case (1 me cin ip src off tot n s)
  show ?case
  proof (cases "tot < n")
    case True
    let ?m = "blk_part (n - tot) off" and ?o = "off mod BSIZE"
    obtain addr s1 bp s2 where st: "bmap me ip (off div BSIZE) s = Ok (addr, s1)"
      "bread me (i_dev (inodes s1 ip)) addr s1 = Ok (bp, s2)"
      using 1(2) True by (subst (asm) writei_loop.simps) (auto simp: outcome_simps Let_def case_prod_beta)
    let ?d = "b_data (bufs s2 bp)" and ?bs = "fst (cin src ?m)"
    let ?s3 = "set_data bp (take ?o ?d @ ?bs @ drop (?o + length ?bs) ?d) s2"
    have fr: "irest ?s3 = irest s" using st by (auto dest!: block_frame ino_frame)
    show ?thesis
    proof (cases "snd (cin src ?m)")
      case False
      then obtain s4 where "brelse me bp ?s3 = Ok s4" "s' = s4"
        using 1(2) True st by (subst (asm) writei_loop.simps) (auto simp: Let_def case_prod_beta outcome_simps)
      then show ?thesis using fr by (auto dest!: block_frame)
    next
      case c: True
      then obtain s4 s5 where w: "log_write bp ?s3 = Ok s4" "brelse me bp s4 = Ok s5"
        "writei_loop me cin ip (src + of_nat ?m) (off + ?m) (tot + ?m) n s5 = Ok (t, o', s')"
        using 1(2) True st by (subst (asm) writei_loop.simps) (auto simp: Let_def case_prod_beta outcome_simps)
      have "irest s5 = irest s" using w(1,2) fr by (auto dest!: block_frame)
      then show ?thesis
        using 1(1) [OF True st(1) refl st(2) refl refl refl prod.collapse refl refl refl _ w(1,2,3)] c by simp
    qed
  next
    case False
    then show ?thesis using 1(2) by (simp add: writei_loop.simps)
  qed
qed

lemma irest_writei [ino_frame]: "writei me cin ip src off n s = Ok (r, s') \<Longrightarrow> irest s' = irest s"
  by (auto simp: writei_def Let_def outcome_simps dest!: irest_writei_loop ino_frame split: if_splits)

section \<open>Reference counts of the inode table\<close>

lemma iget_scan_Some:
  "iget_scan t dev inum i k fr = (Some ip, fr') \<Longrightarrow>
    i \<le> ip \<and> ip < i + k \<and> i_ref (t ip) > 0 \<and> i_dev (t ip) = dev \<and> i_inum (t ip) = inum"
  by (induction k arbitrary: i fr) (fastforce split: if_splits)+

lemma iget_scan_None:
  "iget_scan t dev inum i k fr = (None, fr') \<Longrightarrow> i \<le> j \<Longrightarrow> j < i + k \<Longrightarrow>
    \<not> (i_ref (t j) > 0 \<and> i_dev (t j) = dev \<and> i_inum (t j) = inum)"
proof (induction k arbitrary: i fr)
  case (Suc k)
  then show ?case by (cases "j = i") (auto split: if_splits)
qed simp

lemma iget_scan_free:
  "iget_scan t dev inum i k fr = (None, fr') \<Longrightarrow>
    fr' = (if fr = None then first_from (\<lambda>j. i_ref (t j) = 0) i k else fr)"
proof (induction k arbitrary: i fr)
  case (Suc k)
  show ?case
    using Suc.IH [of "Suc i" "if fr = None \<and> i_ref (t i) = 0 then Some i else fr"] Suc.prems
    by (auto split: if_splits)
qed simp

text \<open>
  The table holds at most one entry in use for each inode on disk, and no count is negative.
\<close>

definition itable_ok :: "'a fstate_scheme \<Rightarrow> bool" where
  "itable_ok s \<longleftrightarrow> (\<forall>i. i_ref (inodes s i) \<ge> 0) \<and>
     (\<forall>i j. i < NINODE \<longrightarrow> j < NINODE \<longrightarrow> i_ref (inodes s i) > 0 \<longrightarrow> i_ref (inodes s j) > 0 \<longrightarrow>
        i_dev (inodes s i) = i_dev (inodes s j) \<longrightarrow> i_inum (inodes s i) = i_inum (inodes s j) \<longrightarrow> i = j)"

lemma itable_ok_irest: "irest s' = irest s \<Longrightarrow> itable_ok s' \<longleftrightarrow> itable_ok s"
  using irest_eqD [of s' s] by (simp add: itable_ok_def)

text \<open>\<open>iget\<close> on each of its branches.\<close>

lemma iget_cases:
  assumes "iget dev inum s = Ok (ip, s')"
  obtains (hit) "ip < NINODE" "i_ref (inodes s ip) > 0" "i_dev (inodes s ip) = dev" "i_inum (inodes s ip) = inum"
      "s' = upd_ino ip (\<lambda>x. x\<lparr>i_ref := i_ref x + 1\<rparr>) s"
    | (fresh) "ip < NINODE" "i_ref (inodes s ip) = 0"
      "\<And>j. j < NINODE \<Longrightarrow> \<not> (i_ref (inodes s j) > 0 \<and> i_dev (inodes s j) = dev \<and> i_inum (inodes s j) = inum)"
      "s' = upd_ino ip (\<lambda>x. x\<lparr>i_dev := dev, i_inum := inum, i_ref := 1, i_valid := False\<rparr>) s"
proof (cases "iget_scan (inodes s) dev inum 0 NINODE None")
  case (Pair r fr)
  show thesis
  proof (cases r)
    case None
    then show thesis
      using assms Pair iget_scan_None [of "inodes s" dev inum 0 NINODE None fr]
        iget_scan_free [of "inodes s" dev inum 0 NINODE None fr] fresh
      by (auto simp: iget_def split: option.splits dest!: first_from_0_SomeD)
  next
    case (Some i)
    then show thesis
      using assms Pair iget_scan_Some [of "inodes s" dev inum 0 NINODE None i fr] hit by (auto simp: iget_def)
  qed
qed

lemma iget_panics_iff:
  "iget dev inum s = Panic ''iget: no inodes'' \<longleftrightarrow>
    (\<forall>j<NINODE. i_ref (inodes s j) \<noteq> 0 \<and> \<not> (i_ref (inodes s j) > 0 \<and> i_dev (inodes s j) = dev \<and> i_inum (inodes s j) = inum))"
proof (cases "iget_scan (inodes s) dev inum 0 NINODE None")
  case (Pair r fr)
  show ?thesis
  proof (cases r)
    case None
    show ?thesis
    proof
      assume "iget dev inum s = Panic ''iget: no inodes''"
      then have "fr = None" using Pair None by (auto simp: iget_def split: option.splits)
      then have "first_from (\<lambda>j. i_ref (inodes s j) = 0) 0 NINODE = None"
        using iget_scan_free [of "inodes s" dev inum 0 NINODE None fr] Pair None by simp
      then show "\<forall>j<NINODE. i_ref (inodes s j) \<noteq> 0 \<and> \<not> (i_ref (inodes s j) > 0 \<and> i_dev (inodes s j) = dev \<and> i_inum (inodes s j) = inum)"
        using iget_scan_None [of "inodes s" dev inum 0 NINODE None fr] Pair None by (simp add: first_from_None_iff)
    next
      assume *: "\<forall>j<NINODE. i_ref (inodes s j) \<noteq> 0 \<and> \<not> (i_ref (inodes s j) > 0 \<and> i_dev (inodes s j) = dev \<and> i_inum (inodes s j) = inum)"
      then have "first_from (\<lambda>j. i_ref (inodes s j) = 0) 0 NINODE = None" by (simp add: first_from_None_iff)
      then show "iget dev inum s = Panic ''iget: no inodes''"
        using iget_scan_free [of "inodes s" dev inum 0 NINODE None fr] Pair None by (simp add: iget_def)
    qed
  next
    case (Some i)
    then show ?thesis
      using Pair iget_scan_Some [of "inodes s" dev inum 0 NINODE None i fr] by (auto simp: iget_def)
  qed
qed

lemma iput_ref:
  assumes "iput me ip s = Ok s'"
  shows "irest s' = irest (upd_ino ip (\<lambda>x. x\<lparr>i_ref := i_ref x - 1\<rparr>) s)"
proof -
  have upd: "irest (upd_ino ip (\<lambda>x. x\<lparr>i_ref := i_ref x - 1\<rparr>) t) = irest (upd_ino ip (\<lambda>x. x\<lparr>i_ref := i_ref x - 1\<rparr>) s)"
    if "irest t = irest s" for t
    using irest_eqD [OF that] by (auto simp: irest_def upd_ino_def iident_def fun_eq_iff)
  let ?del = "obind (acquiresleep me (i_lock (inodes s ip))) (\<lambda>lk.
      obind (itrunc me ip (upd_ino ip (\<lambda>x. x\<lparr>i_lock := lk\<rparr>) s)) (\<lambda>s1.
      obind (iupdate me ip (upd_ino ip (\<lambda>x. x\<lparr>i_type := 0\<rparr>) s1)) (\<lambda>s2.
      Ok (upd_ino ip (\<lambda>x. x\<lparr>i_valid := False, i_lock := releasesleep (i_lock x)\<rparr>) s2))))"
  from assms [unfolded iput_def] show ?thesis
  proof (rule obind_OkE)
    fix s3
    assume s3: "(if i_ref (inodes s ip) = 1 \<and> i_valid (inodes s ip) \<and> i_nlink (inodes s ip) = 0 then ?del else Ok s) = Ok s3"
      and s': "Ok (upd_ino ip (\<lambda>x. x\<lparr>i_ref := i_ref x - 1\<rparr>) s3) = Ok s'"
    from s3 have "irest s3 = irest s" by (auto simp: outcome_simps dest!: ino_frame split: if_splits)
    then have "irest (upd_ino ip (\<lambda>x. x\<lparr>i_ref := i_ref x - 1\<rparr>) s3) = irest (upd_ino ip (\<lambda>x. x\<lparr>i_ref := i_ref x - 1\<rparr>) s)"
      by (rule upd)
    then show ?thesis using s' by simp
  qed
qed

end
