(* ===== verification/Refs.thy ===== *)
theory Refs
  imports File Fs_Frame
begin

text \<open>
  Reference counting. The locale \<open>ref_table\<close> is the contract the inode table of \<^verbatim>\<open>fs.c\<close> and the file
  table of \<^verbatim>\<open>file.c\<close> share: some steps hand out a reference to an entry, some give one back, all
  others leave the counts alone. Its lemmas relate the counts to the references outstanding; both
  tables are interpretations.
\<close>

section \<open>The contract\<close>

locale ref_table =
  fixes cnt :: "'s \<Rightarrow> nat \<Rightarrow> int"
    and get :: "'s \<Rightarrow> nat \<Rightarrow> 's \<Rightarrow> bool"
    and put :: "'s \<Rightarrow> nat \<Rightarrow> 's \<Rightarrow> bool"
    and keep :: "'s \<Rightarrow> 's \<Rightarrow> bool"
  assumes get_cnt: "get s i s' \<Longrightarrow> cnt s' = (cnt s)(i := cnt s i + 1)"
    and put_cnt: "put s i s' \<Longrightarrow> cnt s' = (cnt s)(i := cnt s i - 1)"
    and keep_cnt: "keep s s' \<Longrightarrow> cnt s' = cnt s"
begin

text \<open>\<open>run s R\<close>: \<open>s\<close> is reached with \<open>R i\<close> references to entry \<open>i\<close> outstanding.\<close>

inductive run :: "'s \<Rightarrow> (nat \<Rightarrow> nat) \<Rightarrow> bool" where
  start: "(\<And>i. cnt s i = 0) \<Longrightarrow> run s (\<lambda>_. 0)"
| got: "run s R \<Longrightarrow> get s i s' \<Longrightarrow> run s' (R(i := R i + 1))"
| gave: "run s R \<Longrightarrow> R i > 0 \<Longrightarrow> put s i s' \<Longrightarrow> run s' (R(i := R i - 1))"
| other: "run s R \<Longrightarrow> keep s s' \<Longrightarrow> run s' R"

lemma run_cnt: "run s R \<Longrightarrow> cnt s i = int (R i)"
proof (induction rule: run.induct)
  case (gave s R j s')
  then show ?case using put_cnt [OF gave(3)] by (cases "i = j") (auto simp: of_nat_diff)
qed (auto simp: get_cnt keep_cnt)

lemma outstanding_positive: "run s R \<Longrightarrow> R i > 0 \<Longrightarrow> cnt s i \<ge> 1"
  using run_cnt [of s R i] by simp

lemma counts_nonneg: "run s R \<Longrightarrow> cnt s i \<ge> 0"
  using run_cnt [of s R i] by simp

end

section \<open>The inode table\<close>

lemma i_ref_upd_ino: "i_ref (inodes (upd_ino ip f s) j) = (if j = ip then i_ref (f (inodes s ip)) else i_ref (inodes s j))"
  by (simp add: upd_ino_def)

lemma iput_ref_apply:
  assumes "iput me ip s = Ok s'"
  shows "i_ref (inodes s' j) = (if j = ip then i_ref (inodes s ip) - 1 else i_ref (inodes s j))"
  using irest_eqD(2) [OF iput_ref [OF assms], of j] by (simp add: i_ref_upd_ino)

lemma iget_ref: "iget dev inum s = Ok (ip, s') \<Longrightarrow>
    (\<lambda>i. i_ref (inodes s' i)) = (\<lambda>i. i_ref (inodes s i))(ip := i_ref (inodes s ip) + 1)"
  by (erule iget_cases) (auto simp: i_ref_upd_ino fun_eq_iff)

interpretation iref: ref_table "\<lambda>s i. i_ref (inodes (s :: 'a fstate_scheme) i)"
  "\<lambda>s i s'. (\<exists>dev inum. iget dev inum s = Ok (i, s')) \<or> idup i s = (i, s')"
  "\<lambda>s i s'. \<exists>me. iput me i s = Ok s'"
  "\<lambda>s s'. irest s' = irest s"
proof
  fix s s' :: "'a fstate_scheme" and i
  show "(\<exists>dev inum. iget dev inum s = Ok (i, s')) \<or> idup i s = (i, s') \<Longrightarrow>
    (\<lambda>j. i_ref (inodes s' j)) = (\<lambda>j. i_ref (inodes s j))(i := i_ref (inodes s i) + 1)"
    by (elim disjE exE) (erule iget_ref, auto simp: idup_def i_ref_upd_ino fun_eq_iff)
  show "\<exists>me. iput me i s = Ok s' \<Longrightarrow>
    (\<lambda>j. i_ref (inodes s' j)) = (\<lambda>j. i_ref (inodes s j))(i := i_ref (inodes s i) - 1)"
    by (elim exE) (rule ext, simp add: iput_ref_apply)
  show "irest s' = irest s \<Longrightarrow> (\<lambda>j. i_ref (inodes s' j)) = (\<lambda>j. i_ref (inodes s j))"
    by (rule ext) (rule irest_eqD(2))
qed

text \<open>
  The states of the inode table under any sequence of \<open>iget\<close>, \<open>idup\<close>, \<open>iput\<close> and of routines on
  inode contents, with the references outstanding.
\<close>

inductive inode_run :: "'a fstate_scheme \<Rightarrow> (nat \<Rightarrow> nat) \<Rightarrow> bool" where
  ir_start: "(\<And>i. i_ref (inodes s i) = 0) \<Longrightarrow> inode_run s (\<lambda>_. 0)"
| ir_iget: "inode_run s R \<Longrightarrow> iget dev inum s = Ok (ip, s') \<Longrightarrow> inode_run s' (R(ip := R ip + 1))"
| ir_idup: "inode_run s R \<Longrightarrow> R ip > 0 \<Longrightarrow> idup ip s = (ip, s') \<Longrightarrow> inode_run s' (R(ip := R ip + 1))"
| ir_iput: "inode_run s R \<Longrightarrow> R ip > 0 \<Longrightarrow> iput me ip s = Ok s' \<Longrightarrow> inode_run s' (R(ip := R ip - 1))"
| ir_ilock: "inode_run s R \<Longrightarrow> ilock me ip s = Ok s' \<Longrightarrow> inode_run s' R"
| ir_iunlock: "inode_run s R \<Longrightarrow> iunlock me ip s = Ok s' \<Longrightarrow> inode_run s' R"
| ir_iupdate: "inode_run s R \<Longrightarrow> iupdate me ip s = Ok s' \<Longrightarrow> inode_run s' R"
| ir_itrunc: "inode_run s R \<Longrightarrow> itrunc me ip s = Ok s' \<Longrightarrow> inode_run s' R"
| ir_readi: "inode_run s R \<Longrightarrow> readi me cout ip dst off n (mem :: u8 list) s = Ok (r, mem', s') \<Longrightarrow> inode_run s' R"
| ir_writei: "inode_run s R \<Longrightarrow> writei me cin ip src off n s = Ok (r, s') \<Longrightarrow> inode_run s' R"

lemma inode_run_iref: "inode_run s R \<Longrightarrow> iref.run s R"
proof (induction rule: inode_run.induct)
  case (ir_iget s R dev inum ip s')
  then show ?case using iref.got by blast
next
  case (ir_idup s R ip s')
  then show ?case using iref.got by blast
next
  case (ir_iput s R ip me s')
  then show ?case using iref.gave by blast
qed (auto intro: iref.start iref.other ino_frame)

lemma inode_run_distinct:
  assumes "inode_run s R"
  shows "itable_ok s"
  using assms
proof (induction rule: inode_run.induct)
  case (ir_iget s R dev inum ip s')
  from ir_iget(2) show ?case
  proof (cases rule: iget_cases)
    case hit
    then show ?thesis using ir_iget(3) by (auto simp: itable_ok_def upd_ino_def split: if_splits)
  next
    case fresh
    then show ?thesis using ir_iget(3) by (auto simp: itable_ok_def upd_ino_def split: if_splits)
  qed
next
  case (ir_idup s R ip s')
  then show ?case
    using iref.outstanding_positive [OF inode_run_iref [OF ir_idup(1)] ir_idup(2)]
    by (auto simp: itable_ok_def idup_def upd_ino_def split: if_splits)
next
  case (ir_iput s R ip me s')
  have "itable_ok (upd_ino ip (\<lambda>x. x\<lparr>i_ref := i_ref x - 1\<rparr>) s)"
    using ir_iput(4) iref.outstanding_positive [OF inode_run_iref [OF ir_iput(1)] ir_iput(2)]
    by (auto simp: itable_ok_def upd_ino_def split: if_splits)
  then show ?case using iput_ref [OF ir_iput(3)] itable_ok_irest by blast
qed (auto simp: itable_ok_def dest!: ino_frame itable_ok_irest)

text \<open>
  C15: under any sequence of inode operations the count of every table entry is the number of
  references outstanding, no two entries in use stand for the same inode of the disk, and \<open>iget\<close>
  of an inode that is in use returns its one entry without touching its contents.
\<close>

theorem inode_table_invariant:
  assumes "inode_run s R"
  shows "(\<forall>i. i_ref (inodes s i) = int (R i)) \<and> itable_ok s \<and>
    (\<forall>i. i < NINODE \<and> R i > 0 \<longrightarrow> iget (i_dev (inodes s i)) (i_inum (inodes s i)) s =
       Ok (i, upd_ino i (\<lambda>x. x\<lparr>i_ref := i_ref x + 1\<rparr>) s))"
proof (intro conjI allI impI)
  fix i
  show cnt: "i_ref (inodes s i) = int (R i)" for i
    using iref.run_cnt [OF inode_run_iref [OF assms]] by simp
  show ok: "itable_ok s" using inode_run_distinct [OF assms] .
  assume i: "i < NINODE \<and> R i > 0"
  let ?dev = "i_dev (inodes s i)" and ?inum = "i_inum (inodes s i)"
  obtain r fr where sc: "iget_scan (inodes s) ?dev ?inum 0 NINODE None = (r, fr)" by (cases "iget_scan (inodes s) ?dev ?inum 0 NINODE None")
  have "r \<noteq> None"
    using sc iget_scan_None [of "inodes s" ?dev ?inum 0 NINODE None fr i] i cnt [of i] by auto
  then obtain j where j: "r = Some j" by auto
  then have "j = i"
    using iget_scan_Some [of "inodes s" ?dev ?inum 0 NINODE None j fr] sc ok i cnt [of i] unfolding itable_ok_def by auto
  then show "iget ?dev ?inum s = Ok (i, upd_ino i (\<lambda>x. x\<lparr>i_ref := i_ref x + 1\<rparr>) s)"
    using sc j by (simp add: iget_def)
qed

lemma iget_empty:
  assumes "\<And>i. i_ref (inodes s i) = 0"
  shows "iget dev inum s = Ok (0, upd_ino 0 (\<lambda>x. x\<lparr>i_dev := dev, i_inum := inum, i_ref := 1, i_valid := False\<rparr>) s)"
proof -
  obtain r fr where sc: "iget_scan (inodes s) dev inum 0 NINODE None = (r, fr)" by (cases "iget_scan (inodes s) dev inum 0 NINODE None")
  then have "r = None" using iget_scan_Some [of "inodes s" dev inum 0 NINODE None _ fr] assms by (cases r) auto
  moreover have "fr = Some 0"
    using iget_scan_free [of "inodes s" dev inum 0 NINODE None fr] sc \<open>r = None\<close> assms by (simp add: first_from_Some_iff NINODE_def)
  ultimately show ?thesis using sc by (simp add: iget_def)
qed

theorem inode_table_invariant_witness:
  "let s1 = upd_ino 0 (\<lambda>x. x\<lparr>i_dev := ROOTDEV, i_inum := ROOTINO, i_ref := 1, i_valid := False\<rparr>) empty_fs
   in iget ROOTDEV ROOTINO empty_fs = Ok (0, s1) \<and> itable_ok s1 \<and>
      iget ROOTDEV ROOTINO s1 = Ok (0, upd_ino 0 (\<lambda>x. x\<lparr>i_ref := i_ref x + 1\<rparr>) s1)"
proof -
  let ?s1 = "upd_ino 0 (\<lambda>x. x\<lparr>i_dev := ROOTDEV, i_inum := ROOTINO, i_ref := 1, i_valid := False\<rparr>) empty_fs"
  have z: "i_ref (inodes empty_fs i) = 0" for i by (simp add: empty_fs_def empty_inode_def)
  have g: "iget ROOTDEV ROOTINO empty_fs = Ok (0, ?s1)" by (rule iget_empty) (rule z)
  have "inode_run empty_fs (\<lambda>_. 0)" by (rule ir_start) (rule z)
  from inode_table_invariant [OF ir_iget [OF this g]]
  have "itable_ok ?s1" "iget (i_dev (inodes ?s1 0)) (i_inum (inodes ?s1 0)) ?s1 = Ok (0, upd_ino 0 (\<lambda>x. x\<lparr>i_ref := i_ref x + 1\<rparr>) ?s1)"
    by (auto simp: NINODE_def)
  then show ?thesis using g by (simp add: Let_def upd_ino_def)
qed

section \<open>The file table\<close>

lemma more_kstate:
  assumes "fstate.more s' = fstate.more (s :: kstate)"
  shows "ftable s' = ftable s" "procs s' = procs s" "kphys s' = kphys s" "pipes s' = pipes s"
  using assms by (cases s; cases s'; simp)+

lemma ftable_wakeup_loop: "ftable (wakeup_loop ch p k s) = ftable s"
  by (induction k arbitrary: p s) (simp_all add: upd_proc_def)

lemma ftable_simps [simp]:
  "ftable (wakeup ch s) = ftable s" "ftable (upd_pipe a g s) = ftable s" "ftable (upd_proc p h s) = ftable s"
  "ftable (sleep_on p ch s) = ftable s" "ftable (upd_tf p k s) = ftable s"
  by (simp_all add: wakeup_def ftable_wakeup_loop upd_pipe_def upd_proc_def sleep_on_def upd_tf_def Let_def)

lemma ftable_vm: "vm_do f s = Ok s' \<Longrightarrow> ftable s' = ftable s" "vm_get g s = Ok (r, s') \<Longrightarrow> ftable s' = ftable s"
  by (auto simp: vm_do_def vm_get_def outcome_simps)

lemma ftable_upd_file: "ftable (upd_file f g s) = (ftable s)(f := g (ftable s f))"
  by (simp add: upd_file_def)

lemma ftable_pipeclose: "pipeclose sy pi w s = Ok s' \<Longrightarrow> ftable s' = ftable s"
  by (auto simp: pipeclose_def Let_def split: if_splits dest!: ftable_vm)

lemma ftable_iput_op:
  assumes "begin_op s = Ok s1" and "iput me ip s1 = Ok s2" and "end_op me s2 = Ok (s3 :: kstate)"
  shows "ftable s3 = ftable s"
proof -
  have "fstate.more s3 = fstate.more s2" "fstate.more s1 = fstate.more s"
    using assms(1,3) by (auto dest!: fs_frame fsrest_eqD)
  moreover have "fstate.more s2 = fstate.more s1"
    using irest_eqD(5) [OF iput_ref [OF assms(2)]] by (simp add: upd_ino_def)
  ultimately show ?thesis by (intro more_kstate(1)) simp
qed

lemma fileclose_ftable:
  assumes "fileclose sy me f s = Ok s'"
  shows "ftable s' = (ftable s)(f := (ftable s f)\<lparr>f_ref := f_ref (ftable s f) - 1,
    f_type := (if f_ref (ftable s f) = 1 then FD_NONE else f_type (ftable s f))\<rparr>)"
  using assms
  by (auto simp: fileclose_def Let_def outcome_simps ftable_upd_file split: if_splits
      dest!: ftable_pipeclose ftable_iput_op)

interpretation fref: ref_table "\<lambda>s f. f_ref (ftable s f)"
  "\<lambda>s f s'. filealloc s = (Some f, s') \<or> (\<exists>f'. filedup f s = Ok (f', s'))"
  "\<lambda>s f s'. \<exists>sy me. fileclose sy me f s = Ok s'"
  "\<lambda>s s'. ftable s' = ftable s"
proof
  fix s s' :: kstate and f
  show "filealloc s = (Some f, s') \<or> (\<exists>f'. filedup f s = Ok (f', s')) \<Longrightarrow>
    (\<lambda>j. f_ref (ftable s' j)) = (\<lambda>j. f_ref (ftable s j))(f := f_ref (ftable s f) + 1)"
    by (auto simp: filealloc_def filedup_def ftable_upd_file fun_eq_iff split: option.splits if_splits
        dest!: first_from_0_SomeD)
  show "\<exists>sy me. fileclose sy me f s = Ok s' \<Longrightarrow>
    (\<lambda>j. f_ref (ftable s' j)) = (\<lambda>j. f_ref (ftable s j))(f := f_ref (ftable s f) - 1)"
    by (auto simp: fileclose_ftable fun_eq_iff)
qed simp

text \<open>
  The states of the file table under any sequence of \<open>filealloc\<close>, \<open>filedup\<close>, \<open>fileclose\<close> and of
  kernel code that leaves the table alone, with the references outstanding.
\<close>

inductive file_run :: "syms \<Rightarrow> kstate \<Rightarrow> (nat \<Rightarrow> nat) \<Rightarrow> bool" for sy where
  fr_start: "(\<And>f. f_ref (ftable s f) = 0) \<Longrightarrow> file_run sy s (\<lambda>_. 0)"
| fr_alloc: "file_run sy s R \<Longrightarrow> filealloc s = (Some f, s') \<Longrightarrow> file_run sy s' (R(f := R f + 1))"
| fr_dup: "file_run sy s R \<Longrightarrow> R f > 0 \<Longrightarrow> filedup f s = Ok (f', s') \<Longrightarrow> file_run sy s' (R(f := R f + 1))"
| fr_close: "file_run sy s R \<Longrightarrow> R f > 0 \<Longrightarrow> fileclose sy me f s = Ok s' \<Longrightarrow> file_run sy s' (R(f := R f - 1))"
| fr_other: "file_run sy s R \<Longrightarrow> ftable s' = ftable s \<Longrightarrow> file_run sy s' R"

lemma file_run_fref: "file_run sy s R \<Longrightarrow> fref.run s R"
proof (induction rule: file_run.induct)
  case (fr_alloc s R f s')
  then show ?case using fref.got by blast
next
  case (fr_dup s R f f' s')
  then show ?case using fref.got by blast
next
  case (fr_close s R f me s')
  then show ?case using fref.gave by blast
qed (auto intro: fref.start fref.other)

text \<open>
  C16: the count of every file is the number of references outstanding; so \<open>filealloc\<close> only ever
  hands out a file nobody refers to, \<open>filedup\<close> of a file one has a reference to does not panic, and
  closing one of several references changes nothing but the count: the pipe or inode behind the
  file is released by the last \<open>fileclose\<close> alone.
\<close>

theorem file_table_invariant:
  assumes "file_run sy s R"
  shows "(\<forall>f. f_ref (ftable s f) = int (R f)) \<and>
    (\<forall>f s'. filealloc s = (Some f, s') \<longrightarrow> f < NFILE \<and> R f = 0) \<and>
    (filealloc s = (None, s) \<longleftrightarrow> (\<forall>f<NFILE. R f > 0)) \<and>
    (\<forall>f. R f > 0 \<longrightarrow> filedup f s = Ok (f, upd_file f (\<lambda>x. x\<lparr>f_ref := f_ref x + 1\<rparr>) s)) \<and>
    (\<forall>f me. R f > 1 \<longrightarrow> fileclose sy me f s = Ok (upd_file f (\<lambda>x. x\<lparr>f_ref := f_ref x - 1\<rparr>) s))"
proof -
  have cnt: "f_ref (ftable s f) = int (R f)" for f
    using fref.run_cnt [OF file_run_fref [OF assms]] by simp
  have none: "filealloc s = (None, s) \<longleftrightarrow> (\<forall>f<NFILE. R f > 0)"
    using first_from_None_iff [of "\<lambda>f. f_ref (ftable s f) = 0" 0 NFILE]
    by (auto simp: filealloc_def cnt split: option.splits)
  show ?thesis
    using none cnt by (auto simp: filealloc_def filedup_def fileclose_def Let_def ftable_upd_file
        split: option.splits dest!: first_from_0_SomeD)
qed

theorem file_table_invariant_witness:
  "let s1 = upd_file 0 (\<lambda>x. x\<lparr>f_ref := 1\<rparr>) empty_k
   in filealloc empty_k = (Some 0, s1) \<and> f_ref (ftable s1 0) = 1 \<and>
      filedup 0 s1 = Ok (0, upd_file 0 (\<lambda>x. x\<lparr>f_ref := f_ref x + 1\<rparr>) s1)"
proof -
  let ?s1 = "upd_file 0 (\<lambda>x. x\<lparr>f_ref := 1\<rparr>) empty_k" and ?sy = "\<lparr>sy_end = 0, sy_trampoline = 0, sy_uservec = 0,
    sy_userret = 0, sy_usertrap = 0, sy_kernelvec = 0, sy_forkret = 0, sy_initcode = 0\<rparr>"
  have z: "f_ref (ftable empty_k f) = 0" for f by (simp add: empty_file_def)
  have "first_from (\<lambda>f. f_ref (ftable empty_k f) = 0) 0 NFILE = Some 0"
    using z by (simp add: first_from_Some_iff NFILE_def del: empty_k_simps)
  then have g: "filealloc empty_k = (Some 0, ?s1)" by (simp add: filealloc_def)
  have "file_run ?sy empty_k (\<lambda>_. 0)" by (rule fr_start) (rule z)
  from file_table_invariant [OF fr_alloc [OF this g]] g show ?thesis by (simp add: Let_def)
qed

end
