(* ===== verification/Proc.thy ===== *)
theory Proc
  imports Refs
begin

text \<open>
  Processes, \<^verbatim>\<open>kernel/proc.c\<close>: creation, memory, exit and wait, kill. A process is its index in the
  table; \<open>p\<close> is the calling process and \<open>me\<close> its pid. A call that goes to sleep returns \<open>Sleeps\<close>
  and is entered again when the process is woken. A kernel access through a null pointer is the
  panic of \<open>kerneltrap\<close>. The switch between processes (\<open>scheduler\<close>, \<open>sched\<close>, \<open>yield\<close>, \<open>sleep\<close>) is
  the subject of the theory \<open>Sched\<close>.
\<close>

section \<open>Page tables of processes\<close>

text \<open>
  \<open>uvmfree\<close> at the depth of a page table, three levels; a table that were deeper would exhaust the
  kernel stack and not return.
\<close>

definition uvmfree3 :: "syms \<Rightarrow> u64 \<Rightarrow> u64 \<Rightarrow> phys \<Rightarrow> phys outcome" where
  "uvmfree3 sy pagetable sz ph =
     (case uvmfree (sy_end sy) 3 pagetable sz ph of Some r \<Rightarrow> r | None \<Rightarrow> Blocked)"

definition proc_pagetable :: "syms \<Rightarrow> u64 \<Rightarrow> phys \<Rightarrow> (u64 \<times> phys) outcome" where
  "proc_pagetable sy trapframe ph =
     (let (pagetable, s1) = uvmcreate ph in
      if pagetable = 0 then Ok (0, s1)
      else
        obind (mappages pagetable TRAMPOLINE PGSIZE (sy_trampoline sy) (PTE_R OR PTE_X) s1) (\<lambda>(r, s2).
          if r < 0 then obind (uvmfree3 sy pagetable 0 s2) (\<lambda>s3. Ok (0, s3))
          else
            obind (mappages pagetable TRAPFRAME PGSIZE trapframe (PTE_R OR PTE_W) s2) (\<lambda>(r, s3).
              if r < 0 then
                obind (uvmunmap (sy_end sy) pagetable TRAMPOLINE 1 False s3) (\<lambda>s4.
                obind (uvmfree3 sy pagetable 0 s4) (\<lambda>s5. Ok (0, s5)))
              else Ok (pagetable, s3))))"

definition proc_freepagetable :: "syms \<Rightarrow> u64 \<Rightarrow> u64 \<Rightarrow> phys \<Rightarrow> phys outcome" where
  "proc_freepagetable sy pagetable sz ph =
     obind (uvmunmap (sy_end sy) pagetable TRAMPOLINE 1 False ph) (\<lambda>s1.
     obind (uvmunmap (sy_end sy) pagetable TRAPFRAME 1 False s1) (\<lambda>s2.
     uvmfree3 sy pagetable sz s2))"

fun proc_mapstacks_loop :: "u64 \<Rightarrow> nat \<Rightarrow> nat \<Rightarrow> phys \<Rightarrow> phys outcome" where
  "proc_mapstacks_loop kpgtbl p 0 ph = Ok ph"
| "proc_mapstacks_loop kpgtbl p (Suc k) ph =
     (let (pa, s1) = kalloc ph in
      if pa = 0 then Panic ''kalloc''
      else obind (kvmmap kpgtbl (KSTACK p) pa PGSIZE (PTE_R OR PTE_W) s1) (\<lambda>s2.
             proc_mapstacks_loop kpgtbl (Suc p) k s2))"

definition proc_mapstacks :: "u64 \<Rightarrow> phys \<Rightarrow> phys outcome" where
  "proc_mapstacks kpgtbl ph = proc_mapstacks_loop kpgtbl 0 NPROC ph"

section \<open>The process table\<close>

fun procinit_loop :: "nat \<Rightarrow> nat \<Rightarrow> kstate \<Rightarrow> kstate" where
  "procinit_loop p 0 s = s"
| "procinit_loop p (Suc k) s = procinit_loop (Suc p) k (upd_proc p (\<lambda>x. x\<lparr>p_kstack := KSTACK p\<rparr>) s)"

definition procinit :: "kstate \<Rightarrow> kstate" where
  "procinit s = procinit_loop 0 NPROC s"

definition allocpid :: "kstate \<Rightarrow> int \<times> kstate" where
  "allocpid s = (nextpid s, s\<lparr>nextpid := nextpid s + 1\<rparr>)"

definition freeproc :: "syms \<Rightarrow> nat \<Rightarrow> kstate \<Rightarrow> kstate outcome" where
  "freeproc sy p s =
     obind (if p_trapframe (procs s p) \<noteq> 0 then vm_do (kfree (sy_end sy) (p_trapframe (procs s p))) s else Ok s) (\<lambda>s1.
       let s2 = upd_proc p (\<lambda>x. x\<lparr>p_trapframe := 0\<rparr>) s1 in
     obind (if p_pagetable (procs s2 p) \<noteq> 0
            then vm_do (proc_freepagetable sy (p_pagetable (procs s2 p)) (p_sz (procs s2 p))) s2 else Ok s2) (\<lambda>s3.
     Ok (upd_proc p (\<lambda>x. x\<lparr>p_pagetable := 0, p_sz := 0, p_pid := 0, p_parent := None,
           p_name := (p_name x)[0 := 0], p_chan := None, p_killed := False, p_xstate := 0, p_state := UNUSED\<rparr>) s3)))"

definition new_context :: "u64 \<Rightarrow> u64 \<Rightarrow> kcontext" where
  "new_context ra sp = \<lparr>c_ra = ra, c_sp = sp, c_s0 = 0, c_s1 = 0, c_s2 = 0, c_s3 = 0, c_s4 = 0, c_s5 = 0,
     c_s6 = 0, c_s7 = 0, c_s8 = 0, c_s9 = 0, c_s10 = 0, c_s11 = 0\<rparr>"

definition allocproc :: "syms \<Rightarrow> kstate \<Rightarrow> (nat option \<times> kstate) outcome" where
  "allocproc sy s =
     (case first_from (\<lambda>p. p_state (procs s p) = UNUSED) 0 NPROC of
        None \<Rightarrow> Ok (None, s)
      | Some p \<Rightarrow>
          let (pid, s1) = allocpid s;
              s2 = upd_proc p (\<lambda>x. x\<lparr>p_pid := pid\<rparr>) s1;
              (tf, s3) = kalloc_k s2;
              s4 = upd_proc p (\<lambda>x. x\<lparr>p_trapframe := tf\<rparr>) s3
          in if tf = 0 then Ok (None, s4)
             else
               obind (vm_get (proc_pagetable sy tf) s4) (\<lambda>(pt, s5).
                 let s6 = upd_proc p (\<lambda>x. x\<lparr>p_pagetable := pt\<rparr>) s5 in
                 if pt = 0 then obind (freeproc sy p s6) (\<lambda>s7. Ok (None, s7))
                 else Ok (Some p, upd_proc p (\<lambda>x. x\<lparr>p_context := new_context (sy_forkret sy) (p_kstack x + PGSIZE)\<rparr>) s6)))"

text \<open>The size of \<^verbatim>\<open>initcode\<close> is 52 bytes.\<close>

definition userinit :: "syms \<Rightarrow> int \<Rightarrow> kstate \<Rightarrow> kstate outcome" where
  "userinit sy me s =
     obind (allocproc sy s) (\<lambda>(r, s1).
       case r of
         None \<Rightarrow> Panic ''kerneltrap''
       | Some p \<Rightarrow>
           let s2 = s1\<lparr>initproc := p\<rparr> in
           obind (vm_do (uvminit (p_pagetable (procs s2 p)) (sy_initcode sy) 52) s2) (\<lambda>s3.
             let s4 = upd_proc p (\<lambda>x. x\<lparr>p_sz := PGSIZE\<rparr>) s3;
                 s5 = upd_tf p (\<lambda>t. t\<lparr>tf_epc := 0, tf_sp := PGSIZE\<rparr>) s4;
                 s6 = upd_proc p (\<lambda>x. x\<lparr>p_name := safestr (cstr ''initcode'') 16 (p_name x)\<rparr>) s5
             in obind (namei me None (cstr ''/'') s6) (\<lambda>(cwd, s7).
                Ok (upd_proc p (\<lambda>x. x\<lparr>p_cwd := cwd, p_state := RUNNABLE\<rparr>) s7))))"

text \<open>\<open>growproc\<close> keeps the size in a 32-bit variable.\<close>

definition growproc :: "syms \<Rightarrow> nat \<Rightarrow> int \<Rightarrow> kstate \<Rightarrow> (int \<times> kstate) outcome" where
  "growproc sy p n s =
     (let sz = (ucast (p_sz (procs s p)) :: u32);
          pt = p_pagetable (procs s p)
      in if n > 0 then
           obind (vm_get (uvmalloc (sy_end sy) pt (ucast sz) (ucast (sz + of_int n))) s) (\<lambda>(r, s1).
             let sz1 = (ucast r :: u32) in
             if sz1 = 0 then Ok (-1, s1)
             else Ok (0, upd_proc p (\<lambda>x. x\<lparr>p_sz := ucast sz1\<rparr>) s1))
         else if n < 0 then
           obind (vm_get (uvmdealloc (sy_end sy) pt (ucast sz) (ucast (sz + of_int n))) s) (\<lambda>(r, s1).
             Ok (0, upd_proc p (\<lambda>x. x\<lparr>p_sz := ucast (ucast r :: u32)\<rparr>) s1))
         else Ok (0, upd_proc p (\<lambda>x. x\<lparr>p_sz := ucast sz\<rparr>) s))"

section \<open>fork\<close>

fun fork_files :: "nat \<Rightarrow> nat \<Rightarrow> nat \<Rightarrow> nat \<Rightarrow> kstate \<Rightarrow> kstate outcome" where
  "fork_files p np i 0 s = Ok s"
| "fork_files p np i (Suc k) s =
     (case p_ofile (procs s p) i of
        None \<Rightarrow> fork_files p np (Suc i) k s
      | Some f \<Rightarrow>
          obind (filedup f s) (\<lambda>(f', s1).
          fork_files p np (Suc i) k (upd_proc np (\<lambda>x. x\<lparr>p_ofile := (p_ofile x)(i := Some f')\<rparr>) s1)))"

definition fork :: "syms \<Rightarrow> nat \<Rightarrow> kstate \<Rightarrow> (int \<times> kstate) outcome" where
  "fork sy p s =
     obind (allocproc sy s) (\<lambda>(r, s1).
       case r of
         None \<Rightarrow> Ok (-1, s1)
       | Some np \<Rightarrow>
           obind (vm_get (uvmcopy (sy_end sy) (p_pagetable (procs s1 p)) (p_pagetable (procs s1 np)) (p_sz (procs s1 p))) s1)
             (\<lambda>(c, s2).
               if c < 0 then obind (freeproc sy np s2) (\<lambda>s3. Ok (-1, s3))
               else
                 let s3 = upd_proc np (\<lambda>x. x\<lparr>p_sz := p_sz (procs s2 p), p_parent := Some p\<rparr>) s2;
                     s4 = upd_tf np (\<lambda>_. (tframes s3 (p_trapframe (procs s3 p)))\<lparr>tf_a0 := 0\<rparr>) s3
                 in obind (fork_files p np 0 NOFILE s4) (\<lambda>s5.
                      case p_cwd (procs s5 p) of
                        None \<Rightarrow> Panic ''kerneltrap''
                      | Some cwd \<Rightarrow>
                          let (cwd', s6) = idup cwd s5;
                              s7 = upd_proc np (\<lambda>x. x\<lparr>p_cwd := Some cwd',
                                     p_name := safestr (takeWhile (\<lambda>c. c \<noteq> 0) (p_name (procs s6 p))) 16 (p_name x)\<rparr>) s6;
                              pid = p_pid (procs s7 np)
                          in Ok (pid, upd_proc np (\<lambda>x. x\<lparr>p_state := RUNNABLE\<rparr>) s7))))"

section \<open>exit, wait and kill\<close>

text \<open>\<open>held\<close>: whether the caller holds the lock of the process.\<close>

definition wakeup1 :: "bool \<Rightarrow> nat \<Rightarrow> kstate \<Rightarrow> kstate outcome" where
  "wakeup1 held p s =
     (if \<not> held then Panic ''wakeup1''
      else if p_chan (procs s p) = Some (ProcCh p) \<and> p_state (procs s p) = SLEEPING
      then Ok (upd_proc p (\<lambda>x. x\<lparr>p_state := RUNNABLE\<rparr>) s)
      else Ok s)"

fun reparent_loop :: "nat \<Rightarrow> nat \<Rightarrow> nat \<Rightarrow> kstate \<Rightarrow> kstate" where
  "reparent_loop p pp 0 s = s"
| "reparent_loop p pp (Suc k) s =
     reparent_loop p (Suc pp) k
       (if p_parent (procs s pp) = Some p then upd_proc pp (\<lambda>x. x\<lparr>p_parent := Some (initproc s)\<rparr>) s else s)"

definition reparent :: "nat \<Rightarrow> kstate \<Rightarrow> kstate" where
  "reparent p s = reparent_loop p 0 NPROC s"

fun exit_files :: "syms \<Rightarrow> int \<Rightarrow> nat \<Rightarrow> nat \<Rightarrow> nat \<Rightarrow> kstate \<Rightarrow> kstate outcome" where
  "exit_files sy me p fd 0 s = Ok s"
| "exit_files sy me p fd (Suc k) s =
     (case p_ofile (procs s p) fd of
        None \<Rightarrow> exit_files sy me p (Suc fd) k s
      | Some f \<Rightarrow>
          obind (fileclose sy me f s) (\<lambda>s1.
          exit_files sy me p (Suc fd) k (upd_proc p (\<lambda>x. x\<lparr>p_ofile := (p_ofile x)(fd := None)\<rparr>) s1)))"

text \<open>The result is the state in which \<open>exit\<close> enters the scheduler, never to return.\<close>

definition exit :: "syms \<Rightarrow> int \<Rightarrow> nat \<Rightarrow> int \<Rightarrow> kstate \<Rightarrow> kstate outcome" where
  "exit sy me p status s =
     (if p = initproc s then Panic ''init exiting''
      else
        obind (exit_files sy me p 0 NOFILE s) (\<lambda>s1.
        obind (begin_op s1) (\<lambda>s2.
        obind (case p_cwd (procs s2 p) of None \<Rightarrow> Panic ''kerneltrap'' | Some cwd \<Rightarrow> iput me cwd s2) (\<lambda>s3.
        obind (end_op me s3) (\<lambda>s4.
          let s5 = upd_proc p (\<lambda>x. x\<lparr>p_cwd := None\<rparr>) s4 in
        obind (wakeup1 True (initproc s5) s5) (\<lambda>s6.
          case p_parent (procs s6 p) of
            None \<Rightarrow> Panic ''kerneltrap''
          | Some original_parent \<Rightarrow>
              obind (wakeup1 True original_parent (reparent p s6)) (\<lambda>s7.
              Ok (upd_proc p (\<lambda>x. x\<lparr>p_xstate := status, p_state := ZOMBIE\<rparr>) s7))))))))"

text \<open>
  The scan of \<open>wait\<close> for a dead child from entry \<open>np\<close> on: \<open>Inl v\<close> when the call returns \<open>v\<close>,
  \<open>Inr havekids\<close> when it found none.
\<close>

fun wait_scan :: "syms \<Rightarrow> nat \<Rightarrow> u64 \<Rightarrow> nat \<Rightarrow> nat \<Rightarrow> bool \<Rightarrow> kstate \<Rightarrow> ((int + bool) \<times> kstate) outcome" where
  "wait_scan sy p addr np 0 havekids s = Ok (Inr havekids, s)"
| "wait_scan sy p addr np (Suc k) havekids s =
     (if p_parent (procs s np) = Some p then
        if p_state (procs s np) = ZOMBIE then
          let pid = p_pid (procs s np);
              (ok, s1) = (if addr \<noteq> 0 then copyout_k p addr (bytes32 (of_int (p_xstate (procs s np)))) s else (True, s))
          in if \<not> ok then Ok (Inl (-1), s1)
             else obind (freeproc sy np s1) (\<lambda>s2. Ok (Inl pid, s2))
        else wait_scan sy p addr (Suc np) k True s
      else wait_scan sy p addr (Suc np) k havekids s)"

definition wait :: "syms \<Rightarrow> nat \<Rightarrow> u64 \<Rightarrow> kstate \<Rightarrow> (call \<times> kstate) outcome" where
  "wait sy p addr s =
     obind (wait_scan sy p addr 0 NPROC False s) (\<lambda>(r, s1).
       case r of
         Inl v \<Rightarrow> Ok (Returns v, s1)
       | Inr havekids \<Rightarrow>
           if \<not> havekids \<or> p_killed (procs s1 p) then Ok (Returns (-1), s1)
           else Ok (Sleeps 0, sleep_on p (ProcCh p) s1))"

definition kill :: "int \<Rightarrow> kstate \<Rightarrow> int \<times> kstate" where
  "kill pid s =
     (case first_from (\<lambda>p. p_pid (procs s p) = pid) 0 NPROC of
        None \<Rightarrow> (-1, s)
      | Some p \<Rightarrow>
          (0, upd_proc p (\<lambda>x. x\<lparr>p_killed := True,
                p_state := (if p_state x = SLEEPING then RUNNABLE else p_state x)\<rparr>) s))"

section \<open>Copies by kind of address\<close>

text \<open>\<open>either_copyout\<close> and \<open>either_copyin\<close> of bytes kept outside \<open>pmem\<close>.\<close>

definition either_copyout :: "nat \<Rightarrow> bool \<Rightarrow> u64 \<Rightarrow> u8 list \<Rightarrow> kstate \<Rightarrow> int \<times> kstate" where
  "either_copyout p user_dst dst bs s =
     (if user_dst then let (ok, s1) = copyout_k p dst bs s in (if ok then 0 else -1, s1)
      else (0, s\<lparr>kphys := (kphys s)\<lparr>pmem := put_bytes (pmem (kphys s)) dst bs\<rparr>\<rparr>))"

definition either_copyin :: "nat \<Rightarrow> bool \<Rightarrow> u64 \<Rightarrow> nat \<Rightarrow> kstate \<Rightarrow> int \<times> u8 list" where
  "either_copyin p user_src src len s =
     (if user_src then
        let (bs, ok) = copyin_bytes (p_pagetable (procs s p)) (kphys s) src len in (if ok then 0 else -1, bs)
      else (0, get_bytes (pmem (kphys s)) src len))"

end
