(* ===== verification/Proc_Life.thy ===== *)
theory Proc_Life
  imports Proc
begin

text \<open>
  The life of a process: what \<open>fork\<close>, \<open>exit\<close>, \<open>wait\<close> and \<open>kill\<close> do to the process table, the open
  files and the inode references.
\<close>

section \<open>Frames\<close>

text \<open>What routines on processes and memory keep: all but the process table, memory and the pid counter.\<close>

definition krest :: "kstate \<Rightarrow> fstate \<times> (nat \<Rightarrow> kfile) \<times> (u64 \<Rightarrow> pipe) \<times> (u64 \<Rightarrow> trapframe) \<times> nat \<times> u32" where
  "krest s = (fstate.truncate s, ftable s, pipes s, tframes s, initproc s, ticks s)"

lemma krest_simps [simp]:
  "krest (s\<lparr>procs := P\<rparr>) = krest s" "krest (s\<lparr>kphys := ph\<rparr>) = krest s" "krest (s\<lparr>nextpid := n\<rparr>) = krest s"
  "krest (upd_proc p f s) = krest s"
  by (simp_all add: krest_def upd_proc_def fstate.defs)

lemma krestD:
  assumes "krest s' = krest s"
  shows "ftable s' = ftable s" "pipes s' = pipes s" "tframes s' = tframes s" "initproc s' = initproc s"
    "inodes s' = inodes s" "ticks s' = ticks s"
  using assms by (auto simp: krest_def fstate.defs)

lemma krest_vm:
  "vm_do f s = Ok s' \<Longrightarrow> krest s' = krest s" "vm_get g s = Ok (r, s') \<Longrightarrow> krest s' = krest s"
  "kalloc_k s = (pa, s') \<Longrightarrow> krest s' = krest s" "allocpid s = (n, s') \<Longrightarrow> krest s' = krest s"
  by (auto simp: vm_do_def vm_get_def kalloc_k_def allocpid_def outcome_simps split: prod.splits)

lemma procs_upd_proc [simp]: "procs (upd_proc p f s) = (procs s)(p := f (procs s p))"
  by (simp add: upd_proc_def)

definition freed :: "proc \<Rightarrow> proc" where
  "freed x = x\<lparr>p_trapframe := 0, p_pagetable := 0, p_sz := 0, p_pid := 0, p_parent := None,
     p_name := (p_name x)[0 := 0], p_chan := None, p_killed := False, p_xstate := 0, p_state := UNUSED\<rparr>"

lemma vm_do_if: "(if c then vm_do f s else Ok s) = Ok s' \<Longrightarrow> \<exists>ph. s' = s\<lparr>kphys := ph\<rparr>"
  by (cases c) (auto simp: vm_do_def outcome_simps intro: exI [of _ "kphys s"])

lemma freeproc_spec:
  assumes "freeproc sy p s = Ok s'"
  shows "krest s' = krest s \<and> procs s' = (procs s)(p := freed (procs s p)) \<and> nextpid s' = nextpid s"
proof -
  from assms [unfolded freeproc_def] obtain s1 where
    1: "(if p_trapframe (procs s p) \<noteq> 0 then vm_do (kfree (sy_end sy) (p_trapframe (procs s p))) s else Ok s) = Ok s1" and
    r: "(let s2 = upd_proc p (\<lambda>x. x\<lparr>p_trapframe := 0\<rparr>) s1 in
      obind (if p_pagetable (procs s2 p) \<noteq> 0
            then vm_do (proc_freepagetable sy (p_pagetable (procs s2 p)) (p_sz (procs s2 p))) s2 else Ok s2) (\<lambda>s3.
     Ok (upd_proc p (\<lambda>x. x\<lparr>p_pagetable := 0, p_sz := 0, p_pid := 0, p_parent := None,
           p_name := (p_name x)[0 := 0], p_chan := None, p_killed := False, p_xstate := 0, p_state := UNUSED\<rparr>) s3))) = Ok s'"
    by (rule obind_OkE)
  let ?s2 = "upd_proc p (\<lambda>x. x\<lparr>p_trapframe := 0\<rparr>) s1"
  from r [unfolded Let_def] obtain s3 where
    3: "(if p_pagetable (procs ?s2 p) \<noteq> 0
        then vm_do (proc_freepagetable sy (p_pagetable (procs ?s2 p)) (p_sz (procs ?s2 p))) ?s2 else Ok ?s2) = Ok s3" and
    s': "Ok (upd_proc p (\<lambda>x. x\<lparr>p_pagetable := 0, p_sz := 0, p_pid := 0, p_parent := None,
           p_name := (p_name x)[0 := 0], p_chan := None, p_killed := False, p_xstate := 0, p_state := UNUSED\<rparr>) s3) = Ok s'"
    by (rule obind_OkE)
  from vm_do_if [OF 1] obtain ph where "s1 = s\<lparr>kphys := ph\<rparr>" ..
  moreover from vm_do_if [OF 3] obtain ph' where "s3 = ?s2\<lparr>kphys := ph'\<rparr>" ..
  ultimately show ?thesis using s' by (auto simp: freed_def upd_proc_def)
qed

text \<open>A successful \<open>allocproc\<close>: the first unused slot gets a pid, a trap frame page and a page table.\<close>

lemma allocproc_Some:
  assumes "allocproc sy s = Ok (Some np, s')"
  shows "krest s' = krest s \<and> nextpid s' = nextpid s + 1 \<and> np < NPROC \<and> p_state (procs s np) = UNUSED \<and>
    (\<exists>tf pt. tf \<noteq> 0 \<and> pt \<noteq> 0 \<and> procs s' = (procs s)(np := (procs s np)\<lparr>p_pid := nextpid s, p_trapframe := tf,
       p_pagetable := pt, p_context := new_context (sy_forkret sy) (p_kstack (procs s np) + PGSIZE)\<rparr>))"
proof (cases "first_from (\<lambda>p. p_state (procs s p) = UNUSED) 0 NPROC")
  case None
  then show ?thesis using assms by (simp add: allocproc_def)
next
  case (Some p)
  let ?s2 = "upd_proc p (\<lambda>x. x\<lparr>p_pid := nextpid s\<rparr>) (s\<lparr>nextpid := nextpid s + 1\<rparr>)"
  obtain tf s3 where k: "kalloc_k ?s2 = (tf, s3)" by (cases "kalloc_k ?s2")
  then obtain ph where s3: "s3 = ?s2\<lparr>kphys := ph\<rparr>" by (auto simp: kalloc_k_def split: prod.splits)
  let ?s4 = "upd_proc p (\<lambda>x. x\<lparr>p_trapframe := tf\<rparr>) s3"
  from assms have tf: "tf \<noteq> 0" using Some k by (auto simp: allocproc_def allocpid_def Let_def)
  then obtain pt s5 where pt: "vm_get (proc_pagetable sy tf) ?s4 = Ok (pt, s5)" and eq:
    "(if pt = 0 then obind (freeproc sy p (upd_proc p (\<lambda>x. x\<lparr>p_pagetable := pt\<rparr>) s5)) (\<lambda>s7. Ok (None, s7))
      else Ok (Some p, upd_proc p (\<lambda>x. x\<lparr>p_context := new_context (sy_forkret sy) (p_kstack x + PGSIZE)\<rparr>)
        (upd_proc p (\<lambda>x. x\<lparr>p_pagetable := pt\<rparr>) s5))) = Ok (Some np, s')"
    using assms Some k by (auto simp: allocproc_def allocpid_def Let_def outcome_simps)
  then have "pt \<noteq> 0" "np = p" by (auto simp: outcome_simps split: if_splits)
  moreover obtain ph' where "s5 = ?s4\<lparr>kphys := ph'\<rparr>" using pt by (auto simp: vm_get_def outcome_simps)
  ultimately have "procs s' = (procs s)(np := (procs s np)\<lparr>p_pid := nextpid s, p_trapframe := tf,
       p_pagetable := pt, p_context := new_context (sy_forkret sy) (p_kstack (procs s np) + PGSIZE)\<rparr>)"
    "krest s' = krest s" "nextpid s' = nextpid s + 1"
    using eq s3 by (auto simp: upd_proc_def)
  then show ?thesis using tf \<open>pt \<noteq> 0\<close> \<open>np = p\<close> first_from_0_SomeD [OF Some] by blast
qed

section \<open>fork\<close>

text \<open>
  The descriptor loop: the child's table gets the parent's files and every file's count grows by
  the number of descriptors that refer to it.
\<close>

definition fd_refs :: "(nat \<Rightarrow> nat option) \<Rightarrow> nat \<Rightarrow> nat \<Rightarrow> nat \<Rightarrow> nat" where
  "fd_refs fds i k f = length (filter (\<lambda>j. fds j = Some f) [i..<i + k])"

lemma fd_refs_simps:
  "fd_refs fds i 0 f = 0"
  "fd_refs fds i (Suc k) f = (if fds i = Some f then 1 else 0) + fd_refs fds (Suc i) k f"
  by (simp_all add: fd_refs_def upt_conv_Cons del: upt_Suc)

definition fds_copied :: "nat \<Rightarrow> nat \<Rightarrow> (nat \<Rightarrow> nat option) \<Rightarrow> (nat \<Rightarrow> nat option) \<Rightarrow> nat \<Rightarrow> nat option" where
  "fds_copied i k pf cf = (\<lambda>j. if i \<le> j \<and> j < i + k \<and> pf j \<noteq> None then pf j else cf j)"

lemma fds_copied_simps:
  "fds_copied i 0 pf cf = cf"
  "pf i = None \<Longrightarrow> fds_copied i (Suc k) pf cf = fds_copied (Suc i) k pf cf"
  "pf i = Some f \<Longrightarrow> fds_copied i (Suc k) pf cf = fds_copied (Suc i) k pf (cf(i := Some f))"
  by (auto simp: fds_copied_def fun_eq_iff Suc_le_eq le_less)

definition nofiles :: "kstate \<Rightarrow> fstate \<times> (u64 \<Rightarrow> pipe) \<times> (u64 \<Rightarrow> trapframe) \<times> nat \<times> u32 \<times> phys \<times> int" where
  "nofiles s = (fstate.truncate s, pipes s, tframes s, initproc s, ticks s, kphys s, nextpid s)"

lemma fork_files_spec:
  assumes "fork_files p np i k s = Ok s'" and "p \<noteq> np"
  shows "nofiles s' = nofiles s \<and>
    procs s' = (procs s)(np := (procs s np)\<lparr>p_ofile := fds_copied i k (p_ofile (procs s p)) (p_ofile (procs s np))\<rparr>) \<and>
    (\<forall>f. ftable s' f = (ftable s f)\<lparr>f_ref := f_ref (ftable s f) + int (fd_refs (p_ofile (procs s p)) i k f)\<rparr>)"
  using assms(1)
proof (induction k arbitrary: i s)
  case (Suc k)
  show ?case
  proof (cases "p_ofile (procs s p) i")
    case None
    then show ?thesis using Suc.IH [of "Suc i" s] Suc.prems by (simp add: fds_copied_simps fd_refs_simps)
  next
    case (Some f)
    define s1 where "s1 = upd_proc np (\<lambda>x. x\<lparr>p_ofile := (p_ofile x)(i := Some f)\<rparr>) (upd_file f (\<lambda>x. x\<lparr>f_ref := f_ref x + 1\<rparr>) s)"
    have "fork_files p np (Suc i) k s1 = Ok s'"
      using Suc.prems Some by (auto simp: s1_def filedup_def outcome_simps split: if_splits)
    note IH = Suc.IH [OF this]
    have r1: "nofiles s1 = nofiles s" and q1: "procs s1 = (procs s)(np := (procs s np)\<lparr>p_ofile := (p_ofile (procs s np))(i := Some f)\<rparr>)"
      and f1: "ftable s1 = (ftable s)(f := (ftable s f)\<lparr>f_ref := f_ref (ftable s f) + 1\<rparr>)"
      by (simp_all add: s1_def upd_file_def upd_proc_def nofiles_def fstate.defs)
    have "procs s' q = ((procs s)(np := (procs s np)\<lparr>p_ofile := fds_copied i (Suc k) (p_ofile (procs s p)) (p_ofile (procs s np))\<rparr>)) q" for q
      using IH Some assms(2) fds_copied_simps(3) [of "p_ofile (procs s p)" i f k] by (simp add: q1 fun_upd_def)
    then show ?thesis
      using IH Some assms(2) by (auto simp: fd_refs_simps r1 q1 f1)
  qed
qed (simp add: fds_copied_simps fd_refs_simps)

lemma allocproc_None:
  assumes "allocproc sy s = Ok (None, s')"
  shows "krest s' = krest s \<and> (\<forall>q. p_state (procs s' q) = p_state (procs s q) \<and> p_ofile (procs s' q) = p_ofile (procs s q))"
proof (cases "first_from (\<lambda>p. p_state (procs s p) = UNUSED) 0 NPROC")
  case None
  then show ?thesis using assms by (simp add: allocproc_def)
next
  case (Some p)
  let ?s2 = "upd_proc p (\<lambda>x. x\<lparr>p_pid := nextpid s\<rparr>) (s\<lparr>nextpid := nextpid s + 1\<rparr>)"
  obtain tf s3 where k: "kalloc_k ?s2 = (tf, s3)" by (cases "kalloc_k ?s2")
  then obtain ph where s3: "s3 = ?s2\<lparr>kphys := ph\<rparr>" by (auto simp: kalloc_k_def split: prod.splits)
  let ?s4 = "upd_proc p (\<lambda>x. x\<lparr>p_trapframe := tf\<rparr>) s3"
  have un: "p_state (procs s p) = UNUSED" using first_from_0_SomeD [OF Some] by simp
  show ?thesis
  proof (cases "tf = 0")
    case True
    then show ?thesis using assms Some k s3 by (auto simp: allocproc_def allocpid_def Let_def upd_proc_def)
  next
    case False
    then obtain pt s5 where pt: "vm_get (proc_pagetable sy tf) ?s4 = Ok (pt, s5)" and eq:
      "(if pt = 0 then obind (freeproc sy p (upd_proc p (\<lambda>x. x\<lparr>p_pagetable := pt\<rparr>) s5)) (\<lambda>s7. Ok (None, s7))
        else Ok (Some p, upd_proc p (\<lambda>x. x\<lparr>p_context := new_context (sy_forkret sy) (p_kstack x + PGSIZE)\<rparr>)
          (upd_proc p (\<lambda>x. x\<lparr>p_pagetable := pt\<rparr>) s5))) = Ok (None, s')"
      using assms Some k by (auto simp: allocproc_def allocpid_def Let_def outcome_simps)
    then have fp: "freeproc sy p (upd_proc p (\<lambda>x. x\<lparr>p_pagetable := pt\<rparr>) s5) = Ok s'" by (auto simp: outcome_simps split: if_splits)
    obtain ph' where s5: "s5 = ?s4\<lparr>kphys := ph'\<rparr>" using pt by (auto simp: vm_get_def outcome_simps)
    show ?thesis using freeproc_spec [OF fp] s5 s3 un by (auto simp: freed_def upd_proc_def)
  qed
qed

text \<open>\<open>unused_ok\<close>: unused slots have no open files, as \<open>exit\<close> leaves them.\<close>

definition unused_ok :: "kstate \<Rightarrow> bool" where
  "unused_ok s \<longleftrightarrow> (\<forall>p. p_state (procs s p) = UNUSED \<longrightarrow> p_ofile (procs s p) = (\<lambda>_. None))"

text \<open>The state after a successful \<open>fork\<close>.\<close>

definition forked :: "nat \<Rightarrow> nat \<Rightarrow> int \<Rightarrow> kstate \<Rightarrow> kstate \<Rightarrow> bool" where
  "forked p np pid s s' \<longleftrightarrow> np < NPROC \<and> np \<noteq> p \<and> p_state (procs s np) = UNUSED \<and>
     pid = nextpid s \<and> nextpid s' = nextpid s + 1 \<and>
     p_pid (procs s' np) = pid \<and> p_state (procs s' np) = RUNNABLE \<and> p_parent (procs s' np) = Some p \<and>
     p_sz (procs s' np) = p_sz (procs s p) \<and>
     (\<forall>i. p_ofile (procs s' np) i = (if i < NOFILE then p_ofile (procs s p) i else None)) \<and>
     tframes s' (p_trapframe (procs s' np)) = (tframes s (p_trapframe (procs s p)))\<lparr>tf_a0 := 0\<rparr> \<and>
     p_cwd (procs s' np) = p_cwd (procs s p) \<and>
     (\<forall>q. q \<noteq> np \<longrightarrow> procs s' q = procs s q) \<and>
     (\<forall>f. ftable s' f = (ftable s f)\<lparr>f_ref := f_ref (ftable s f) + int (fd_refs (p_ofile (procs s p)) 0 NOFILE f)\<rparr>) \<and>
     (\<forall>i. inodes s' i = (inodes s i)\<lparr>i_ref := i_ref (inodes s i) + (if p_cwd (procs s p) = Some i then 1 else 0)\<rparr>)"

lemma fork_success:
  assumes "fork sy p s = Ok (pid, s')" and "pid \<noteq> -1" and "p_state (procs s p) \<noteq> UNUSED" and "unused_ok s"
  shows "\<exists>np. forked p np pid s s'"
proof -
  from assms(1,2) obtain np s1 where a: "allocproc sy s = Ok (Some np, s1)"
    by (auto simp: fork_def outcome_simps split: option.splits)
  note A = allocproc_Some [OF a]
  then obtain tf pt where P1: "procs s1 = (procs s)(np := (procs s np)\<lparr>p_pid := nextpid s, p_trapframe := tf,
       p_pagetable := pt, p_context := new_context (sy_forkret sy) (p_kstack (procs s np) + PGSIZE)\<rparr>)" by blast
  have ne: "np \<noteq> p" using A assms(3) by auto
  have ao: "r = Some np \<and> t = s1" if "allocproc sy s = Ok (r, t)" for r t using that a by simp
  obtain c s2 where c: "vm_get (uvmcopy (sy_end sy) (p_pagetable (procs s1 p))
      (p_pagetable (procs s1 np)) (p_sz (procs s1 p))) s1 = Ok (c, s2)"
    using assms(1) a by (auto simp: fork_def outcome_simps)
  then obtain ph where s2: "s2 = s1\<lparr>kphys := ph\<rparr>" by (auto simp: vm_get_def outcome_simps)
  have c0: "\<not> c < 0" using assms(1,2) a c by (auto simp: fork_def outcome_simps)
  let ?s3 = "upd_proc np (\<lambda>x. x\<lparr>p_sz := p_sz (procs s2 p), p_parent := Some p\<rparr>) s2"
  let ?s4 = "upd_tf np (\<lambda>_. (tframes ?s3 (p_trapframe (procs ?s3 p)))\<lparr>tf_a0 := 0\<rparr>) ?s3"
  obtain s5 where f: "fork_files p np 0 NOFILE ?s4 = Ok s5"
    using assms(1) a c c0 by (auto simp: fork_def outcome_simps Let_def simp del: procs_upd_proc)
  note F = fork_files_spec [OF f ne [symmetric]]
  have P4: "procs ?s4 = (procs s1)(np := (procs s1 np)\<lparr>p_sz := p_sz (procs s p), p_parent := Some p\<rparr>)"
    using s2 ne P1 by (simp add: upd_tf_def Let_def)
  obtain cwd where cwd: "p_cwd (procs s5 p) = Some cwd"
    using assms(1) a c c0 f by (auto simp: fork_def outcome_simps Let_def simp del: procs_upd_proc split: option.splits)
  have s': "pid = p_pid (procs s5 np)" "procs s' = (procs s5)(np := (procs s5 np)\<lparr>p_cwd := Some cwd,
      p_name := safestr (takeWhile (\<lambda>c. c \<noteq> 0) (p_name (procs s5 p))) 16 (p_name (procs s5 np)), p_state := RUNNABLE\<rparr>)"
    "ftable s' = ftable s5" "tframes s' = tframes s5" "nextpid s' = nextpid s5"
    "inodes s' = (inodes s5)(cwd := (inodes s5 cwd)\<lparr>i_ref := i_ref (inodes s5 cwd) + 1\<rparr>)"
  proof -
    have "(pid, s') = (let (cwd', s6) = idup cwd s5;
        s7 = upd_proc np (\<lambda>x. x\<lparr>p_cwd := Some cwd',
          p_name := safestr (takeWhile (\<lambda>c. c \<noteq> 0) (p_name (procs s6 p))) 16 (p_name x)\<rparr>) s6
      in (p_pid (procs s7 np), upd_proc np (\<lambda>x. x\<lparr>p_state := RUNNABLE\<rparr>) s7))"
      using assms(1) a c c0 f cwd by (auto simp: fork_def outcome_simps Let_def idup_def simp del: procs_upd_proc)
    then show "pid = p_pid (procs s5 np)" "procs s' = (procs s5)(np := (procs s5 np)\<lparr>p_cwd := Some cwd,
      p_name := safestr (takeWhile (\<lambda>c. c \<noteq> 0) (p_name (procs s5 p))) 16 (p_name (procs s5 np)), p_state := RUNNABLE\<rparr>)"
    "ftable s' = ftable s5" "tframes s' = tframes s5" "nextpid s' = nextpid s5"
    "inodes s' = (inodes s5)(cwd := (inodes s5 cwd)\<lparr>i_ref := i_ref (inodes s5 cwd) + 1\<rparr>)"
      by (simp_all add: idup_def upd_ino_def upd_proc_def Let_def)
  qed
  have R: "ftable ?s4 = ftable s" "inodes ?s4 = inodes s" "nextpid ?s4 = nextpid s + 1"
    "tframes ?s4 = (tframes s)(tf := (tframes s (p_trapframe (procs s p)))\<lparr>tf_a0 := 0\<rparr>)"
    using A krestD [of s1 s] s2 P1 ne by (auto simp: upd_tf_def Let_def upd_proc_def)
  have N: "inodes s5 = inodes ?s4" "tframes s5 = tframes ?s4" "nextpid s5 = nextpid ?s4"
    using F by (auto simp: nofiles_def fstate.defs)
  have of0: "p_ofile (procs s np) = (\<lambda>_. None)" using assms(4) A by (auto simp: unused_ok_def)
  have "forked p np pid s s'"
    unfolding forked_def
    using A ne s' F P4 P1 R N cwd of0 by (auto simp: fds_copied_def)
  then show ?thesis ..
qed

lemma fork_failure:
  assumes "fork sy p s = Ok (-1, s')" and "p_state (procs s p) \<noteq> UNUSED" and "unused_ok s" and "nextpid s > 0"
  shows "(\<forall>q. p_state (procs s' q) = p_state (procs s q)) \<and> ftable s' = ftable s \<and> inodes s' = inodes s"
proof -
  obtain r s1 where a: "allocproc sy s = Ok (r, s1)" using assms(1) by (auto simp: fork_def outcome_simps)
  show ?thesis
  proof (cases r)
    case None
    then show ?thesis using assms(1) a allocproc_None [of sy s s1] krestD [of s1 s] by (auto simp: fork_def)
  next
    case (Some np)
    note A = allocproc_Some [OF a [unfolded Some]]
    obtain c s2 where c: "vm_get (uvmcopy (sy_end sy) (p_pagetable (procs s1 p))
        (p_pagetable (procs s1 np)) (p_sz (procs s1 p))) s1 = Ok (c, s2)"
      using assms(1) a Some by (auto simp: fork_def outcome_simps)
    then obtain ph where s2: "s2 = s1\<lparr>kphys := ph\<rparr>" by (auto simp: vm_get_def outcome_simps)
    show ?thesis
    proof (cases "c < 0")
      case True
      then have fp: "freeproc sy np s2 = Ok s'" using assms(1) a c Some by (auto simp: fork_def outcome_simps)
      have "krest s' = krest s" using freeproc_spec [OF fp] s2 A by simp
      moreover have "p_state (procs s' q) = p_state (procs s q)" for q
        using freeproc_spec [OF fp] s2 A by (auto simp: freed_def)
      ultimately show ?thesis using krestD by blast
    next
      case False
      let ?s3 = "upd_proc np (\<lambda>x. x\<lparr>p_sz := p_sz (procs s2 p), p_parent := Some p\<rparr>) s2"
      let ?s4 = "upd_tf np (\<lambda>_. (tframes ?s3 (p_trapframe (procs ?s3 p)))\<lparr>tf_a0 := 0\<rparr>) ?s3"
      have ne: "np \<noteq> p" using A assms(2) by auto
      obtain s5 where f: "fork_files p np 0 NOFILE ?s4 = Ok s5"
        using assms(1) a c False Some by (auto simp: fork_def outcome_simps Let_def simp del: procs_upd_proc)
      have "p_pid (procs s5 np) = nextpid s"
        using fork_files_spec [OF f ne [symmetric]] s2 A by (auto simp: upd_tf_def Let_def)
      then have "nextpid s = -1"
        using assms(1) a c False Some f
        by (auto simp: fork_def outcome_simps Let_def idup_def upd_ino_def upd_proc_def split: option.splits)
      then show ?thesis using assms(4) by simp
    qed
  qed
qed

text \<open>
  C17: \<open>fork\<close> either returns -1 and leaves every process state, file and inode reference as it was,
  or takes an unused slot and makes it a runnable child with the next pid, the parent's size,
  registers (but \<open>a0\<close> zero) and directory, and its descriptors: each file's count grows by
  exactly the number of descriptors that refer to it and the directory's by one. No other process
  is touched.
\<close>

theorem fork_creates_child:
  assumes "fork sy p s = Ok (pid, s')" and "p_state (procs s p) \<noteq> UNUSED" and "unused_ok s" and "nextpid s > 0"
  shows "if pid = -1
    then (\<forall>q. p_state (procs s' q) = p_state (procs s q)) \<and> ftable s' = ftable s \<and> inodes s' = inodes s
    else \<exists>np. forked p np pid s s'"
  using fork_success [OF assms(1) _ assms(2,3)] fork_failure [of sy p s s'] assms by auto

text \<open>A kernel with one running process.\<close>

definition one_proc_k :: kstate where
  "one_proc_k = upd_proc 0 (\<lambda>x. x\<lparr>p_state := RUNNING, p_pid := 1, p_cwd := Some 0\<rparr>) (empty_k\<lparr>nextpid := 2\<rparr>)"

definition example_syms :: syms where
  "example_syms = \<lparr>sy_end = 0x80020000, sy_trampoline = 0x80007000, sy_uservec = 0x80007000, sy_userret = 0x80007090,
     sy_usertrap = 0x80002a00, sy_kernelvec = 0x80005b00, sy_forkret = 0x80001a00, sy_initcode = 0x80008900\<rparr>"

theorem fork_creates_child_witness:
  "\<exists>s'. fork example_syms 0 one_proc_k = Ok (-1, s') \<and>
     (\<forall>q. p_state (procs s' q) = p_state (procs one_proc_k q)) \<and> ftable s' = ftable one_proc_k \<and> inodes s' = inodes one_proc_k"
proof -
  have "first_from (\<lambda>p. p_state (procs one_proc_k p) = UNUSED) 0 NPROC = Some 1"
    by (auto simp: first_from_Some_iff one_proc_k_def NPROC_def empty_proc_def)
  then obtain s1 where "allocproc example_syms one_proc_k = Ok (None, s1)"
    by (simp add: allocproc_def allocpid_def Let_def kalloc_k_def kalloc_def one_proc_k_def upd_proc_def)
  then have f: "fork example_syms 0 one_proc_k = Ok (-1, s1)" by (simp add: fork_def)
  have "unused_ok one_proc_k" by (auto simp: unused_ok_def one_proc_k_def empty_proc_def)
  with fork_creates_child [OF f] f show ?thesis by (auto simp: one_proc_k_def upd_proc_def)
qed

end
