(* ===== verification/Proc_Exit.thy ===== *)
theory Proc_Exit
  imports Proc_Life
begin

text \<open>
  The end of a process: what \<open>exit\<close> leaves behind, that its parent gets to know in \<open>wait\<close>, and what
  \<open>kill\<close> does.
\<close>

section \<open>Wakeups\<close>

text \<open>\<open>awake s s'\<close>: the process tables differ at most in that some sleeping processes are runnable.\<close>

definition awake :: "kstate \<Rightarrow> kstate \<Rightarrow> bool" where
  "awake s s' \<longleftrightarrow> (\<forall>q. procs s' q = procs s q \<or>
     p_state (procs s q) = SLEEPING \<and> procs s' q = (procs s q)\<lparr>p_state := RUNNABLE\<rparr>)"

lemma awake_same: "procs s' = procs s \<Longrightarrow> awake s s'"
  by (simp add: awake_def)

lemma awakeD:
  assumes "awake s s'"
  shows "p_parent (procs s' q) = p_parent (procs s q)" "p_chan (procs s' q) = p_chan (procs s q)"
    "p_ofile (procs s' q) = p_ofile (procs s q)" "p_cwd (procs s' q) = p_cwd (procs s q)"
    "p_pid (procs s' q) = p_pid (procs s q)" "p_killed (procs s' q) = p_killed (procs s q)"
    "p_state (procs s q) = UNUSED \<longleftrightarrow> p_state (procs s' q) = UNUSED"
    "p_state (procs s' q) = SLEEPING \<Longrightarrow> p_state (procs s q) = SLEEPING"
  using assms [unfolded awake_def, rule_format, of q] by auto

lemma wakeup_loop_apply:
  "procs (wakeup_loop ch p k s) q = (if p \<le> q \<and> q < p + k \<and> p_state (procs s q) = SLEEPING \<and> p_chan (procs s q) = Some ch
     then (procs s q)\<lparr>p_state := RUNNABLE\<rparr> else procs s q)"
  by (induction k arbitrary: p s) auto

lemma wakeup_apply:
  "procs (wakeup ch s) q = (if q < NPROC \<and> p_state (procs s q) = SLEEPING \<and> p_chan (procs s q) = Some ch
     then (procs s q)\<lparr>p_state := RUNNABLE\<rparr> else procs s q)"
  by (simp add: wakeup_def wakeup_loop_apply)

lemma awake_wakeup: "awake s (wakeup ch s)"
  by (simp add: awake_def wakeup_apply)

lemma wakeup_loop_rest: "initproc (wakeup_loop ch p k s) = initproc s"
  by (induction k arbitrary: p s) (simp_all add: upd_proc_def)

lemma kernel_rest: "fstate.more s' = fstate.more (s :: kstate) \<Longrightarrow> initproc s' = initproc s"
  by (cases s; cases s'; simp)

lemma pipeclose_awake:
  assumes "pipeclose sy pi w s = Ok s'"
  shows "awake s s' \<and> initproc s' = initproc s"
proof -
  obtain ch g s1 where s1: "s1 = wakeup ch (upd_pipe pi g s)" and
    r: "(if \<not> readopen (pipes s1 pi) \<and> \<not> writeopen (pipes s1 pi) then vm_do (kfree (sy_end sy) pi) s1 else Ok s1) = Ok s'"
    using assms by (cases w) (simp_all add: pipeclose_def Let_def)
  obtain ph where "s' = s1\<lparr>kphys := ph\<rparr>" using vm_do_if [OF r] by blast
  then show ?thesis
    using s1 by (simp add: awake_def wakeup_apply) (simp add: upd_pipe_def wakeup_def wakeup_loop_rest)
qed

lemma iput_op_rest:
  assumes "begin_op s = Ok s1" and "iput me ip s1 = Ok s2" and "end_op me s2 = Ok (s3 :: kstate)"
  shows "procs s3 = procs s" "initproc s3 = initproc s"
proof -
  have "fstate.more s3 = fstate.more s2" "fstate.more s1 = fstate.more s"
    using assms(1,3) by (auto dest!: fs_frame fsrest_eqD)
  moreover have "fstate.more s2 = fstate.more s1"
    using irest_eqD(5) [OF iput_ref [OF assms(2)]] by (simp add: upd_ino_def)
  ultimately have "fstate.more s3 = fstate.more s" by simp
  then show "procs s3 = procs s" "initproc s3 = initproc s" by (auto intro: more_kstate kernel_rest)
qed

lemma if_panic_E: "(if c then Panic e else m) = Ok x \<Longrightarrow> m = Ok x"
  by (simp split: if_splits)

lemma fileclose_awake:
  assumes "fileclose sy me f s = Ok s'"
  shows "awake s s' \<and> initproc s' = initproc s"
proof -
  let ?s1 = "upd_file f (\<lambda>x. x\<lparr>f_ref := f_ref x - 1\<rparr>) s"
  let ?s2 = "upd_file f (\<lambda>x. x\<lparr>f_ref := 0, f_type := FD_NONE\<rparr>) ?s1"
  have p: "procs ?s1 = procs s" "procs ?s2 = procs s" "initproc ?s1 = initproc s" "initproc ?s2 = initproc s"
    by (simp_all add: upd_file_def)
  have eq: "(if f_ref (ftable ?s1 f) > 0 then Ok ?s1
      else if f_type (ftable ?s1 f) = FD_PIPE then pipeclose sy (f_pipe (ftable ?s1 f)) (f_writable (ftable ?s1 f)) ?s2
      else if f_type (ftable ?s1 f) = FD_INODE \<or> f_type (ftable ?s1 f) = FD_DEVICE then
        obind (begin_op ?s2) (\<lambda>s3. obind (iput me (f_ip (ftable ?s1 f)) s3) (\<lambda>s4. end_op me s4))
      else Ok ?s2) = Ok s'"
    using assms unfolding fileclose_def Let_def by (rule if_panic_E)
  show ?thesis
  proof (cases "f_ref (ftable ?s1 f) > 0")
    case True
    then have "s' = ?s1" using eq by simp
    then show ?thesis using p by (simp add: awake_def)
  next
    case nz: False
    show ?thesis
    proof (cases "f_type (ftable ?s1 f) = FD_PIPE")
      case True
      then have "pipeclose sy (f_pipe (ftable ?s1 f)) (f_writable (ftable ?s1 f)) ?s2 = Ok s'" using eq nz by simp
      from pipeclose_awake [OF this] show ?thesis unfolding awake_def p .
    next
      case np: False
      show ?thesis
      proof (cases "f_type (ftable ?s1 f) = FD_INODE \<or> f_type (ftable ?s1 f) = FD_DEVICE")
        case True
        then obtain s3 s4 where "begin_op ?s2 = Ok s3" "iput me (f_ip (ftable ?s1 f)) s3 = Ok s4" "end_op me s4 = Ok s'"
          using eq nz np by (auto simp: outcome_simps)
        from iput_op_rest [OF this] show ?thesis using p by (simp add: awake_def)
      next
        case False
        then have "s' = ?s2" using eq nz np by simp
        then show ?thesis using p by (simp add: awake_def)
      qed
    qed
  qed
qed

section \<open>exit\<close>

lemma exit_files_spec:
  "exit_files sy me p fd k s = Ok s' \<Longrightarrow> initproc s' = initproc s \<and>
    (\<forall>q. q \<noteq> p \<longrightarrow> procs s' q = procs s q \<or> p_state (procs s q) = SLEEPING \<and> procs s' q = (procs s q)\<lparr>p_state := RUNNABLE\<rparr>) \<and>
    (\<forall>j. p_ofile (procs s' p) j = (if fd \<le> j \<and> j < fd + k then None else p_ofile (procs s p) j)) \<and>
    p_parent (procs s' p) = p_parent (procs s p) \<and> p_cwd (procs s' p) = p_cwd (procs s p) \<and> p_pid (procs s' p) = p_pid (procs s p)"
proof (induction k arbitrary: fd s)
  case (Suc k)
  show ?case
  proof (cases "p_ofile (procs s p) fd")
    case None
    then show ?thesis using Suc.IH [of "Suc fd" s] Suc.prems by (auto simp: Suc_le_eq le_less)
  next
    case (Some f)
    then obtain s1 where c: "fileclose sy me f s = Ok s1" and
      e: "exit_files sy me p (Suc fd) k (upd_proc p (\<lambda>x. x\<lparr>p_ofile := (p_ofile x)(fd := None)\<rparr>) s1) = Ok s'"
      using Suc.prems by (auto simp: outcome_simps)
    note a = fileclose_awake [OF c]
    have 1: "procs s1 q = procs s q \<or> p_state (procs s q) = SLEEPING \<and> procs s1 q = (procs s q)\<lparr>p_state := RUNNABLE\<rparr>" for q
      using a by (auto simp: awake_def)
    have i: "initproc (upd_proc p h s1) = initproc s1" for h by (simp add: upd_proc_def)
    note IH = Suc.IH [OF e]
    have "procs s' q = procs s q \<or> p_state (procs s q) = SLEEPING \<and> procs s' q = (procs s q)\<lparr>p_state := RUNNABLE\<rparr>" if "q \<noteq> p" for q
      using conjunct1 [OF conjunct2 [OF IH], rule_format, OF that] 1 [of q] that by auto
    moreover have "p_ofile (procs s' p) j = (if fd \<le> j \<and> j < fd + Suc k then None else p_ofile (procs s p) j)" for j
      using IH awakeD(3) [of s s1 p] a by (auto simp: Suc_le_eq le_less)
    ultimately show ?thesis using IH i a awakeD [of s s1 p] by auto
  qed
qed auto

lemma reparent_loop_apply:
  "procs (reparent_loop p pp k s) q = (if pp \<le> q \<and> q < pp + k \<and> p_parent (procs s q) = Some p
     then (procs s q)\<lparr>p_parent := Some (initproc s)\<rparr> else procs s q) \<and> initproc (reparent_loop p pp k s) = initproc s"
proof (induction k arbitrary: pp s)
  case (Suc k)
  let ?s1 = "if p_parent (procs s pp) = Some p then upd_proc pp (\<lambda>x. x\<lparr>p_parent := Some (initproc s)\<rparr>) s else s"
  have "initproc ?s1 = initproc s" by (simp add: upd_proc_def)
  then show ?case using Suc [of "Suc pp" ?s1] by (auto simp: Suc_le_eq le_less)
qed auto

lemma reparent_apply:
  "procs (reparent p s) q = (if q < NPROC \<and> p_parent (procs s q) = Some p
     then (procs s q)\<lparr>p_parent := Some (initproc s)\<rparr> else procs s q)"
  by (simp add: reparent_def reparent_loop_apply)

lemma exit_steps:
  assumes "exit sy me p status s = Ok s'"
  obtains s1 s5 s6 s7 q where "p \<noteq> initproc s" "exit_files sy me p 0 NOFILE s = Ok s1"
    "procs s5 = (procs s1)(p := (procs s1 p)\<lparr>p_cwd := None\<rparr>)" "initproc s5 = initproc s1"
    "wakeup1 True (initproc s5) s5 = Ok s6" "p_parent (procs s6 p) = Some q"
    "wakeup1 True q (reparent p s6) = Ok s7" "s' = upd_proc p (\<lambda>x. x\<lparr>p_xstate := status, p_state := ZOMBIE\<rparr>) s7"
proof -
  from assms obtain s1 s2 s3 s4 where 1: "p \<noteq> initproc s" "exit_files sy me p 0 NOFILE s = Ok s1" "begin_op s1 = Ok s2"
    "(case p_cwd (procs s2 p) of None \<Rightarrow> Panic ''kerneltrap'' | Some cwd \<Rightarrow> iput me cwd s2) = Ok s3" "end_op me s3 = Ok s4"
    by (auto simp: exit_def outcome_simps split: if_splits)
  let ?s5 = "upd_proc p (\<lambda>x. x\<lparr>p_cwd := None\<rparr>) s4"
  from assms 1 obtain s6 where 6: "wakeup1 True (initproc ?s5) ?s5 = Ok s6" and
    r: "(case p_parent (procs s6 p) of None \<Rightarrow> Panic ''kerneltrap''
       | Some original_parent \<Rightarrow> obind (wakeup1 True original_parent (reparent p s6)) (\<lambda>s7.
           Ok (upd_proc p (\<lambda>x. x\<lparr>p_xstate := status, p_state := ZOMBIE\<rparr>) s7))) = Ok s'"
    by (auto simp: exit_def outcome_simps Let_def simp del: procs_upd_proc)
  from r obtain q where q: "p_parent (procs s6 p) = Some q" by (auto split: option.splits)
  with r obtain s7 where 7: "wakeup1 True q (reparent p s6) = Ok s7"
    "s' = upd_proc p (\<lambda>x. x\<lparr>p_xstate := status, p_state := ZOMBIE\<rparr>) s7" by (auto simp: outcome_simps)
  obtain cwd where "iput me cwd s2 = Ok s3" using 1(4) by (auto split: option.splits)
  from iput_op_rest [OF 1(3) this 1(5)] have "procs s4 = procs s1" "initproc s4 = initproc s1" .
  then show ?thesis using that [OF 1(1,2) _ _ 6 q 7] by (simp add: upd_proc_def)
qed

lemma wakeup1_ok: "\<exists>s'. wakeup1 True p s = Ok s'"
  by (simp add: wakeup1_def)

lemma wakeup1_apply:
  assumes "wakeup1 True p s = Ok s'"
  shows "procs s' = (procs s)(p := (if p_chan (procs s p) = Some (ProcCh p) \<and> p_state (procs s p) = SLEEPING
    then (procs s p)\<lparr>p_state := RUNNABLE\<rparr> else procs s p)) \<and> initproc s' = initproc s"
  using assms by (auto simp: wakeup1_def upd_proc_def split: if_splits)

text \<open>The table after \<open>exit\<close>, entry by entry.\<close>

lemma exit_procs:
  assumes "exit sy me p status s = Ok s'"
  shows "p \<noteq> initproc s \<and> p_state (procs s' p) = ZOMBIE \<and> p_xstate (procs s' p) = status \<and>
    p_pid (procs s' p) = p_pid (procs s p) \<and> (\<forall>j<NOFILE. p_ofile (procs s' p) j = None) \<and> p_cwd (procs s' p) = None \<and>
    (\<forall>r. p_parent (procs s' r) = (if r < NPROC \<and> p_parent (procs s r) = Some p then Some (initproc s) else p_parent (procs s r))) \<and>
    (\<forall>r. r \<noteq> p \<longrightarrow> p_state (procs s' r) = p_state (procs s r) \<or> p_state (procs s r) = SLEEPING \<and> p_state (procs s' r) = RUNNABLE) \<and>
    (\<exists>q. p_parent (procs s p) = Some q \<and>
      (q \<noteq> p \<longrightarrow> \<not> (p_state (procs s' q) = SLEEPING \<and> p_chan (procs s' q) = Some (ProcCh q))))"
proof -
  obtain s1 s5 s6 s7 q where 1: "p \<noteq> initproc s" "exit_files sy me p 0 NOFILE s = Ok s1"
    and 5: "procs s5 = (procs s1)(p := (procs s1 p)\<lparr>p_cwd := None\<rparr>)" "initproc s5 = initproc s1"
    and 6: "wakeup1 True (initproc s5) s5 = Ok s6" and q: "p_parent (procs s6 p) = Some q"
    and 7: "wakeup1 True q (reparent p s6) = Ok s7" and s': "s' = upd_proc p (\<lambda>x. x\<lparr>p_xstate := status, p_state := ZOMBIE\<rparr>) s7"
    using exit_steps [OF assms] by metis
  note E = exit_files_spec [OF 1(2)] and W6 = wakeup1_apply [OF 6] and W7 = wakeup1_apply [OF 7]
  have i6: "initproc s6 = initproc s" using W6 5(2) E by simp
  have R: "procs (reparent p s6) r = (if r < NPROC \<and> p_parent (procs s6 r) = Some p
     then (procs s6 r)\<lparr>p_parent := Some (initproc s)\<rparr> else procs s6 r)" for r by (simp add: reparent_apply i6)
  have oth: "procs s1 r = procs s r \<or> p_state (procs s r) = SLEEPING \<and> procs s1 r = (procs s r)\<lparr>p_state := RUNNABLE\<rparr>" if "r \<noteq> p" for r
    using E that by blast
  have par1: "p_parent (procs s1 r) = p_parent (procs s r)" for r
    using E oth [of r] by (cases "r = p") auto
  have st1: "p_state (procs s1 r) = p_state (procs s r) \<or> p_state (procs s r) = SLEEPING \<and> p_state (procs s1 r) = RUNNABLE" if "r \<noteq> p" for r
    using oth [OF that] by auto
  have "p_parent (procs s6 p) = p_parent (procs s1 p)" using W6 5(1) by simp
  then have "p_parent (procs s p) = Some q" using q par1 by simp
  moreover have "\<not> (p_state (procs s' q) = SLEEPING \<and> p_chan (procs s' q) = Some (ProcCh q))" if "q \<noteq> p"
    using that s' W7 by (auto split: if_splits)
  moreover have "p_parent (procs s' r) = (if r < NPROC \<and> p_parent (procs s r) = Some p then Some (initproc s) else p_parent (procs s r))" for r
  proof -
    have 6: "p_parent (procs s6 r) = p_parent (procs s r)" using W6 5(1) by (simp add: par1)
    have "p_parent (procs s' r) = p_parent (procs (reparent p s6) r)" using s' W7 by simp
    then show ?thesis using R [of r] 6 by simp
  qed
  moreover have "p_state (procs s' r) = p_state (procs s r) \<or> p_state (procs s r) = SLEEPING \<and> p_state (procs s' r) = RUNNABLE" if "r \<noteq> p" for r
  proof -
    have 6: "p_state (procs s6 r) = p_state (procs s r) \<or> p_state (procs s r) = SLEEPING \<and> p_state (procs s6 r) = RUNNABLE"
      using W6 5(1) st1 [OF that] that by auto
    have "p_state (procs (reparent p s6) r) = p_state (procs s6 r)" using R [of r] by simp
    then show ?thesis using s' W7 that 6 by auto
  qed
  moreover have sp: "p_ofile (procs s' p) = p_ofile (procs s1 p)" "p_cwd (procs s' p) = None" "p_pid (procs s' p) = p_pid (procs s p)"
  proof -
    have "p_ofile (procs s6 p) = p_ofile (procs s1 p)" "p_cwd (procs s6 p) = None" "p_pid (procs s6 p) = p_pid (procs s1 p)"
      using W6 5(1) by auto
    moreover have "p_ofile (procs s' p) = p_ofile (procs (reparent p s6) p)" "p_cwd (procs s' p) = p_cwd (procs (reparent p s6) p)"
      "p_pid (procs s' p) = p_pid (procs (reparent p s6) p)" using s' W7 by auto
    ultimately show "p_ofile (procs s' p) = p_ofile (procs s1 p)" "p_cwd (procs s' p) = None" "p_pid (procs s' p) = p_pid (procs s p)"
      using R [of p] E by auto
  qed
  moreover have "p_ofile (procs s' p) j = None" if "j < NOFILE" for j using E sp(1) that by simp
  ultimately show ?thesis using s' 1(1) by auto
qed

section \<open>wait\<close>

text \<open>What \<open>wait\<close> does for the address of the status: whether it could be stored, and the state after it.\<close>

definition store_status :: "nat \<Rightarrow> u64 \<Rightarrow> int \<Rightarrow> kstate \<Rightarrow> bool \<times> kstate" where
  "store_status q addr xstate s = (if addr = 0 then (True, s) else copyout_k q addr (bytes32 (of_int xstate)) s)"

lemma store_status_procs: "procs (snd (store_status q addr x s)) = procs s"
  by (auto simp: store_status_def copyout_k_def Let_def split: prod.splits)

lemma wait_scan_finds:
  assumes "first_from (\<lambda>z. p_parent (procs s z) = Some p \<and> p_state (procs s z) = ZOMBIE) np k = Some z"
  shows "wait_scan sy p addr np k h s = (let (ok, s1) = store_status p addr (p_xstate (procs s z)) s
      in if ok then obind (freeproc sy z s1) (\<lambda>s2. Ok (Inl (p_pid (procs s z)), s2)) else Ok (Inl (-1), s1))"
  using assms
proof (induction k arbitrary: np h)
  case (Suc k)
  show ?case
  proof (cases "p_parent (procs s np) = Some p \<and> p_state (procs s np) = ZOMBIE")
    case True
    then show ?thesis using Suc.prems by (simp add: store_status_def split: prod.splits)
  next
    case False
    then have "first_from (\<lambda>z. p_parent (procs s z) = Some p \<and> p_state (procs s z) = ZOMBIE) (Suc np) k = Some z"
      using Suc.prems by (simp only: first_from.simps if_False)
    from Suc.IH [OF this] False show ?thesis by auto
  qed
qed simp

lemma wait_finds:
  assumes "z0 < NPROC" and "p_parent (procs s z0) = Some q" and "p_state (procs s z0) = ZOMBIE"
  obtains z where "z < NPROC" "p_parent (procs s z) = Some q" "p_state (procs s z) = ZOMBIE"
    "wait sy q addr s = (let (ok, s1) = store_status q addr (p_xstate (procs s z)) s
      in if ok then obind (freeproc sy z s1) (\<lambda>s2. Ok (Returns (p_pid (procs s z)), s2)) else Ok (Returns (-1), s1))"
proof -
  let ?P = "\<lambda>z. p_parent (procs s z) = Some q \<and> p_state (procs s z) = ZOMBIE"
  obtain z where z: "first_from ?P 0 NPROC = Some z"
    using assms first_from_None_iff [of ?P 0 NPROC] by (cases "first_from ?P 0 NPROC") auto
  obtain ok s1 where st: "store_status q addr (p_xstate (procs s z)) s = (ok, s1)" by fastforce
  have "wait sy q addr s = (if ok then obind (freeproc sy z s1) (\<lambda>s2. Ok (Returns (p_pid (procs s z)), s2)) else Ok (Returns (-1), s1))"
    unfolding wait_def wait_scan_finds [OF z] st by (cases "freeproc sy z s1") simp_all
  then show ?thesis using that [of z] first_from_0_SomeD [OF z] st by simp
qed

text \<open>
  C18: a process that exits becomes a zombie with its status, has no open files and no children
  left (they belong to init), and its parent is not asleep in \<open>wait\<close>. When the parent then calls
  \<open>wait\<close> it does not sleep but finds a dead child and stores its status at the address given, if one
  is. If storing faults it returns -1 and no slot changes; otherwise it frees the slot of that child,
  and unless freeing panics it returns the child's pid, the slot is unused and no other slot changes.
\<close>

theorem exit_wait_protocol:
  assumes "exit sy me p status s = Ok s'" and "p < NPROC" and "p_parent (procs s p) = Some q" and "q \<noteq> p"
  shows "p_state (procs s' p) = ZOMBIE \<and> p_xstate (procs s' p) = status \<and> (\<forall>j<NOFILE. p_ofile (procs s' p) j = None) \<and>
    (\<forall>r<NPROC. p_parent (procs s' r) \<noteq> Some p) \<and>
    \<not> (p_state (procs s' q) = SLEEPING \<and> p_chan (procs s' q) = Some (ProcCh q)) \<and>
    (\<forall>addr. \<exists>z<NPROC. p_parent (procs s' z) = Some q \<and> p_state (procs s' z) = ZOMBIE \<and>
      (let (ok, s1) = store_status q addr (p_xstate (procs s' z)) s' in
        procs s1 = procs s' \<and>
        (\<not> ok \<longrightarrow> wait sy q addr s' = Ok (Returns (-1), s1)) \<and>
        (ok \<longrightarrow> (case freeproc sy z s1 of
            Ok t \<Rightarrow> wait sy q addr s' = Ok (Returns (p_pid (procs s' z)), t) \<and> procs t = (procs s')(z := freed (procs s' z))
          | Blocked \<Rightarrow> wait sy q addr s' = Blocked
          | Panic e \<Rightarrow> wait sy q addr s' = Panic e))))"
proof -
  note E = exit_procs [OF assms(1)]
  have par: "p_parent (procs s' p) = Some q" using E assms(3,4) by auto
  have "\<exists>z<NPROC. p_parent (procs s' z) = Some q \<and> p_state (procs s' z) = ZOMBIE \<and>
      (let (ok, s1) = store_status q addr (p_xstate (procs s' z)) s' in
        procs s1 = procs s' \<and>
        (\<not> ok \<longrightarrow> wait sy q addr s' = Ok (Returns (-1), s1)) \<and>
        (ok \<longrightarrow> (case freeproc sy z s1 of
            Ok t \<Rightarrow> wait sy q addr s' = Ok (Returns (p_pid (procs s' z)), t) \<and> procs t = (procs s')(z := freed (procs s' z))
          | Blocked \<Rightarrow> wait sy q addr s' = Blocked
          | Panic e \<Rightarrow> wait sy q addr s' = Panic e)))" for addr
  proof -
    obtain z where z: "z < NPROC" "p_parent (procs s' z) = Some q" "p_state (procs s' z) = ZOMBIE"
      and w: "wait sy q addr s' = (let (ok, s1) = store_status q addr (p_xstate (procs s' z)) s'
        in if ok then obind (freeproc sy z s1) (\<lambda>s2. Ok (Returns (p_pid (procs s' z)), s2)) else Ok (Returns (-1), s1))"
      using wait_finds [OF assms(2) par, of sy addr] E by blast
    obtain ok s1 where st: "store_status q addr (p_xstate (procs s' z)) s' = (ok, s1)" by fastforce
    have "procs s1 = procs s'" using store_status_procs [of q addr "p_xstate (procs s' z)" s'] st by simp
    then show ?thesis using z w st freeproc_spec [of sy z s1]
      by (intro exI [of _ z]) (auto split: outcome.splits)
  qed
  then show ?thesis using E assms(2,3,4) by auto
qed

definition two_procs_k :: kstate where
  "two_procs_k = upd_ino 0 (\<lambda>x. x\<lparr>i_ref := 2\<rparr>)
     (upd_proc 1 (\<lambda>x. x\<lparr>p_state := RUNNING, p_pid := 2, p_parent := Some 0, p_cwd := Some 0\<rparr>)
     (upd_proc 0 (\<lambda>x. x\<lparr>p_state := SLEEPING, p_pid := 1, p_chan := Some (ProcCh 0), p_cwd := Some 0\<rparr>) empty_k))"

lemma exit_files_none: "(\<And>j. p_ofile (procs s p) j = None) \<Longrightarrow> exit_files sy me p fd k s = Ok s"
  by (induction k arbitrary: fd) simp_all

lemma two_procs_exit:
  "\<exists>s'. exit example_syms 2 1 7 two_procs_k = Ok s' \<and> p_trapframe (procs s' 1) = 0 \<and> p_pagetable (procs s' 1) = 0"
proof -
  have e: "exit_files example_syms 2 1 0 NOFILE two_procs_k = Ok two_procs_k"
    by (rule exit_files_none) (simp add: two_procs_k_def upd_ino_def upd_proc_def empty_proc_def)
  have b: "\<exists>s1 s2 s3. begin_op two_procs_k = Ok s1 \<and> iput 2 0 s1 = Ok s2 \<and> end_op 2 s2 = Ok s3"
    by (simp add: two_procs_k_def begin_op_def iput_def end_op_def commit_def upd_ino_def upd_proc_def Let_def
        empty_k_def empty_fs_def fstate.defs kstate.defs MAXOPBLOCKS_def LOGSIZE_def)
  then obtain s1 s2 s3 where st: "begin_op two_procs_k = Ok s1" "iput 2 0 s1 = Ok s2" "end_op 2 s2 = Ok s3" by blast
  have p: "procs s3 = procs two_procs_k" "initproc s3 = initproc two_procs_k" using iput_op_rest [OF st] .
  have "fstate.more s1 = fstate.more two_procs_k" using st(1) by (auto dest!: fs_frame fsrest_eqD)
  then have p1: "procs s1 = procs two_procs_k" by (rule more_kstate)
  have c: "p_cwd (procs two_procs_k 1) = Some 0" "p_parent (procs two_procs_k 1) = Some 0" "initproc two_procs_k = 0"
    "p_trapframe (procs two_procs_k 1) = 0" "p_pagetable (procs two_procs_k 1) = 0"
    by (simp_all add: two_procs_k_def upd_ino_def upd_proc_def empty_proc_def)
  obtain s6 where 6: "wakeup1 True 0 (upd_proc 1 (\<lambda>x. x\<lparr>p_cwd := None\<rparr>) s3) = Ok s6"
    using wakeup1_ok by blast
  have p6: "p_parent (procs s6 1) = Some 0" "p_trapframe (procs s6 1) = 0" "p_pagetable (procs s6 1) = 0"
    using wakeup1_apply [OF 6] p c by simp_all
  obtain s7 where 7: "wakeup1 True 0 (reparent 1 s6) = Ok s7" using wakeup1_ok by blast
  have "procs s7 1 = procs s6 1" using wakeup1_apply [OF 7] p6(1) by (simp add: reparent_apply)
  with p6 7 show ?thesis
    using e st p p1 c 6 by (auto simp: exit_def upd_proc_def [of _ _ s3])
qed

theorem exit_wait_protocol_witness:
  "\<exists>s' t. exit example_syms 2 1 7 two_procs_k = Ok s' \<and> p_state (procs s' 1) = ZOMBIE \<and> p_xstate (procs s' 1) = 7 \<and>
     \<not> (p_state (procs s' 0) = SLEEPING \<and> p_chan (procs s' 0) = Some (ProcCh 0)) \<and>
     wait example_syms 0 0 s' = Ok (Returns 2, t) \<and> p_state (procs t 1) = UNUSED"
proof -
  obtain s' where s': "exit example_syms 2 1 7 two_procs_k = Ok s'"
    and f: "p_trapframe (procs s' 1) = 0" "p_pagetable (procs s' 1) = 0" using two_procs_exit by blast
  have par: "p_parent (procs two_procs_k 1) = Some 0" by (simp add: two_procs_k_def upd_ino_def upd_proc_def)
  have kids: "p_parent (procs s' z) = Some 0 \<Longrightarrow> z = 1 \<and> p_pid (procs s' z) = 2" for z
    using exit_procs [OF s'] by (auto simp: two_procs_k_def upd_ino_def upd_proc_def empty_proc_def split: if_splits)
  have one: "1 < NPROC" by (simp add: NPROC_def)
  note P = exit_wait_protocol [OF s' one par zero_neq_one]
  have fr: "freeproc example_syms 1 s' = Ok (upd_proc 1 (\<lambda>x. x\<lparr>p_pagetable := 0, p_sz := 0, p_pid := 0, p_parent := None,
      p_name := (p_name x)[0 := 0], p_chan := None, p_killed := False, p_xstate := 0, p_state := UNUSED\<rparr>)
      (upd_proc 1 (\<lambda>x. x\<lparr>p_trapframe := 0\<rparr>) s'))"
    using f by (simp add: freeproc_def Let_def)
  obtain z where z: "p_parent (procs s' z) = Some 0" and
    w: "case freeproc example_syms z s' of
        Ok t \<Rightarrow> wait example_syms 0 0 s' = Ok (Returns (p_pid (procs s' z)), t) \<and> procs t = (procs s')(z := freed (procs s' z))
      | Blocked \<Rightarrow> wait example_syms 0 0 s' = Blocked
      | Panic e \<Rightarrow> wait example_syms 0 0 s' = Panic e"
    using P [THEN conjunct2, THEN conjunct2, THEN conjunct2, THEN conjunct2, THEN conjunct2, THEN spec [of _ 0]]
    by (auto simp: store_status_def)
  have "z = 1" "p_pid (procs s' z) = 2" using kids [OF z] by auto
  moreover from this have "freeproc example_syms z s' = freeproc example_syms 1 s'" by simp
  ultimately obtain t where "wait example_syms 0 0 s' = Ok (Returns 2, t)" "p_state (procs t 1) = UNUSED"
    using w fr by (simp add: freed_def)
  then show ?thesis using P s' by blast
qed

section \<open>kill\<close>

text \<open>
  C19: freed slots hold pid 0, so \<open>kill 0\<close> succeeds although no process has that pid, and marks an
  unused slot; \<open>allocproc\<close> hands that slot out with the mark still set, so that the next process
  created is born killed.
\<close>

theorem kill_zero_marks_free_slot:
  assumes "first_from (\<lambda>p. p_pid (procs s p) = 0) 0 NPROC = Some q"
    and "first_from (\<lambda>p. p_state (procs s p) = UNUSED) 0 NPROC = Some q"
  shows "kill 0 s = (0, upd_proc q (\<lambda>x. x\<lparr>p_killed := True\<rparr>) s) \<and>
    (\<forall>sy np s'. allocproc sy (snd (kill 0 s)) = Ok (Some np, s') \<longrightarrow> np = q \<and> p_killed (procs s' np))"
proof -
  have u: "p_state (procs s q) = UNUSED" using first_from_0_SomeD [OF assms(2)] by simp
  let ?f = "\<lambda>x. x\<lparr>p_killed := True, p_state := (if p_state x = SLEEPING then RUNNABLE else p_state x)\<rparr>"
  have cong: "f (procs s q) = g (procs s q) \<Longrightarrow> upd_proc q f s = upd_proc q g s" for f g by (simp add: upd_proc_def)
  have "kill 0 s = (0, upd_proc q ?f s)" using assms(1) by (simp add: kill_def)
  also have "upd_proc q ?f s = upd_proc q (\<lambda>x. x\<lparr>p_killed := True\<rparr>) s"
    by (rule cong, rule proc.equality) (simp_all add: u)
  finally have k: "kill 0 s = (0, upd_proc q (\<lambda>x. x\<lparr>p_killed := True\<rparr>) s)" .
  have same: "p_state (procs (upd_proc q (\<lambda>x. x\<lparr>p_killed := True\<rparr>) s) p) = p_state (procs s p)" for p by simp
  have "np = q \<and> p_killed (procs s' np)" if a: "allocproc sy (snd (kill 0 s)) = Ok (Some np, s')" for sy np s'
  proof -
    have "first_from (\<lambda>p. p_state (procs (snd (kill 0 s)) p) = UNUSED) 0 NPROC = Some q"
      using assms(2) by (simp only: k snd_conv same)
    then have "np = q" using a by (auto simp: allocproc_def Let_def outcome_simps split: if_splits prod.splits)
    then show ?thesis using allocproc_Some [OF a] k by auto
  qed
  then show ?thesis using k by blast
qed

theorem kill_zero_marks_free_slot_witness:
  "kill 0 one_proc_k = (0, upd_proc 1 (\<lambda>x. x\<lparr>p_killed := True\<rparr>) one_proc_k)"
  using kill_zero_marks_free_slot [of one_proc_k 1]
  by (auto simp: first_from_Some_iff one_proc_k_def NPROC_def empty_proc_def)

end
