(* ===== verification/Syscall.thy ===== *)
theory Syscall
  imports Proc
begin

text \<open>
  System-call arguments, \<^verbatim>\<open>kernel/syscall.c\<close>, and the process system calls, \<^verbatim>\<open>kernel/sysproc.c\<close>. The
  arguments come from the registers saved in the trap frame of process \<open>p\<close>, strings and pointers
  from its memory; a failed fetch is \<open>None\<close>. Every call has the type of \<open>syscall\<close>'s table: a result,
  or a sleep after which the call is entered again, with the new kernel state.
\<close>

section \<open>Arguments\<close>

definition tf_of :: "nat \<Rightarrow> kstate \<Rightarrow> trapframe" where
  "tf_of p s = tframes s (p_trapframe (procs s p))"

definition argraw :: "nat \<Rightarrow> nat \<Rightarrow> kstate \<Rightarrow> u64 outcome" where
  "argraw p n s =
     (let t = tf_of p s in
      if n = 0 then Ok (tf_a0 t)
      else if n = 1 then Ok (tf_a1 t)
      else if n = 2 then Ok (tf_a2 t)
      else if n = 3 then Ok (tf_a3 t)
      else if n = 4 then Ok (tf_a4 t)
      else if n = 5 then Ok (tf_a5 t)
      else Panic ''argraw'')"

definition argint :: "nat \<Rightarrow> nat \<Rightarrow> kstate \<Rightarrow> int outcome" where
  "argint p n s = obind (argraw p n s) (\<lambda>v. Ok (sint (ucast v :: u32)))"

definition argaddr :: "nat \<Rightarrow> nat \<Rightarrow> kstate \<Rightarrow> u64 outcome" where
  "argaddr p n s = argraw p n s"

fun le64 :: "u8 list \<Rightarrow> u64" where
  "le64 [] = 0"
| "le64 (b # bs) = ucast b OR push_bit 8 (le64 bs)"

definition fetchaddr :: "nat \<Rightarrow> u64 \<Rightarrow> kstate \<Rightarrow> u64 option" where
  "fetchaddr p addr s =
     (let sz = p_sz (procs s p) in
      if addr \<ge> sz \<or> addr + 8 > sz then None
      else
        let (bs, ok) = copyin_bytes (p_pagetable (procs s p)) (kphys s) addr 8
        in if ok then Some (le64 bs) else None)"

definition fetchstr :: "nat \<Rightarrow> u64 \<Rightarrow> nat \<Rightarrow> kstate \<Rightarrow> u8 list option" where
  "fetchstr p addr m s = copyinstr_bytes (p_pagetable (procs s p)) (kphys s) addr m"

definition argstr :: "nat \<Rightarrow> nat \<Rightarrow> nat \<Rightarrow> kstate \<Rightarrow> u8 list option outcome" where
  "argstr p n m s = obind (argaddr p n s) (\<lambda>addr. Ok (fetchstr p addr m s))"

section \<open>kernel/sysproc.c\<close>

type_synonym sysres = "(call \<times> kstate) outcome"

definition ret :: "int \<Rightarrow> kstate \<Rightarrow> sysres" where
  "ret v s = Ok (Returns v, s)"

text \<open>A process that exits goes to sleep for ever.\<close>

definition sys_exit :: "syms \<Rightarrow> nat \<Rightarrow> kstate \<Rightarrow> sysres" where
  "sys_exit sy p s =
     obind (argint p 0 s) (\<lambda>n.
     obind (exit sy (p_pid (procs s p)) p n s) (\<lambda>s1. Ok (Sleeps 0, s1)))"

definition sys_getpid :: "nat \<Rightarrow> kstate \<Rightarrow> sysres" where
  "sys_getpid p s = ret (p_pid (procs s p)) s"

definition sys_fork :: "syms \<Rightarrow> nat \<Rightarrow> kstate \<Rightarrow> sysres" where
  "sys_fork sy p s = obind (fork sy p s) (\<lambda>(r, s1). ret r s1)"

definition sys_wait :: "syms \<Rightarrow> nat \<Rightarrow> kstate \<Rightarrow> sysres" where
  "sys_wait sy p s = obind (argaddr p 0 s) (\<lambda>a. wait sy p a s)"

text \<open>\<^verbatim>\<open>int addr = myproc()->sz\<close> truncates the size.\<close>

definition sys_sbrk :: "syms \<Rightarrow> nat \<Rightarrow> kstate \<Rightarrow> sysres" where
  "sys_sbrk sy p s =
     obind (argint p 0 s) (\<lambda>n.
       let addr = sint (ucast (p_sz (procs s p)) :: u32) in
     obind (growproc sy p n s) (\<lambda>(r, s1). ret (if r < 0 then -1 else addr) s1))"

text \<open>
  The loop of \<open>sys_sleep\<close> is entered with the tick count \<open>ticks0\<close> at the call; the comparison is
  one of unsigned numbers.
\<close>

definition sys_sleep_from :: "nat \<Rightarrow> int \<Rightarrow> u32 \<Rightarrow> kstate \<Rightarrow> call \<times> kstate" where
  "sys_sleep_from p n ticks0 s =
     (if ticks s - ticks0 < of_int n then
        if p_killed (procs s p) then (Returns (-1), s)
        else (Sleeps 0, sleep_on p TicksCh s)
      else (Returns 0, s))"

definition sys_sleep :: "nat \<Rightarrow> kstate \<Rightarrow> sysres" where
  "sys_sleep p s = obind (argint p 0 s) (\<lambda>n. Ok (sys_sleep_from p n (ticks s) s))"

definition sys_kill :: "nat \<Rightarrow> kstate \<Rightarrow> sysres" where
  "sys_kill p s = obind (argint p 0 s) (\<lambda>pid. let (r, s1) = kill pid s in ret r s1)"

definition sys_uptime :: "nat \<Rightarrow> kstate \<Rightarrow> sysres" where
  "sys_uptime p s = ret (int (unat (ticks s))) s"

end
