(* ===== verification/Sysfile.thy ===== *)
theory Sysfile
  imports Syscall
begin

text \<open>
  The file-system calls, \<^verbatim>\<open>kernel/sysfile.c\<close>, with symbolic links. \<open>p\<close> is the calling process. The
  arrays on the kernel stack that the code does not initialise are zero, except the path buffer of
  \<open>sys_open\<close>, whose old contents a symbolic link can expose: there it is the parameter \<open>stk\<close>.
\<close>

definition O_WRONLY :: u32 where "O_WRONLY = 0x001"
definition O_RDWR :: u32 where "O_RDWR = 0x002"
definition O_CREATE :: u32 where "O_CREATE = 0x200"
definition O_TRUNC :: u32 where "O_TRUNC = 0x400"
definition O_NOFOLLOW :: u32 where "O_NOFOLLOW = 0x800"
definition O_RDONLY :: u32 where "O_RDONLY = 0x000"

definition me_of :: "nat \<Rightarrow> kstate \<Rightarrow> int" where
  "me_of p s = p_pid (procs s p)"

definition cwd_of :: "nat \<Rightarrow> kstate \<Rightarrow> nat option" where
  "cwd_of p s = p_cwd (procs s p)"

text \<open>Ends a call that is inside a transaction.\<close>

definition op_ret :: "int \<Rightarrow> int \<Rightarrow> kstate \<Rightarrow> sysres" where
  "op_ret me v s = obind (end_op me s) (\<lambda>s1. ret v s1)"

definition unlock_ret :: "int \<Rightarrow> nat \<Rightarrow> int \<Rightarrow> kstate \<Rightarrow> sysres" where
  "unlock_ret me ip v s = obind (iunlockput me ip s) (\<lambda>s1. op_ret me v s1)"

section \<open>Descriptors\<close>

definition argfd :: "nat \<Rightarrow> nat \<Rightarrow> kstate \<Rightarrow> (nat \<times> nat) option outcome" where
  "argfd p n s =
     obind (argint p n s) (\<lambda>fd.
       Ok (if fd < 0 \<or> fd \<ge> int NOFILE then None
           else map_option (\<lambda>f. (nat fd, f)) (p_ofile (procs s p) (nat fd))))"

definition fdalloc :: "nat \<Rightarrow> nat \<Rightarrow> kstate \<Rightarrow> nat option \<times> kstate" where
  "fdalloc p f s =
     (case first_from (\<lambda>fd. p_ofile (procs s p) fd = None) 0 NOFILE of
        Some fd \<Rightarrow> (Some fd, upd_proc p (\<lambda>x. x\<lparr>p_ofile := (p_ofile x)(fd := Some f)\<rparr>) s)
      | None \<Rightarrow> (None, s))"

definition clear_fd :: "nat \<Rightarrow> nat \<Rightarrow> kstate \<Rightarrow> kstate" where
  "clear_fd p fd s = upd_proc p (\<lambda>x. x\<lparr>p_ofile := (p_ofile x)(fd := None)\<rparr>) s"

definition sys_dup :: "nat \<Rightarrow> kstate \<Rightarrow> sysres" where
  "sys_dup p s =
     obind (argfd p 0 s) (\<lambda>a.
       case a of None \<Rightarrow> ret (-1) s
       | Some (fd0, f) \<Rightarrow>
           (case fdalloc p f s of
              (None, s1) \<Rightarrow> ret (-1) s1
            | (Some fd, s1) \<Rightarrow> obind (filedup f s1) (\<lambda>(f', s2). ret (int fd) s2)))"

type_synonym devsw = "nat \<Rightarrow> (u64 \<Rightarrow> int \<Rightarrow> kstate \<Rightarrow> (call \<times> kstate) outcome) option"

definition sys_read :: "devsw \<Rightarrow> nat \<Rightarrow> kstate \<Rightarrow> sysres" where
  "sys_read dev p s =
     obind (argfd p 0 s) (\<lambda>a.
       case a of None \<Rightarrow> ret (-1) s
       | Some (fd, f) \<Rightarrow>
           obind (argint p 2 s) (\<lambda>n. obind (argaddr p 1 s) (\<lambda>addr.
           fileread dev (me_of p s) p f addr n s)))"

definition sys_write :: "devsw \<Rightarrow> nat \<Rightarrow> kstate \<Rightarrow> sysres" where
  "sys_write dev p s =
     obind (argfd p 0 s) (\<lambda>a.
       case a of None \<Rightarrow> ret (-1) s
       | Some (fd, f) \<Rightarrow>
           obind (argint p 2 s) (\<lambda>n. obind (argaddr p 1 s) (\<lambda>addr.
           filewrite dev (me_of p s) p f addr n s)))"

definition sys_close :: "syms \<Rightarrow> nat \<Rightarrow> kstate \<Rightarrow> sysres" where
  "sys_close sy p s =
     obind (argfd p 0 s) (\<lambda>a.
       case a of None \<Rightarrow> ret (-1) s
       | Some (fd, f) \<Rightarrow>
           obind (fileclose sy (me_of p s) f (clear_fd p fd s)) (\<lambda>s1. ret 0 s1))"

definition sys_fstat :: "nat \<Rightarrow> kstate \<Rightarrow> sysres" where
  "sys_fstat p s =
     obind (argfd p 0 s) (\<lambda>a.
       case a of None \<Rightarrow> ret (-1) s
       | Some (fd, f) \<Rightarrow>
           obind (argaddr p 1 s) (\<lambda>st.
           obind (filestat (me_of p s) p f st s) (\<lambda>(r, s1). ret r s1)))"

section \<open>Links\<close>

definition link_bad :: "int \<Rightarrow> nat \<Rightarrow> kstate \<Rightarrow> sysres" where
  "link_bad me ip s =
     obind (ilock me ip s) (\<lambda>s1.
     obind (iupdate me ip (upd_ino ip (\<lambda>x. x\<lparr>i_nlink := i_nlink x - 1\<rparr>) s1)) (\<lambda>s2.
     unlock_ret me ip (-1) s2))"

definition sys_link :: "nat \<Rightarrow> kstate \<Rightarrow> sysres" where
  "sys_link p s =
     (let me = me_of p s; cwd = cwd_of p s in
      obind (argstr p 0 MAXPATH s) (\<lambda>a0. obind (argstr p 1 MAXPATH s) (\<lambda>a1.
        case (a0, a1) of
          (Some old, Some new) \<Rightarrow>
            obind (begin_op s) (\<lambda>s1.
            obind (namei me cwd old s1) (\<lambda>(r, s2).
              case r of None \<Rightarrow> op_ret me (-1) s2
              | Some ip \<Rightarrow>
                  obind (ilock me ip s2) (\<lambda>s3.
                    if i_type (inodes s3 ip) = T_DIR then unlock_ret me ip (-1) s3
                    else
                      obind (iupdate me ip (upd_ino ip (\<lambda>x. x\<lparr>i_nlink := i_nlink x + 1\<rparr>) s3)) (\<lambda>s4.
                      obind (iunlock me ip s4) (\<lambda>s5.
                      obind (nameiparent me cwd new (replicate DIRSIZ 0) s5) (\<lambda>(d, name, s6).
                        case d of None \<Rightarrow> link_bad me ip s6
                        | Some dp \<Rightarrow>
                            obind (ilock me dp s6) (\<lambda>s7.
                            obind (if i_dev (inodes s7 dp) \<noteq> i_dev (inodes s7 ip) then Ok (-1, s7)
                                   else dirlink me dp name (i_inum (inodes s7 ip)) s7) (\<lambda>(r, s8).
                              if r < 0 then obind (iunlockput me dp s8) (\<lambda>s9. link_bad me ip s9)
                              else
                                obind (iunlockput me dp s8) (\<lambda>s9.
                                obind (iput me ip s9) (\<lambda>s10. op_ret me 0 s10))))))))))
        | _ \<Rightarrow> ret (-1) s)))"

text \<open>The loop of \<open>isdirempty\<close> from offset \<open>off\<close> with \<open>k\<close> entries left.\<close>

fun isdirempty_loop :: "int \<Rightarrow> nat \<Rightarrow> nat \<Rightarrow> nat \<Rightarrow> kstate \<Rightarrow> (bool \<times> kstate) outcome" where
  "isdirempty_loop me dp off 0 s = Ok (True, s)"
| "isdirempty_loop me dp off (Suc k) s =
     obind (readi me kcout dp 0 (of_nat off) (of_nat dirent_size) [] s) (\<lambda>(r, de, s1).
       if r \<noteq> int dirent_size then Panic ''isdirempty: readi''
       else if de_inum de \<noteq> 0 then Ok (False, s1)
       else isdirempty_loop me dp (off + dirent_size) k s1)"

definition isdirempty :: "int \<Rightarrow> nat \<Rightarrow> kstate \<Rightarrow> (bool \<times> kstate) outcome" where
  "isdirempty me dp s = isdirempty_loop me dp (2 * dirent_size) (dir_slots (i_size (inodes s dp)) - 2) s"

definition sys_unlink :: "nat \<Rightarrow> kstate \<Rightarrow> sysres" where
  "sys_unlink p s =
     (let me = me_of p s; cwd = cwd_of p s in
      obind (argstr p 0 MAXPATH s) (\<lambda>a.
        case a of None \<Rightarrow> ret (-1) s
        | Some path \<Rightarrow>
            obind (begin_op s) (\<lambda>s1.
            obind (nameiparent me cwd path (replicate DIRSIZ 0) s1) (\<lambda>(d, name, s2).
              case d of None \<Rightarrow> op_ret me (-1) s2
              | Some dp \<Rightarrow>
                  obind (ilock me dp s2) (\<lambda>s3.
                    if namecmp name (cstr ''.'' @ [0]) = 0 \<or> namecmp name (cstr ''..'' @ [0]) = 0
                    then unlock_ret me dp (-1) s3
                    else
                      obind (dirlookup me dp name s3) (\<lambda>(e, s4).
                        case e of None \<Rightarrow> unlock_ret me dp (-1) s4
                        | Some (ip, off) \<Rightarrow>
                            obind (ilock me ip s4) (\<lambda>s5.
                              if sint (i_nlink (inodes s5 ip)) < 1 then Panic ''unlink: nlink < 1''
                              else
                                obind (if i_type (inodes s5 ip) = T_DIR then isdirempty me ip s5 else Ok (True, s5)) (\<lambda>(em, s6).
                                  if \<not> em then obind (iunlockput me ip s6) (\<lambda>s7. unlock_ret me dp (-1) s7)
                                  else
                                    obind (writei me (kcin (replicate dirent_size 0)) dp 0 (of_nat off) (of_nat dirent_size) s6) (\<lambda>(w, s7).
                                      if w \<noteq> int dirent_size then Panic ''unlink: writei''
                                      else
                                        obind (if i_type (inodes s7 ip) = T_DIR
                                               then iupdate me dp (upd_ino dp (\<lambda>x. x\<lparr>i_nlink := i_nlink x - 1\<rparr>) s7)
                                               else Ok s7) (\<lambda>s8.
                                        obind (iunlockput me dp s8) (\<lambda>s9.
                                        obind (iupdate me ip (upd_ino ip (\<lambda>x. x\<lparr>i_nlink := i_nlink x - 1\<rparr>) s9)) (\<lambda>s10.
                                        unlock_ret me ip 0 s10))))))))))))"

section \<open>Creating and opening\<close>

text \<open>\<open>create\<close> returns the locked inode, or \<open>None\<close> for 0.\<close>

definition create :: "int \<Rightarrow> nat option \<Rightarrow> u8 list \<Rightarrow> u16 \<Rightarrow> u16 \<Rightarrow> u16 \<Rightarrow> kstate \<Rightarrow> (nat option \<times> kstate) outcome" where
  "create me cwd path type major minor s =
     obind (nameiparent me cwd path (replicate DIRSIZ 0) s) (\<lambda>(d, name, s1).
       case d of None \<Rightarrow> Ok (None, s1)
       | Some dp \<Rightarrow>
           obind (ilock me dp s1) (\<lambda>s2.
           obind (dirlookup me dp name s2) (\<lambda>(e, s3).
             case e of
               Some (ip, off) \<Rightarrow>
                 obind (iunlockput me dp s3) (\<lambda>s4.
                 obind (ilock me ip s4) (\<lambda>s5.
                   if type = T_FILE \<and> (i_type (inodes s5 ip) = T_FILE \<or> i_type (inodes s5 ip) = T_DEVICE)
                   then Ok (Some ip, s5)
                   else obind (iunlockput me ip s5) (\<lambda>s6. Ok (None, s6))))
             | None \<Rightarrow>
                 obind (ialloc me (i_dev (inodes s3 dp)) type s3) (\<lambda>(ip, s4).
                 obind (ilock me ip s4) (\<lambda>s5.
                 obind (iupdate me ip (upd_ino ip (\<lambda>x. x\<lparr>i_major := major, i_minor := minor, i_nlink := 1\<rparr>) s5)) (\<lambda>s6.
                 obind (if type = T_DIR then
                          obind (iupdate me dp (upd_ino dp (\<lambda>x. x\<lparr>i_nlink := i_nlink x + 1\<rparr>) s6)) (\<lambda>s7.
                          obind (dirlink me ip (cstr ''.'' @ [0]) (i_inum (inodes s7 ip)) s7) (\<lambda>(r, s8).
                            if r < 0 then Panic ''create dots''
                            else
                              obind (dirlink me ip (cstr ''..'' @ [0]) (i_inum (inodes s8 dp)) s8) (\<lambda>(r, s9).
                                if r < 0 then Panic ''create dots'' else Ok s9)))
                        else Ok s6) (\<lambda>s10.
                 obind (dirlink me dp name (i_inum (inodes s10 ip)) s10) (\<lambda>(r, s11).
                   if r < 0 then Panic ''create: dirlink''
                   else obind (iunlockput me dp s11) (\<lambda>s12. Ok (Some ip, s12))))))))))"

text \<open>
  The path buffer of \<open>sys_open\<close>, \<open>MAXPATH\<close> bytes: \<open>fill buf bs\<close> overwrites its beginning, the path in
  it ends at the first NUL. Reading a symbolic link stores the target, which has no NUL of its own,
  over the old path.
\<close>

definition fill :: "u8 list \<Rightarrow> u8 list \<Rightarrow> u8 list" where
  "fill buf bs = bs @ drop (length bs) buf"

definition path_of :: "u8 list \<Rightarrow> u8 list" where
  "path_of buf = takeWhile (\<lambda>c. c \<noteq> 0) buf"

text \<open>
  The loop of \<open>sys_open\<close> that follows symbolic links, \<open>depth\<close> links followed so far. The result is the
  locked inode, or \<open>None\<close> after the transaction has ended with an error.
\<close>

function open_follow :: "int \<Rightarrow> nat option \<Rightarrow> u32 \<Rightarrow> nat \<Rightarrow> u8 list \<Rightarrow> kstate \<Rightarrow> (nat option \<times> kstate) outcome" where
  "open_follow me cwd omode depth buf s =
     obind (namei me cwd (path_of buf) s) (\<lambda>(r, s1).
       case r of
         None \<Rightarrow> obind (end_op me s1) (\<lambda>s2. Ok (None, s2))
       | Some ip \<Rightarrow>
           obind (ilock me ip s1) (\<lambda>s2.
             if i_type (inodes s2 ip) = T_SYMLINK \<and> omode AND O_NOFOLLOW = 0 then
               if depth + 1 > 20 then
                 obind (iunlockput me ip s2) (\<lambda>s3. obind (end_op me s3) (\<lambda>s4. Ok (None, s4)))
               else
                 obind (readi me kcout ip 0 0 (of_nat MAXPATH) [] s2) (\<lambda>(n, bs, s3).
                   if n < 0 then
                     obind (iunlockput me ip s3) (\<lambda>s4. obind (end_op me s4) (\<lambda>s5. Ok (None, s5)))
                   else obind (iunlockput me ip s3) (\<lambda>s4. open_follow me cwd omode (depth + 1) (fill buf bs) s4))
             else Ok (Some ip, s2)))"
  by pat_completeness auto

termination open_follow
  by (relation "measure (\<lambda>(me, cwd, omode, depth, buf, s). 21 - depth)") auto

declare open_follow.simps [simp del]

text \<open>The rest of \<open>sys_open\<close>, with the inode locked.\<close>

definition open_file :: "syms \<Rightarrow> nat \<Rightarrow> u32 \<Rightarrow> nat \<Rightarrow> kstate \<Rightarrow> sysres" where
  "open_file sy p omode ip s =
     (let me = me_of p s; major = i_major (inodes s ip) in
      if i_type (inodes s ip) = T_DEVICE \<and> (sint major < 0 \<or> sint major \<ge> int NDEV) then unlock_ret me ip (-1) s
      else
        (case filealloc s of
           (None, s1) \<Rightarrow> unlock_ret me ip (-1) s1
         | (Some f, s1) \<Rightarrow>
             (case fdalloc p f s1 of
                (None, s2) \<Rightarrow> obind (fileclose sy me f s2) (\<lambda>s3. unlock_ret me ip (-1) s3)
              | (Some fd, s2) \<Rightarrow>
                  let s3 = (if i_type (inodes s2 ip) = T_DEVICE
                            then upd_file f (\<lambda>x. x\<lparr>f_type := FD_DEVICE, f_major := i_major (inodes s2 ip)\<rparr>) s2
                            else upd_file f (\<lambda>x. x\<lparr>f_type := FD_INODE, f_off := 0\<rparr>) s2);
                      s4 = upd_file f (\<lambda>x. x\<lparr>f_ip := ip, f_readable := (omode AND O_WRONLY = 0),
                             f_writable := (omode AND O_WRONLY \<noteq> 0 \<or> omode AND O_RDWR \<noteq> 0)\<rparr>) s3
                  in obind (if omode AND O_TRUNC \<noteq> 0 \<and> i_type (inodes s4 ip) = T_FILE then itrunc me ip s4 else Ok s4) (\<lambda>s5.
                     obind (iunlock me ip s5) (\<lambda>s6. op_ret me (int fd) s6)))))"

definition sys_open :: "syms \<Rightarrow> u8 list \<Rightarrow> nat \<Rightarrow> kstate \<Rightarrow> sysres" where
  "sys_open sy stk p s =
     (let me = me_of p s; cwd = cwd_of p s in
      obind (argstr p 0 MAXPATH s) (\<lambda>a.
        case a of None \<Rightarrow> ret (-1) s
        | Some path \<Rightarrow>
            obind (argint p 1 s) (\<lambda>om.
              let omode = (of_int om :: u32) in
              obind (begin_op s) (\<lambda>s1.
                if omode AND O_CREATE \<noteq> 0 then
                  obind (create me cwd path T_FILE 0 0 s1) (\<lambda>(r, s2).
                    case r of None \<Rightarrow> op_ret me (-1) s2 | Some ip \<Rightarrow> open_file sy p omode ip s2)
                else
                  obind (open_follow me cwd omode 0 (fill stk (path @ [0])) s1) (\<lambda>(r, s2).
                    case r of None \<Rightarrow> ret (-1) s2
                    | Some ip \<Rightarrow>
                        if i_type (inodes s2 ip) = T_DIR \<and> omode \<noteq> O_RDONLY then unlock_ret me ip (-1) s2
                        else open_file sy p omode ip s2)))))"

definition sys_mkdir :: "nat \<Rightarrow> kstate \<Rightarrow> sysres" where
  "sys_mkdir p s =
     (let me = me_of p s in
      obind (begin_op s) (\<lambda>s1.
      obind (argstr p 0 MAXPATH s1) (\<lambda>a.
        case a of None \<Rightarrow> op_ret me (-1) s1
        | Some path \<Rightarrow>
            obind (create me (cwd_of p s1) path T_DIR 0 0 s1) (\<lambda>(r, s2).
              case r of None \<Rightarrow> op_ret me (-1) s2 | Some ip \<Rightarrow> unlock_ret me ip 0 s2))))"

definition sys_mknod :: "nat \<Rightarrow> kstate \<Rightarrow> sysres" where
  "sys_mknod p s =
     (let me = me_of p s in
      obind (begin_op s) (\<lambda>s1.
      obind (argstr p 0 MAXPATH s1) (\<lambda>a.
        case a of None \<Rightarrow> op_ret me (-1) s1
        | Some path \<Rightarrow>
            obind (argint p 1 s1) (\<lambda>major. obind (argint p 2 s1) (\<lambda>minor.
            obind (create me (cwd_of p s1) path T_DEVICE (of_int major) (of_int minor) s1) (\<lambda>(r, s2).
              case r of None \<Rightarrow> op_ret me (-1) s2 | Some ip \<Rightarrow> unlock_ret me ip 0 s2))))))"

definition sys_chdir :: "nat \<Rightarrow> kstate \<Rightarrow> sysres" where
  "sys_chdir p s =
     (let me = me_of p s in
      obind (begin_op s) (\<lambda>s1.
      obind (argstr p 0 MAXPATH s1) (\<lambda>a.
        case a of None \<Rightarrow> op_ret me (-1) s1
        | Some path \<Rightarrow>
            obind (namei me (cwd_of p s1) path s1) (\<lambda>(r, s2).
              case r of None \<Rightarrow> op_ret me (-1) s2
              | Some ip \<Rightarrow>
                  obind (ilock me ip s2) (\<lambda>s3.
                    if i_type (inodes s3 ip) \<noteq> T_DIR then unlock_ret me ip (-1) s3
                    else
                      obind (iunlock me ip s3) (\<lambda>s4.
                      obind (case cwd_of p s4 of None \<Rightarrow> Panic ''kerneltrap'' | Some cwd \<Rightarrow> iput me cwd s4) (\<lambda>s5.
                      obind (end_op me s5) (\<lambda>s6.
                      ret 0 (upd_proc p (\<lambda>x. x\<lparr>p_cwd := Some ip\<rparr>) s6)))))))))"

definition sys_pipe :: "syms \<Rightarrow> nat \<Rightarrow> kstate \<Rightarrow> sysres" where
  "sys_pipe sy p s =
     (let me = me_of p s in
      obind (argaddr p 0 s) (\<lambda>fdarray.
      obind (pipealloc sy me s) (\<lambda>(r, s1).
        case r of None \<Rightarrow> ret (-1) s1
        | Some (rfile, wfile) \<Rightarrow>
            (case fdalloc p rfile s1 of
               (None, s2) \<Rightarrow>
                 obind (fileclose sy me rfile s2) (\<lambda>s3. obind (fileclose sy me wfile s3) (\<lambda>s4. ret (-1) s4))
             | (Some fd0, s2) \<Rightarrow>
                 (case fdalloc p wfile s2 of
                    (None, s3) \<Rightarrow>
                      obind (fileclose sy me rfile (clear_fd p fd0 s3)) (\<lambda>s4. obind (fileclose sy me wfile s4) (\<lambda>s5. ret (-1) s5))
                  | (Some fd1, s3) \<Rightarrow>
                      let (ok0, s4) = copyout_k p fdarray (bytes32 (of_nat fd0)) s3;
                          (ok1, s5) = (if ok0 then copyout_k p (fdarray + 4) (bytes32 (of_nat fd1)) s4 else (False, s4))
                      in if \<not> ok1 then
                           obind (fileclose sy me rfile (clear_fd p fd1 (clear_fd p fd0 s5))) (\<lambda>s6.
                           obind (fileclose sy me wfile s6) (\<lambda>s7. ret (-1) s7))
                         else ret 0 s5)))))"

definition sys_symlink :: "nat \<Rightarrow> kstate \<Rightarrow> sysres" where
  "sys_symlink p s =
     (let me = me_of p s in
      obind (argstr p 0 MAXPATH s) (\<lambda>a0. obind (argstr p 1 MAXPATH s) (\<lambda>a1.
        case (a0, a1) of
          (Some target, Some path) \<Rightarrow>
            obind (begin_op s) (\<lambda>s1.
            obind (create me (cwd_of p s1) path T_SYMLINK 0 0 s1) (\<lambda>(r, s2).
              case r of None \<Rightarrow> op_ret me (-1) s2
              | Some ip \<Rightarrow>
                  obind (writei me (kcin target) ip 0 0 (of_nat (length target)) s2) (\<lambda>(w, s3).
                    unlock_ret me ip (if w < 0 then -1 else 0) s3)))
        | _ \<Rightarrow> ret (-1) s)))"

end
