(* ===== verification/Exec.thy ===== *)
theory Exec
  imports Sysfile
begin

text \<open>
  \<^verbatim>\<open>kernel/exec.c\<close>: replacing the memory image of a process by a program from the file system, and
  the system call \<open>sys_exec\<close>, which collects the argument strings. The headers are decoded from
  the bytes \<open>readi\<close> delivers; argument strings are byte lists without their NUL, kept beside the pages
  \<open>kalloc\<close> provides for them.
\<close>

definition ELF_MAGIC :: u32 where "ELF_MAGIC = 0x464C457F"
definition ELF_PROG_LOAD :: u32 where "ELF_PROG_LOAD = 1"

text \<open>The fields the code reads of \<^verbatim>\<open>struct elfhdr\<close> (64 bytes) and \<^verbatim>\<open>struct proghdr\<close> (56 bytes).\<close>

definition field :: "u8 list \<Rightarrow> nat \<Rightarrow> nat \<Rightarrow> u64" where
  "field bs off n = le64 (take n (drop off bs))"

record elfhdr =
  e_magic :: u32
  e_entry :: u64
  e_phoff :: u64
  e_phnum :: u16

definition elf_of :: "u8 list \<Rightarrow> elfhdr" where
  "elf_of bs = \<lparr>e_magic = ucast (field bs 0 4), e_entry = field bs 24 8, e_phoff = field bs 32 8,
     e_phnum = ucast (field bs 56 2)\<rparr>"

record proghdr =
  ph_type :: u32
  ph_off :: u64
  ph_vaddr :: u64
  ph_filesz :: u64
  ph_memsz :: u64

definition ph_of :: "u8 list \<Rightarrow> proghdr" where
  "ph_of bs = \<lparr>ph_type = ucast (field bs 0 4), ph_off = field bs 8 8, ph_vaddr = field bs 16 8,
     ph_filesz = field bs 32 8, ph_memsz = field bs 40 8\<rparr>"

section \<open>Loading segments\<close>

text \<open>Reading file contents into physical memory.\<close>

definition phys_out :: "u64 \<Rightarrow> u8 list \<Rightarrow> phys \<Rightarrow> bool \<times> phys" where
  "phys_out dst bs ph = (True, ph\<lparr>pmem := put_bytes (pmem ph) dst bs\<rparr>)"

text \<open>
  The loop of \<open>loadseg\<close>; \<open>k\<close> bounds the number of pages it visits before \<open>i\<close> reaches \<open>sz\<close>. The counter of
  the code has 32 bits; it would only wrap for a segment within a page of 4 GB, which
  \<open>uvmalloc\<close> cannot have provided from the 128 MB of memory.
\<close>

fun loadseg_loop :: "int \<Rightarrow> u64 \<Rightarrow> u64 \<Rightarrow> nat \<Rightarrow> u32 \<Rightarrow> u32 \<Rightarrow> nat \<Rightarrow> nat \<Rightarrow> kstate \<Rightarrow> (int \<times> kstate) outcome" where
  "loadseg_loop me pagetable va ip off sz i 0 s = Ok (0, s)"
| "loadseg_loop me pagetable va ip off sz i (Suc k) s =
     (if i < unat sz then
        let pa = uaddr pagetable (va + of_nat i) (kphys s) in
        if pa = 0 then Panic ''loadseg: address should exist''
        else
          let n = (if unat sz - i < 4096 then unat sz - i else 4096) in
          obind (readi me phys_out ip pa (off + of_nat i) (of_nat n) (kphys s) s) (\<lambda>(r, ph, s1).
            let s2 = s1\<lparr>kphys := ph\<rparr> in
            if r \<noteq> int n then Ok (-1, s2)
            else loadseg_loop me pagetable va ip off sz (i + 4096) k s2)
      else Ok (0, s))"

definition loadseg :: "int \<Rightarrow> u64 \<Rightarrow> u64 \<Rightarrow> nat \<Rightarrow> u32 \<Rightarrow> u32 \<Rightarrow> kstate \<Rightarrow> (int \<times> kstate) outcome" where
  "loadseg me pagetable va ip off sz s =
     (if va mod PGSIZE \<noteq> 0 then Panic ''loadseg: va must be page aligned''
      else loadseg_loop me pagetable va ip off sz 0 (unat sz div 4096 + 1) s)"

text \<open>
  The program headers from number \<open>i\<close> on, \<open>k\<close> left, the image being \<open>sz\<close> bytes so far. The result
  is the new size and whether all segments were loaded.
\<close>

fun load_segments :: "syms \<Rightarrow> int \<Rightarrow> u64 \<Rightarrow> nat \<Rightarrow> u32 \<Rightarrow> u64 \<Rightarrow> nat \<Rightarrow> kstate \<Rightarrow> (bool \<times> u64 \<times> kstate) outcome" where
  "load_segments sy me pagetable ip off sz 0 s = Ok (True, sz, s)"
| "load_segments sy me pagetable ip off sz (Suc k) s =
     obind (readi me kcout ip 0 off 56 [] s) (\<lambda>(r, bs, s1).
       if r \<noteq> 56 then Ok (False, sz, s1)
       else
         let ph = ph_of bs in
         if ph_type ph \<noteq> ELF_PROG_LOAD then load_segments sy me pagetable ip (off + 56) sz k s1
         else if ph_memsz ph < ph_filesz ph then Ok (False, sz, s1)
         else if ph_vaddr ph + ph_memsz ph < ph_vaddr ph then Ok (False, sz, s1)
         else
           obind (vm_get (uvmalloc (sy_end sy) pagetable sz (ph_vaddr ph + ph_memsz ph)) s1) (\<lambda>(sz1, s2).
             if sz1 = 0 then Ok (False, sz, s2)
             else if ph_vaddr ph mod PGSIZE \<noteq> 0 then Ok (False, sz1, s2)
             else
               obind (loadseg me pagetable (ph_vaddr ph) ip (ucast (ph_off ph)) (ucast (ph_filesz ph)) s2) (\<lambda>(r, s3).
                 if r < 0 then Ok (False, sz1, s3)
                 else load_segments sy me pagetable ip (off + 56) sz1 k s3)))"

section \<open>The argument stack\<close>

text \<open>
  The loop that pushes the argument strings: \<open>sp\<close> is the stack pointer, \<open>ustack\<close> the addresses
  pushed so far. \<open>None\<close> is the jump to \<^verbatim>\<open>bad\<close>.
\<close>

fun push_args :: "u64 \<Rightarrow> u64 \<Rightarrow> u8 list list \<Rightarrow> u64 \<Rightarrow> u64 list \<Rightarrow> phys \<Rightarrow> (u64 \<times> u64 list) option \<times> phys" where
  "push_args pagetable stackbase [] sp ustack ph = (Some (sp, ustack), ph)"
| "push_args pagetable stackbase (arg # args) sp ustack ph =
     (if length ustack \<ge> MAXARG then (None, ph)
      else
        let sp1 = sp - (of_nat (length arg) + 1);
            sp2 = sp1 - sp1 mod 16
        in if sp2 < stackbase then (None, ph)
           else
             let (ok, ph1) = copyout_bytes pagetable sp2 (arg @ [0]) ph
             in if \<not> ok then (None, ph1)
                else push_args pagetable stackbase args sp2 (ustack @ [sp2]) ph1)"

definition push_argv :: "u64 \<Rightarrow> u64 \<Rightarrow> u64 \<Rightarrow> u64 list \<Rightarrow> phys \<Rightarrow> u64 option \<times> phys" where
  "push_argv pagetable stackbase sp ustack ph =
     (let sp1 = sp - of_nat (length ustack + 1) * 8;
          sp2 = sp1 - sp1 mod 16
      in if sp2 < stackbase then (None, ph)
         else
           let (ok, ph1) = copyout_bytes pagetable sp2 (concat (map bytes64 (ustack @ [0]))) ph
           in (if ok then Some sp2 else None, ph1))"

text \<open>The last element of the path: \<^verbatim>\<open>for(last=s=path; *s; s++) if(*s == '/') last = s+1\<close>.\<close>

fun last_elem :: "u8 list \<Rightarrow> u8 list \<Rightarrow> u8 list" where
  "last_elem l [] = l"
| "last_elem l (c # cs) = last_elem (if c = slash then cs else l) cs"

section \<open>exec\<close>

definition exec_bad :: "syms \<Rightarrow> int \<Rightarrow> u64 \<Rightarrow> u64 \<Rightarrow> nat option \<Rightarrow> kstate \<Rightarrow> (int \<times> kstate) outcome" where
  "exec_bad sy me pagetable sz ipo s =
     obind (if pagetable \<noteq> 0 then vm_do (proc_freepagetable sy pagetable sz) s else Ok s) (\<lambda>s1.
       case ipo of None \<Rightarrow> Ok (-1, s1)
       | Some ip \<Rightarrow> obind (iunlockput me ip s1) (\<lambda>s2. obind (end_op me s2) (\<lambda>s3. Ok (-1, s3))))"

text \<open>The part of \<open>exec\<close> after the image is loaded and the inode released.\<close>

definition exec_commit :: "syms \<Rightarrow> nat \<Rightarrow> u8 list \<Rightarrow> u8 list list \<Rightarrow> u64 \<Rightarrow> u64 \<Rightarrow> u64 \<Rightarrow> kstate \<Rightarrow> (int \<times> kstate) outcome" where
  "exec_commit sy p path argv pagetable sz entry s =
     (let me = me_of p s;
          oldsz = p_sz (procs s p);
          sz0 = PGROUNDUP sz
      in obind (vm_get (uvmalloc (sy_end sy) pagetable sz0 (sz0 + 2 * PGSIZE)) s) (\<lambda>(sz1, s1).
           if sz1 = 0 then exec_bad sy me pagetable sz0 None s1
           else
             obind (vm_do (uvmclear pagetable (sz1 - 2 * PGSIZE)) s1) (\<lambda>s2.
               let stackbase = sz1 - PGSIZE;
                   (r, ph) = push_args pagetable stackbase argv sz1 [] (kphys s2);
                   s3 = s2\<lparr>kphys := ph\<rparr>
               in case r of None \<Rightarrow> exec_bad sy me pagetable sz1 None s3
                  | Some (sp, ustack) \<Rightarrow>
                      let (r, ph) = push_argv pagetable stackbase sp ustack (kphys s3);
                          s4 = s3\<lparr>kphys := ph\<rparr>
                      in case r of None \<Rightarrow> exec_bad sy me pagetable sz1 None s4
                         | Some sp \<Rightarrow>
                             let s5 = upd_tf p (\<lambda>t. t\<lparr>tf_a1 := sp\<rparr>) s4;
                                 s6 = upd_proc p (\<lambda>x. x\<lparr>p_name := safestr (last_elem path path) 16 (p_name x)\<rparr>) s5;
                                 oldpagetable = p_pagetable (procs s6 p);
                                 s7 = upd_proc p (\<lambda>x. x\<lparr>p_pagetable := pagetable, p_sz := sz1\<rparr>) s6;
                                 s8 = upd_tf p (\<lambda>t. t\<lparr>tf_epc := entry, tf_sp := sp\<rparr>) s7
                             in obind (vm_do (proc_freepagetable sy oldpagetable oldsz) s8) (\<lambda>s9.
                                Ok (int (length ustack), s9)))))"

definition exec :: "syms \<Rightarrow> nat \<Rightarrow> u8 list \<Rightarrow> u8 list list \<Rightarrow> kstate \<Rightarrow> (int \<times> kstate) outcome" where
  "exec sy p path argv s =
     (let me = me_of p s in
      obind (begin_op s) (\<lambda>s1.
      obind (namei me (cwd_of p s1) path s1) (\<lambda>(r, s2).
        case r of None \<Rightarrow> obind (end_op me s2) (\<lambda>s3. Ok (-1, s3))
        | Some ip \<Rightarrow>
            obind (ilock me ip s2) (\<lambda>s3.
            obind (readi me kcout ip 0 0 64 [] s3) (\<lambda>(n, bs, s4).
              if n \<noteq> 64 \<or> e_magic (elf_of bs) \<noteq> ELF_MAGIC then exec_bad sy me 0 0 (Some ip) s4
              else
                obind (vm_get (proc_pagetable sy (p_trapframe (procs s4 p))) s4) (\<lambda>(pagetable, s5).
                  if pagetable = 0 then exec_bad sy me 0 0 (Some ip) s5
                  else
                    obind (load_segments sy me pagetable ip (ucast (e_phoff (elf_of bs))) 0 (unat (e_phnum (elf_of bs))) s5) (\<lambda>(ok, sz, s6).
                      if \<not> ok then exec_bad sy me pagetable sz (Some ip) s6
                      else
                        obind (iunlockput me ip s6) (\<lambda>s7.
                        obind (end_op me s7) (\<lambda>s8.
                        exec_commit sy p path argv pagetable sz (e_entry (elf_of bs)) s8)))))))))"

section \<open>sys_exec\<close>

text \<open>
  The loop of \<open>sys_exec\<close> over the user's argument vector from index \<open>i\<close>, \<open>k\<close> entries of \<open>argv\<close> left:
  whether it reached the null pointer, with the pages allocated and the strings fetched so far.
\<close>

fun fetch_args :: "nat \<Rightarrow> u64 \<Rightarrow> nat \<Rightarrow> nat \<Rightarrow> u64 list \<Rightarrow> u8 list list \<Rightarrow> kstate \<Rightarrow> bool \<times> u64 list \<times> u8 list list \<times> kstate" where
  "fetch_args p uargv i 0 pages args s = (False, pages, args, s)"
| "fetch_args p uargv i (Suc k) pages args s =
     (case fetchaddr p (uargv + 8 * of_nat i) s of
        None \<Rightarrow> (False, pages, args, s)
      | Some uarg \<Rightarrow>
          if uarg = 0 then (True, pages, args, s)
          else
            let (pg, s1) = kalloc_k s in
            if pg = 0 then (False, pages, args, s1)
            else
              (case fetchstr p uarg 4096 s1 of
                 None \<Rightarrow> (False, pages @ [pg], args, s1)
               | Some arg \<Rightarrow> fetch_args p uargv (Suc i) k (pages @ [pg]) (args @ [arg]) s1))"

fun kfree_all :: "syms \<Rightarrow> u64 list \<Rightarrow> kstate \<Rightarrow> kstate outcome" where
  "kfree_all sy [] s = Ok s"
| "kfree_all sy (pg # pgs) s = obind (vm_do (kfree (sy_end sy) pg) s) (\<lambda>s1. kfree_all sy pgs s1)"

definition sys_exec :: "syms \<Rightarrow> nat \<Rightarrow> kstate \<Rightarrow> sysres" where
  "sys_exec sy p s =
     obind (argstr p 0 MAXPATH s) (\<lambda>a.
       case a of None \<Rightarrow> ret (-1) s
       | Some path \<Rightarrow>
           obind (argaddr p 1 s) (\<lambda>uargv.
             let (ok, pages, args, s1) = fetch_args p uargv 0 MAXARG [] [] s in
             if \<not> ok then obind (kfree_all sy pages s1) (\<lambda>s2. ret (-1) s2)
             else
               obind (exec sy p path args s1) (\<lambda>(r, s2).
               obind (kfree_all sy pages s2) (\<lambda>s3. ret r s3))))"

end
