(* ===== verification/Sched.thy ===== *)
theory Sched
  imports Kstate
begin

text \<open>
  Multiprocessor scheduling: \<^verbatim>\<open>scheduler\<close>, \<^verbatim>\<open>sched\<close>, \<^verbatim>\<open>yield\<close>, \<^verbatim>\<open>sleep\<close>, \<^verbatim>\<open>wakeup\<close>, \<^verbatim>\<open>forkret\<close> and the
  locking of \<^verbatim>\<open>fork\<close>, \<^verbatim>\<open>exit\<close>, \<^verbatim>\<open>wait\<close> and \<^verbatim>\<open>kill\<close> of \<^verbatim>\<open>kernel/proc.c\<close>, with the sleep locks of
  \<^verbatim>\<open>kernel/sleeplock.c\<close> as the users of \<^verbatim>\<open>sleep\<close> and \<^verbatim>\<open>wakeup\<close>. Where the other theories run one system call
  at a time, here every CPU executes its kernel thread or its scheduler one step at a time, in any
  interleaving with the other CPUs: a step is one \<open>acquire\<close> or \<open>release\<close> (the functions of
  \<^verbatim>\<open>kernel/spinlock.c\<close>), one access to shared data, one call of \<^verbatim>\<open>sched\<close> or one context switch. A
  thread is a location in the code of the routines; \<open>code\<close> gives the instruction at each location.
  Only the fields these routines decide on are kept: process state, channel, parent and saved
  context. Timer interrupts arrive at any location where interrupts are on.
\<close>

section \<open>Threads\<close>

datatype lockid = PLock nat | SLock nat

datatype schan = WaitCh nat | SleepCh nat

text \<open>
  Locations, one type for each routine, named by what comes next. \<open>acquiresleep\<close> includes the \<open>sleep\<close> it
  calls and \<open>releasesleep\<close> the \<open>wakeup\<close>. Numbers are loop indices over the process table; the locations of
  \<open>exit\<close> carry the variable \<^verbatim>\<open>original_parent\<close>.
\<close>

datatype yieldloc = YAcq | YSet | YSched | YRel

datatype acqloc =
    AsAcq | AsTest | AsRel
  | SlAcq | SlRel | SlSet | SlSched | SlWake | SlRelP | SlReacq

datatype relloc = RsAcq | RsSet | WkAcq nat | WkTest nat | WkRel nat | RsRel

datatype waitloc =
    WtAcq | WtScan nat bool | WtChild nat | WtTest nat | WtRelC nat | WtRelF nat | WtRel
  | WtSet | WtSched | WtWake

datatype exitloc =
    ExStart | ExInit | ExWakeInit | ExRelInit | ExOwn | ExRead | ExRelOwn nat | ExPar nat | ExSelf nat
  | ExRep nat nat | ExRepAcq nat nat | ExRepSet nat nat | ExRepRel nat nat | ExSet nat | ExRelPar nat
  | ExSched | ExDead

datatype scanloc = TabAcq nat | TabTest nat | TabRel nat | TabDone nat

text \<open>
  \<open>Outside\<close> is any other code of the process; \<open>Yield\<close> carries the place it returns to, \<open>KtRet l\<close> is the
  return from a timer interrupt at \<open>l\<close>; sleep locks are numbers.
\<close>

datatype ploc =
    Outside
  | Yield yieldloc ploc
  | KtRet ploc
  | AcqSleep nat acqloc
  | RelSleep nat relloc
  | Wait waitloc
  | Exit exitloc
  | Fork scanloc
  | Kill scanloc
  | Forkret

text \<open>
  A saved kernel context: whose stack it is on, where it resumes, and the local variable \<^verbatim>\<open>intena\<close>
  of \<^verbatim>\<open>sched\<close>, which a context that starts in \<^verbatim>\<open>forkret\<close> does not have.
\<close>

record sctx =
  k_thr :: nat
  k_loc :: ploc
  k_intena :: "bool option"

record sdata =
  d_state :: "nat \<Rightarrow> procstate"
  d_chan :: "nat \<Rightarrow> schan option"
  d_parent :: "nat \<Rightarrow> nat option"
  d_ctx :: "nat \<Rightarrow> sctx"
  d_slk :: "nat \<Rightarrow> sleeplock"

datatype instr =
    Acquire lockid ploc
  | Release lockid ploc
  | Goto ploc sdata
  | Hold lockid string ploc sdata
  | IntrOn ploc
  | CallSched ploc
  | Halt string

datatype syscl = CAcquireSleep nat | CReleaseSleep nat | CWait | CExit | CFork | CKill | CYield

definition set_state :: "nat \<Rightarrow> procstate \<Rightarrow> sdata \<Rightarrow> sdata" where
  "set_state p st d = d\<lparr>d_state := (d_state d)(p := st)\<rparr>"

text \<open>
  The test and update \<open>wakeup\<close> makes for one process, and \<open>wakeup1\<close> after its check that the caller
  holds the lock of the process. That check is the instruction \<open>Hold\<close>, which panics if it fails.
\<close>

definition wake_if :: "nat \<Rightarrow> schan \<Rightarrow> sdata \<Rightarrow> sdata" where
  "wake_if k ch d =
     (if d_state d k = SLEEPING \<and> d_chan d k = Some ch then set_state k RUNNABLE d else d)"

text \<open>\<^verbatim>\<open>initproc\<close> is the first slot of the table.\<close>

definition INIT :: nat where "INIT = 0"

text \<open>
  The instructions of process \<open>p\<close>, routine by routine. \<open>b\<close> stands for the outcome of tests on data
  not kept here: whether \<^verbatim>\<open>copyout\<close> failed or \<^verbatim>\<open>p->killed\<close> is set in \<open>wait\<close>, whether memory ran out
  in \<open>fork\<close>, whether the pid matches in \<open>kill\<close>.
\<close>

fun yield_code :: "nat \<Rightarrow> yieldloc \<Rightarrow> ploc \<Rightarrow> sdata \<Rightarrow> instr" where
  "yield_code p YAcq l d = Acquire (PLock p) (Yield YSet l)"
| "yield_code p YSet l d = Goto (Yield YSched l) (set_state p RUNNABLE d)"
| "yield_code p YSched l d = CallSched (Yield YRel l)"
| "yield_code p YRel l d = Release (PLock p) l"

fun acqsleep_code :: "nat \<Rightarrow> nat \<Rightarrow> acqloc \<Rightarrow> sdata \<Rightarrow> instr" where
  "acqsleep_code p c AsAcq d = Acquire (SLock c) (AcqSleep c AsTest)"
| "acqsleep_code p c AsTest d =
     (if sl_locked (d_slk d c) then Goto (AcqSleep c SlAcq) d
      else Goto (AcqSleep c AsRel)
        (d\<lparr>d_slk := (d_slk d)(c := (d_slk d c)\<lparr>sl_locked := True, sl_pid := int p\<rparr>)\<rparr>))"
| "acqsleep_code p c AsRel d = Release (SLock c) Outside"
| "acqsleep_code p c SlAcq d = Acquire (PLock p) (AcqSleep c SlRel)"
| "acqsleep_code p c SlRel d = Release (SLock c) (AcqSleep c SlSet)"
| "acqsleep_code p c SlSet d = Goto (AcqSleep c SlSched)
     (set_state p SLEEPING (d\<lparr>d_chan := (d_chan d)(p := Some (SleepCh c))\<rparr>))"
| "acqsleep_code p c SlSched d = CallSched (AcqSleep c SlWake)"
| "acqsleep_code p c SlWake d = Goto (AcqSleep c SlRelP) (d\<lparr>d_chan := (d_chan d)(p := None)\<rparr>)"
| "acqsleep_code p c SlRelP d = Release (PLock p) (AcqSleep c SlReacq)"
| "acqsleep_code p c SlReacq d = Acquire (SLock c) (AcqSleep c AsTest)"

fun relsleep_code :: "nat \<Rightarrow> nat \<Rightarrow> relloc \<Rightarrow> sdata \<Rightarrow> instr" where
  "relsleep_code p c RsAcq d = Acquire (SLock c) (RelSleep c RsSet)"
| "relsleep_code p c RsSet d =
     Goto (RelSleep c (WkAcq 0)) (d\<lparr>d_slk := (d_slk d)(c := releasesleep (d_slk d c))\<rparr>)"
| "relsleep_code p c (WkAcq k) d = Acquire (PLock k) (RelSleep c (WkTest k))"
| "relsleep_code p c (WkTest k) d = Goto (RelSleep c (WkRel k)) (wake_if k (SleepCh c) d)"
| "relsleep_code p c (WkRel k) d =
     Release (PLock k) (RelSleep c (if Suc k < NPROC then WkAcq (Suc k) else RsRel))"
| "relsleep_code p c RsRel d = Release (SLock c) Outside"

fun wait_code :: "bool \<Rightarrow> nat \<Rightarrow> waitloc \<Rightarrow> sdata \<Rightarrow> instr" where
  "wait_code b p WtAcq d = Acquire (PLock p) (Wait (WtScan 0 False))"
| "wait_code b p (WtScan k havekids) d =
     (if k < NPROC then
        if d_parent d k = Some p then Goto (Wait (WtChild k)) d
        else Goto (Wait (WtScan (Suc k) havekids)) d
      else if \<not> havekids \<or> b then Goto (Wait WtRel) d
      else Goto (Wait WtSet) d)"
| "wait_code b p (WtChild k) d = Acquire (PLock k) (Wait (WtTest k))"
| "wait_code b p (WtTest k) d =
     (if d_state d k = ZOMBIE then
        if b then Goto (Wait (WtRelF k)) d
        else Goto (Wait (WtRelF k)) (set_state k UNUSED
          (d\<lparr>d_parent := (d_parent d)(k := None), d_chan := (d_chan d)(k := None)\<rparr>))
      else Goto (Wait (WtRelC k)) d)"
| "wait_code b p (WtRelC k) d = Release (PLock k) (Wait (WtScan (Suc k) True))"
| "wait_code b p (WtRelF k) d = Release (PLock k) (Wait WtRel)"
| "wait_code b p WtRel d = Release (PLock p) Outside"
| "wait_code b p WtSet d = Goto (Wait WtSched)
     (set_state p SLEEPING (d\<lparr>d_chan := (d_chan d)(p := Some (WaitCh p))\<rparr>))"
| "wait_code b p WtSched d = CallSched (Wait WtWake)"
| "wait_code b p WtWake d = Goto (Wait (WtScan 0 False)) (d\<lparr>d_chan := (d_chan d)(p := None)\<rparr>)"

text \<open>
  \<open>exit\<close> closes the files of the process between the test for the first process and \<open>ExInit\<close>; those
  calls use their own locks and are left out here.
\<close>

fun exit_code :: "nat \<Rightarrow> exitloc \<Rightarrow> sdata \<Rightarrow> instr" where
  "exit_code p ExStart d = (if p = INIT then Halt ''init exiting'' else Goto (Exit ExInit) d)"
| "exit_code p ExInit d = Acquire (PLock INIT) (Exit ExWakeInit)"
| "exit_code p ExWakeInit d =
     Hold (PLock INIT) ''wakeup1'' (Exit ExRelInit) (wake_if INIT (WaitCh INIT) d)"
| "exit_code p ExRelInit d = Release (PLock INIT) (Exit ExOwn)"
| "exit_code p ExOwn d = Acquire (PLock p) (Exit ExRead)"
| "exit_code p ExRead d =
     (case d_parent d p of None \<Rightarrow> Halt ''kerneltrap'' | Some q \<Rightarrow> Goto (Exit (ExRelOwn q)) d)"
| "exit_code p (ExRelOwn q) d = Release (PLock p) (Exit (ExPar q))"
| "exit_code p (ExPar q) d = Acquire (PLock q) (Exit (ExSelf q))"
| "exit_code p (ExSelf q) d = Acquire (PLock p) (Exit (ExRep q 0))"
| "exit_code p (ExRep q k) d =
     (if k < NPROC then
        if d_parent d k = Some p then Goto (Exit (ExRepAcq q k)) d
        else Goto (Exit (ExRep q (Suc k))) d
      else Goto (Exit (ExSet q)) d)"
| "exit_code p (ExRepAcq q k) d = Acquire (PLock k) (Exit (ExRepSet q k))"
| "exit_code p (ExRepSet q k) d =
     Goto (Exit (ExRepRel q k)) (d\<lparr>d_parent := (d_parent d)(k := Some INIT)\<rparr>)"
| "exit_code p (ExRepRel q k) d = Release (PLock k) (Exit (ExRep q (Suc k)))"
| "exit_code p (ExSet q) d =
     Hold (PLock q) ''wakeup1'' (Exit (ExRelPar q)) (set_state p ZOMBIE (wake_if q (WaitCh q) d))"
| "exit_code p (ExRelPar q) d = Release (PLock q) (Exit ExSched)"
| "exit_code p ExSched d = CallSched (Exit ExDead)"
| "exit_code p ExDead d = Halt ''zombie exit''"

text \<open>\<open>fork\<close> holds the lock of the slot \<open>allocproc\<close> found until the child is runnable.\<close>

fun fork_code :: "bool \<Rightarrow> nat \<Rightarrow> scanloc \<Rightarrow> sdata \<Rightarrow> instr" where
  "fork_code b p (TabAcq k) d = Acquire (PLock k) (Fork (TabTest k))"
| "fork_code b p (TabTest k) d =
     (if d_state d k \<noteq> UNUSED then Goto (Fork (TabRel k)) d
      else if b then Goto (Fork (TabDone k)) d
      else Goto (Fork (TabDone k)) (set_state k RUNNABLE (d\<lparr>d_parent := (d_parent d)(k := Some p),
        d_ctx := (d_ctx d)(k := \<lparr>k_thr = k, k_loc = Forkret, k_intena = None\<rparr>)\<rparr>)))"
| "fork_code b p (TabRel k) d =
     Release (PLock k) (if Suc k < NPROC then Fork (TabAcq (Suc k)) else Outside)"
| "fork_code b p (TabDone k) d = Release (PLock k) Outside"

fun kill_code :: "bool \<Rightarrow> nat \<Rightarrow> scanloc \<Rightarrow> sdata \<Rightarrow> instr" where
  "kill_code b p (TabAcq k) d = Acquire (PLock k) (Kill (TabTest k))"
| "kill_code b p (TabTest k) d =
     (if b then Goto (Kill (TabDone k)) (if d_state d k = SLEEPING then set_state k RUNNABLE d else d)
      else Goto (Kill (TabRel k)) d)"
| "kill_code b p (TabRel k) d =
     Release (PLock k) (if Suc k < NPROC then Kill (TabAcq (Suc k)) else Outside)"
| "kill_code b p (TabDone k) d = Release (PLock k) Outside"

text \<open>
  At \<open>Outside\<close> the process calls one of the routines; a sleep lock is released by its holder only, as
  the callers of \<^verbatim>\<open>releasesleep\<close> check.
\<close>

definition call_loc :: "syscl \<Rightarrow> nat \<Rightarrow> sdata \<Rightarrow> ploc" where
  "call_loc cl p d =
     (case cl of
        CAcquireSleep c \<Rightarrow> AcqSleep c AsAcq
      | CReleaseSleep c \<Rightarrow> if holdingsleep (int p) (d_slk d c) then RelSleep c RsAcq else Outside
      | CWait \<Rightarrow> Wait WtAcq
      | CExit \<Rightarrow> Exit ExStart
      | CFork \<Rightarrow> Fork (TabAcq 0)
      | CKill \<Rightarrow> Kill (TabAcq 0)
      | CYield \<Rightarrow> Yield YAcq Outside)"

fun code :: "syscl \<Rightarrow> bool \<Rightarrow> nat \<Rightarrow> ploc \<Rightarrow> sdata \<Rightarrow> instr" where
  "code cl b p Outside d = Goto (call_loc cl p d) d"
| "code cl b p (Yield y l) d = yield_code p y l d"
| "code cl b p (KtRet l) d = IntrOn l"
| "code cl b p (AcqSleep c l) d = acqsleep_code p c l d"
| "code cl b p (RelSleep c l) d = relsleep_code p c l d"
| "code cl b p (Wait l) d = wait_code b p l d"
| "code cl b p (Exit l) d = exit_code p l d"
| "code cl b p (Fork l) d = fork_code b p l d"
| "code cl b p (Kill l) d = kill_code b p l d"
| "code cl b p Forkret d = Release (PLock p) Outside"

section \<open>CPUs\<close>

text \<open>
  A CPU is in its scheduler loop, with loop index \<open>p\<close>, or runs the kernel thread of a process at a
  location. \<open>s_proc\<close> is \<^verbatim>\<open>c->proc\<close>, which \<^verbatim>\<open>myproc()\<close> returns; \<open>s_idx\<close> is the loop variable in the
  scheduler's saved context \<^verbatim>\<open>c->context\<close>.
\<close>

datatype cpc =
    SchedTop | SchedAcq nat | SchedTest nat | SchedBack nat | SchedRel nat
  | Thr nat ploc

record ssys =
  s_lock :: "lockid \<Rightarrow> spinlock"
  s_cpu :: "nat \<Rightarrow> cpu"
  s_proc :: "nat \<Rightarrow> nat option"
  s_idx :: "nat \<Rightarrow> nat"
  s_pc :: "nat \<Rightarrow> cpc"
  s_data :: sdata

definition set_pc :: "nat \<Rightarrow> cpc \<Rightarrow> ssys \<Rightarrow> ssys" where
  "set_pc i c s = s\<lparr>s_pc := (s_pc s)(i := c)\<rparr>"

definition do_acquire :: "nat \<Rightarrow> lockid \<Rightarrow> cpc \<Rightarrow> ssys \<Rightarrow> ssys outcome" where
  "do_acquire i L c s =
     obind (acquire i (s_lock s L, s_cpu s i)) (\<lambda>(lk, cp).
       Ok (set_pc i c (s\<lparr>s_lock := (s_lock s)(L := lk), s_cpu := (s_cpu s)(i := cp)\<rparr>)))"

definition do_release :: "nat \<Rightarrow> lockid \<Rightarrow> cpc \<Rightarrow> ssys \<Rightarrow> ssys outcome" where
  "do_release i L c s =
     obind (release i (s_lock s L, s_cpu s i)) (\<lambda>(lk, cp).
       Ok (set_pc i c (s\<lparr>s_lock := (s_lock s)(L := lk), s_cpu := (s_cpu s)(i := cp)\<rparr>)))"

definition set_intr :: "nat \<Rightarrow> bool \<Rightarrow> ssys \<Rightarrow> ssys" where
  "set_intr i on s = s\<lparr>s_cpu := (s_cpu s)(i := (s_cpu s i)\<lparr>intr_on := on\<rparr>)\<rparr>"

text \<open>
  \<open>sched\<close> by process \<open>p\<close> on the stack of thread \<open>t\<close>: the four checks, then \<^verbatim>\<open>swtch\<close> saves the context in
  \<^verbatim>\<open>p->context\<close> and resumes the scheduler. The restored \<^verbatim>\<open>intena\<close> is applied when the thread is resumed.
\<close>

definition sched :: "nat \<Rightarrow> nat \<Rightarrow> nat \<Rightarrow> ploc \<Rightarrow> ssys \<Rightarrow> ssys outcome" where
  "sched i p t l s =
     (if \<not> holding i (s_lock s (PLock p)) then Panic ''sched p->lock''
      else if noff (s_cpu s i) \<noteq> 1 then Panic ''sched locks''
      else if d_state (s_data s) p = RUNNING then Panic ''sched running''
      else if intr_on (s_cpu s i) then Panic ''sched interruptible''
      else
        let ctx = \<lparr>k_thr = t, k_loc = l, k_intena = Some (intena (s_cpu s i))\<rparr>;
            d = s_data s
        in Ok (set_pc i (SchedBack (s_idx s i)) (s\<lparr>s_data := d\<lparr>d_ctx := (d_ctx d)(p := ctx)\<rparr>\<rparr>)))"

definition thread_step :: "syscl \<Rightarrow> bool \<Rightarrow> nat \<Rightarrow> nat \<Rightarrow> ploc \<Rightarrow> ssys \<Rightarrow> ssys outcome" where
  "thread_step cl b i t l s =
     (case s_proc s i of
        None \<Rightarrow> Panic ''kerneltrap''
      | Some p \<Rightarrow>
          (case code cl b p l (s_data s) of
             Acquire L l' \<Rightarrow> do_acquire i L (Thr t l') s
           | Release L l' \<Rightarrow> do_release i L (Thr t l') s
           | Goto l' d' \<Rightarrow> Ok (set_pc i (Thr t l') (s\<lparr>s_data := d'\<rparr>))
           | Hold L m l' d' \<Rightarrow>
               if holding i (s_lock s L) then Ok (set_pc i (Thr t l') (s\<lparr>s_data := d'\<rparr>)) else Panic m
           | IntrOn l' \<Rightarrow> Ok (set_pc i (Thr t l') (set_intr i True s))
           | CallSched l' \<Rightarrow> sched i p t l' s
           | Halt m \<Rightarrow> Panic m))"

text \<open>
  A timer interrupt: \<open>kerneltrap\<close> runs with interrupts off and calls \<open>yield\<close> if a process is running.
\<close>

definition timer :: "nat \<Rightarrow> nat \<Rightarrow> ploc \<Rightarrow> ssys \<Rightarrow> ssys outcome" where
  "timer i t l s =
     (case s_proc s i of
        Some p \<Rightarrow>
          if d_state (s_data s) p = RUNNING
          then Ok (set_pc i (Thr t (Yield YAcq (KtRet l))) (set_intr i False s))
          else Ok s
      | None \<Rightarrow> Ok s)"

text \<open>The scheduler loop; \<open>wfi\<close> at its end only waits for an interrupt.\<close>

fun scheduler_step :: "nat \<Rightarrow> cpc \<Rightarrow> ssys \<Rightarrow> ssys outcome" where
  "scheduler_step i SchedTop s = Ok (set_pc i (SchedAcq 0) (set_intr i True s))"
| "scheduler_step i (SchedAcq p) s = do_acquire i (PLock p) (SchedTest p) s"
| "scheduler_step i (SchedTest p) s =
     (if d_state (s_data s) p = RUNNABLE then
        let ctx = d_ctx (s_data s) p;
            s1 = s\<lparr>s_data := set_state p RUNNING (s_data s), s_proc := (s_proc s)(i := Some p),
                   s_idx := (s_idx s)(i := p)\<rparr>;
            s2 = (case k_intena ctx of
                    None \<Rightarrow> s1
                  | Some b \<Rightarrow> s1\<lparr>s_cpu := (s_cpu s1)(i := (s_cpu s1 i)\<lparr>intena := b\<rparr>)\<rparr>)
        in Ok (set_pc i (Thr (k_thr ctx) (k_loc ctx)) s2)
      else Ok (set_pc i (SchedRel p) s))"
| "scheduler_step i (SchedBack p) s = Ok (set_pc i (SchedRel p) (s\<lparr>s_proc := (s_proc s)(i := None)\<rparr>))"
| "scheduler_step i (SchedRel p) s =
     do_release i (PLock p) (if Suc p < NPROC then SchedAcq (Suc p) else SchedTop) s"
| "scheduler_step i (Thr t l) s = Ok s"

text \<open>One step of CPU \<open>i\<close>; \<open>intr\<close> tells whether a timer interrupt is pending.\<close>

definition cpu_step :: "bool \<Rightarrow> syscl \<Rightarrow> bool \<Rightarrow> nat \<Rightarrow> ssys \<Rightarrow> ssys outcome" where
  "cpu_step intr cl b i s =
     (case s_pc s i of
        Thr t l \<Rightarrow>
          if intr \<and> intr_on (s_cpu s i) then timer i t l s else thread_step cl b i t l s
      | c \<Rightarrow> scheduler_step i c s)"

text \<open>The state when the CPUs enter their schedulers: \<open>userinit\<close> has made the first process runnable.\<close>

definition boot :: ssys where
  "boot = \<lparr>s_lock = (\<lambda>_. initlock), s_cpu = (\<lambda>_. \<lparr>intr_on = False, noff = 0, intena = False\<rparr>),
     s_proc = (\<lambda>_. None), s_idx = (\<lambda>_. 0), s_pc = (\<lambda>_. SchedTop),
     s_data = \<lparr>d_state = (\<lambda>p. if p = INIT then RUNNABLE else UNUSED), d_chan = (\<lambda>_. None),
       d_parent = (\<lambda>_. None),
       d_ctx = (\<lambda>p. \<lparr>k_thr = p, k_loc = Forkret, k_intena = None\<rparr>),
       d_slk = (\<lambda>_. \<lparr>sl_locked = False, sl_pid = 0\<rparr>)\<rparr>\<rparr>"

inductive sched_reach :: "ssys \<Rightarrow> bool" where
  reach_boot: "sched_reach boot"
| reach_step: "sched_reach s \<Longrightarrow> cpu_step intr cl b i s = Ok s' \<Longrightarrow> sched_reach s'"

end
