(* ===== verification/Sched_Inv.thy ===== *)
theory Sched_Inv
  imports Sched
begin

text \<open>
  The invariant of the scheduling machine of \<open>Sched\<close>. Every location is annotated with the locks held
  there (\<open>held\<close>), the state of the process (\<open>st_at\<close>) and an assertion on the shared data (\<open>lok\<close>). The
  proofs follow Owicki and Gries: each instruction establishes the annotation of the next location,
  and no instruction of another process invalidates it, because the locks held at both locations
  are disjoint.
\<close>

section \<open>Annotations\<close>

fun acq_held :: "nat \<Rightarrow> nat \<Rightarrow> acqloc \<Rightarrow> lockid set" where
  "acq_held p c AsAcq = {}"
| "acq_held p c AsTest = {SLock c}"
| "acq_held p c AsRel = {SLock c}"
| "acq_held p c SlAcq = {SLock c}"
| "acq_held p c SlRel = {SLock c, PLock p}"
| "acq_held p c SlReacq = {}"
| "acq_held p c _ = {PLock p}"

fun rel_held :: "nat \<Rightarrow> relloc \<Rightarrow> lockid set" where
  "rel_held c RsAcq = {}"
| "rel_held c (WkTest k) = {SLock c, PLock k}"
| "rel_held c (WkRel k) = {SLock c, PLock k}"
| "rel_held c _ = {SLock c}"

fun wait_held :: "nat \<Rightarrow> waitloc \<Rightarrow> lockid set" where
  "wait_held p WtAcq = {}"
| "wait_held p (WtTest k) = {PLock p, PLock k}"
| "wait_held p (WtRelC k) = {PLock p, PLock k}"
| "wait_held p (WtRelF k) = {PLock p, PLock k}"
| "wait_held p _ = {PLock p}"

fun exit_held :: "nat \<Rightarrow> exitloc \<Rightarrow> lockid set" where
  "exit_held p ExStart = {}"
| "exit_held p ExInit = {}"
| "exit_held p ExWakeInit = {PLock INIT}"
| "exit_held p ExRelInit = {PLock INIT}"
| "exit_held p ExOwn = {}"
| "exit_held p (ExPar q) = {}"
| "exit_held p (ExSelf q) = {PLock q}"
| "exit_held p (ExRep q k) = {PLock q, PLock p}"
| "exit_held p (ExRepAcq q k) = {PLock q, PLock p}"
| "exit_held p (ExRepSet q k) = {PLock q, PLock p, PLock k}"
| "exit_held p (ExRepRel q k) = {PLock q, PLock p, PLock k}"
| "exit_held p (ExSet q) = {PLock q, PLock p}"
| "exit_held p (ExRelPar q) = {PLock q, PLock p}"
| "exit_held p _ = {PLock p}"

fun scan_held :: "scanloc \<Rightarrow> lockid set" where
  "scan_held (TabAcq k) = {}"
| "scan_held (TabTest k) = {PLock k}"
| "scan_held (TabRel k) = {PLock k}"
| "scan_held (TabDone k) = {PLock k}"

fun held :: "nat \<Rightarrow> ploc \<Rightarrow> lockid set" where
  "held p Outside = {}"
| "held p (Yield y l) = (if y = YAcq then {} else {PLock p})"
| "held p (KtRet l) = {}"
| "held p (AcqSleep c l) = acq_held p c l"
| "held p (RelSleep c l) = rel_held c l"
| "held p (Wait l) = wait_held p l"
| "held p (Exit l) = exit_held p l"
| "held p (Fork l) = scan_held l"
| "held p (Kill l) = scan_held l"
| "held p Forkret = {PLock p}"

text \<open>The state of the process at a location its thread is executing.\<close>

fun st_at :: "ploc \<Rightarrow> procstate" where
  "st_at (Yield y l) = (if y = YSched then RUNNABLE else RUNNING)"
| "st_at (AcqSleep c l) = (if l = SlSched then SLEEPING else RUNNING)"
| "st_at (Wait l) = (if l = WtSched then SLEEPING else RUNNING)"
| "st_at (Exit l) = (case l of ExRelPar q \<Rightarrow> ZOMBIE | ExSched \<Rightarrow> ZOMBIE | _ \<Rightarrow> RUNNING)"
| "st_at _ = RUNNING"

text \<open>No child of \<open>t\<close> below \<open>k\<close> is a zombie (the first process inherits zombies at any time).\<close>

definition no_zombie :: "nat \<Rightarrow> nat \<Rightarrow> sdata \<Rightarrow> bool" where
  "no_zombie t k d \<longleftrightarrow> t = INIT \<or> (\<forall>j<k. d_parent d j = Some t \<longrightarrow> d_state d j \<noteq> ZOMBIE)"

definition childless :: "nat \<Rightarrow> nat \<Rightarrow> sdata \<Rightarrow> bool" where
  "childless t k d \<longleftrightarrow> (\<forall>j<k. d_parent d j \<noteq> Some t)"

text \<open>\<open>q\<close> may be locked as the parent of \<open>t\<close>.\<close>

definition par_ok :: "nat \<Rightarrow> nat \<Rightarrow> sdata \<Rightarrow> bool" where
  "par_ok t q d \<longleftrightarrow> q \<noteq> t \<and> d_parent d q \<noteq> Some t \<and> (d_parent d t = Some q \<or> d_parent d t = Some INIT)"

fun rel_ok :: "relloc \<Rightarrow> bool" where
  "rel_ok (WkAcq k) = (k < NPROC)"
| "rel_ok (WkTest k) = (k < NPROC)"
| "rel_ok (WkRel k) = (k < NPROC)"
| "rel_ok _ = True"

fun wait_ok :: "nat \<Rightarrow> waitloc \<Rightarrow> sdata \<Rightarrow> bool" where
  "wait_ok t (WtScan k h) d = no_zombie t k d"
| "wait_ok t (WtChild k) d = (d_parent d k = Some t \<and> no_zombie t k d)"
| "wait_ok t (WtTest k) d = (d_parent d k = Some t \<and> no_zombie t k d)"
| "wait_ok t (WtRelC k) d = (d_parent d k = Some t \<and> k \<noteq> t \<and> no_zombie t (Suc k) d)"
| "wait_ok t (WtRelF k) d = (k \<noteq> t)"
| "wait_ok t WtSet d = no_zombie t NPROC d"
| "wait_ok t _ d = True"

fun exit_ok :: "nat \<Rightarrow> exitloc \<Rightarrow> sdata \<Rightarrow> bool" where
  "exit_ok t (ExRelOwn q) d = par_ok t q d"
| "exit_ok t (ExPar q) d = par_ok t q d"
| "exit_ok t (ExSelf q) d = par_ok t q d"
| "exit_ok t (ExRep q k) d = (par_ok t q d \<and> childless t k d)"
| "exit_ok t (ExRepAcq q k) d = (par_ok t q d \<and> childless t k d \<and> d_parent d k = Some t)"
| "exit_ok t (ExRepSet q k) d = (par_ok t q d \<and> childless t k d \<and> d_parent d k = Some t)"
| "exit_ok t (ExRepRel q k) d = (par_ok t q d \<and> childless t (Suc k) d \<and> k \<noteq> t \<and> k \<noteq> q)"
| "exit_ok t (ExSet q) d = (par_ok t q d \<and> childless t NPROC d)"
| "exit_ok t (ExRelPar q) d = (q \<noteq> t)"
| "exit_ok t ExDead d = False"
| "exit_ok t _ d = True"

fun scan_ok :: "scanloc \<Rightarrow> bool" where
  "scan_ok (TabAcq k) = (k < NPROC)"
| "scan_ok (TabTest k) = (k < NPROC)"
| "scan_ok (TabRel k) = (k < NPROC)"
| "scan_ok (TabDone k) = (k < NPROC)"

fun lok :: "nat \<Rightarrow> ploc \<Rightarrow> sdata \<Rightarrow> bool" where
  "lok t (Yield y l) d = (held t l = {} \<and> st_at l = RUNNING \<and> lok t l d)"
| "lok t (KtRet l) d = (held t l = {} \<and> st_at l = RUNNING \<and> lok t l d)"
| "lok t (AcqSleep c l) d = (l = SlAcq \<or> l = SlRel \<longrightarrow> sl_locked (d_slk d c))"
| "lok t (RelSleep c l) d = rel_ok l"
| "lok t (Wait l) d = wait_ok t l d"
| "lok t (Exit l) d = ((t \<noteq> INIT \<or> l = ExStart) \<and> exit_ok t l d)"
| "lok t (Fork l) d = scan_ok l"
| "lok t (Kill l) d = scan_ok l"
| "lok t _ d = True"

definition tok :: "nat \<Rightarrow> ploc \<Rightarrow> sdata \<Rightarrow> bool" where
  "tok t l d \<longleftrightarrow> t < NPROC \<and> d_state d t = st_at l \<and> lok t l d"

text \<open>The invariant of the shared data.\<close>

definition dinv :: "sdata \<Rightarrow> bool" where
  "dinv d \<longleftrightarrow> d_parent d INIT = None \<and> d_state d INIT \<noteq> UNUSED \<and> d_state d INIT \<noteq> ZOMBIE \<and>
     (\<forall>k r. d_parent d k = Some r \<longrightarrow> k < NPROC \<and> r < NPROC \<and> k \<noteq> r \<and> d_parent d r \<noteq> Some k \<and>
        d_state d r \<noteq> UNUSED \<and> d_state d r \<noteq> ZOMBIE) \<and>
     (\<forall>k. k \<noteq> INIT \<longrightarrow> ((\<exists>r. d_parent d k = Some r) \<longleftrightarrow> d_state d k \<noteq> UNUSED)) \<and>
     (\<forall>t u. d_chan d t = Some (WaitCh u) \<longrightarrow> u = t) \<and>
     (\<forall>t k. t \<noteq> INIT \<longrightarrow> d_state d t = SLEEPING \<longrightarrow> d_chan d t = Some (WaitCh t) \<longrightarrow>
        d_parent d k = Some t \<longrightarrow> d_state d k \<noteq> ZOMBIE)"

section \<open>Locks held at each location\<close>

text \<open>Every location, one case each.\<close>

lemma loc_cases [case_names Outside YAcq YSet YSched YRel KtRet AsAcq AsTest AsRel SlAcq SlRel
    SlSet SlSched SlWake SlRelP SlReacq RsAcq RsSet WkAcq WkTest WkRel RsRel WtAcq WtScan WtChild
    WtTest WtRelC WtRelF WtRel WtSet WtSched WtWake ExStart ExInit ExWakeInit ExRelInit ExOwn ExRead
    ExRelOwn ExPar ExSelf ExRep ExRepAcq ExRepSet ExRepRel ExSet ExRelPar ExSched ExDead FkAcq
    FkTest FkRel FkDone KlAcq KlTest KlRel KlDone Forkret]:
  assumes "P Outside" "\<And>m. P (Yield YAcq m)" "\<And>m. P (Yield YSet m)"
    "\<And>m. P (Yield YSched m)" "\<And>m. P (Yield YRel m)" "\<And>m. P (KtRet m)"
    "\<And>c. P (AcqSleep c AsAcq)" "\<And>c. P (AcqSleep c AsTest)"
    "\<And>c. P (AcqSleep c AsRel)" "\<And>c. P (AcqSleep c SlAcq)"
    "\<And>c. P (AcqSleep c SlRel)" "\<And>c. P (AcqSleep c SlSet)"
    "\<And>c. P (AcqSleep c SlSched)" "\<And>c. P (AcqSleep c SlWake)"
    "\<And>c. P (AcqSleep c SlRelP)" "\<And>c. P (AcqSleep c SlReacq)"
    "\<And>c. P (RelSleep c RsAcq)" "\<And>c. P (RelSleep c RsSet)"
    "\<And>c k. P (RelSleep c (WkAcq k))" "\<And>c k. P (RelSleep c (WkTest k))"
    "\<And>c k. P (RelSleep c (WkRel k))" "\<And>c. P (RelSleep c RsRel)" "P (Wait WtAcq)"
    "\<And>k h. P (Wait (WtScan k h))" "\<And>k. P (Wait (WtChild k))"
    "\<And>k. P (Wait (WtTest k))" "\<And>k. P (Wait (WtRelC k))" "\<And>k. P (Wait (WtRelF k))"
    "P (Wait WtRel)" "P (Wait WtSet)" "P (Wait WtSched)" "P (Wait WtWake)"
    "P (Exit ExStart)" "P (Exit ExInit)"
    "P (Exit ExWakeInit)" "P (Exit ExRelInit)" "P (Exit ExOwn)" "P (Exit ExRead)"
    "\<And>q. P (Exit (ExRelOwn q))" "\<And>q. P (Exit (ExPar q))" "\<And>q. P (Exit (ExSelf q))"
    "\<And>q k. P (Exit (ExRep q k))" "\<And>q k. P (Exit (ExRepAcq q k))"
    "\<And>q k. P (Exit (ExRepSet q k))" "\<And>q k. P (Exit (ExRepRel q k))"
    "\<And>q. P (Exit (ExSet q))" "\<And>q. P (Exit (ExRelPar q))" "P (Exit ExSched)"
    "P (Exit ExDead)" "\<And>k. P (Fork (TabAcq k))" "\<And>k. P (Fork (TabTest k))"
    "\<And>k. P (Fork (TabRel k))" "\<And>k. P (Fork (TabDone k))" "\<And>k. P (Kill (TabAcq k))"
    "\<And>k. P (Kill (TabTest k))" "\<And>k. P (Kill (TabRel k))" "\<And>k. P (Kill (TabDone k))"
    "P Forkret"
  shows "P l"
proof (cases l)
  case (Yield y m) then show ?thesis using assms by (cases y) auto
next
  case (AcqSleep c m) then show ?thesis using assms by (cases m) auto
next
  case (RelSleep c m) then show ?thesis using assms by (cases m) auto
next
  case (Wait m) then show ?thesis using assms by (cases m) auto
next
  case (Exit m) then show ?thesis using assms by (cases m) auto
next
  case (Fork m) then show ?thesis using assms by (cases m) auto
next
  case (Kill m) then show ?thesis using assms by (cases m) auto
qed (use assms in auto)

lemma code_Acquire:
  assumes "code cl b p l d = Acquire L l'" and "lok p l d" and "dinv d"
  shows "held p l' = insert L (held p l) \<and> L \<notin> held p l \<and> st_at l = RUNNING \<and> st_at l' = RUNNING \<and> lok p l' d"
  using assms(1,2) assms(3) [unfolded dinv_def]
  by (induction l rule: loc_cases) (auto simp: par_ok_def childless_def no_zombie_def split: if_splits option.splits)

lemma code_Release:
  assumes "code cl b p l d = Release L l'" and "lok p l d"
  shows "held p l' = held p l - {L} \<and> L \<in> held p l \<and> st_at l' = st_at l \<and> lok p l' d"
  using assms
  by (induction l rule: loc_cases) (auto simp: par_ok_def split: if_splits option.splits)

lemma code_CallSched:
  assumes "code cl b p l d = CallSched l'"
  shows "held p l = {PLock p} \<and> st_at l \<noteq> RUNNING"
  using assms by (induction l rule: loc_cases) (auto split: if_splits option.splits)

section \<open>Instructions on shared data\<close>

text \<open>\<open>moves i l d\<close>: instruction \<open>i\<close>, if it does not panic, takes the thread to \<open>l\<close> and the data to \<open>d\<close>.\<close>

fun moves :: "instr \<Rightarrow> ploc \<Rightarrow> sdata \<Rightarrow> bool" where
  "moves (Goto l d) l' d' \<longleftrightarrow> l' = l \<and> d' = d"
| "moves (Hold L m l d) l' d' \<longleftrightarrow> l' = l \<and> d' = d"
| "moves _ _ _ \<longleftrightarrow> False"

lemma Hold_held: "code cl b p l d = Hold L m l' d' \<Longrightarrow> L \<in> held p l"
  by (induction l rule: loc_cases) (auto split: if_splits option.splits)

lemma set_state_simps [simp]:
  "d_state (set_state p st d) = (d_state d)(p := st)" "d_chan (set_state p st d) = d_chan d"
  "d_parent (set_state p st d) = d_parent d" "d_ctx (set_state p st d) = d_ctx d"
  "d_slk (set_state p st d) = d_slk d"
  by (simp_all add: set_state_def)

lemma wake_if_simps [simp]:
  "d_state (wake_if k ch d) = (d_state d)(k := if d_state d k = SLEEPING \<and> d_chan d k = Some ch
     then RUNNABLE else d_state d k)"
  "d_chan (wake_if k ch d) = d_chan d" "d_parent (wake_if k ch d) = d_parent d"
  "d_ctx (wake_if k ch d) = d_ctx d" "d_slk (wake_if k ch d) = d_slk d"
  by (auto simp: wake_if_def)

lemma Goto_held:
  assumes "moves (code cl b p l d) l' d'"
  shows "held p l' = held p l"
  using assms
  by (induction l rule: loc_cases) (auto simp: call_loc_def split: if_splits option.splits syscl.splits)

lemma dinv_parent:
  assumes "dinv d" and "d_parent d k = Some r"
  shows "k < NPROC" "r < NPROC" "k \<noteq> r" "d_parent d r \<noteq> Some k" "k \<noteq> INIT"
    "d_state d r \<noteq> UNUSED" "d_state d r \<noteq> ZOMBIE" "d_state d k \<noteq> UNUSED"
proof -
  show "k \<noteq> INIT" using assms by (auto simp: dinv_def)
  then show "d_state d k \<noteq> UNUSED" using assms by (auto simp: dinv_def)
  have "\<forall>k r. d_parent d k = Some r \<longrightarrow> k < NPROC \<and> r < NPROC \<and> k \<noteq> r \<and> d_parent d r \<noteq> Some k \<and>
        d_state d r \<noteq> UNUSED \<and> d_state d r \<noteq> ZOMBIE" using assms by (simp add: dinv_def)
  then show "k < NPROC" "r < NPROC" "k \<noteq> r" "d_parent d r \<noteq> Some k"
    "d_state d r \<noteq> UNUSED" "d_state d r \<noteq> ZOMBIE" using assms(2) by blast+
qed

lemma no_zombie_Suc:
  "no_zombie t (Suc k) d \<longleftrightarrow> no_zombie t k d \<and> (t = INIT \<or> d_parent d k \<noteq> Some t \<or> d_state d k \<noteq> ZOMBIE)"
  by (auto simp: no_zombie_def less_Suc_eq)

lemma childless_Suc: "childless t (Suc k) d \<longleftrightarrow> childless t k d \<and> d_parent d k \<noteq> Some t"
  by (auto simp: childless_def less_Suc_eq)

lemma no_zombie_0 [simp]: "no_zombie t 0 d" and childless_0 [simp]: "childless t 0 d"
  by (simp_all add: no_zombie_def childless_def)

lemma no_zombie_le: "no_zombie t k d \<Longrightarrow> j \<le> k \<Longrightarrow> no_zombie t j d"
  and childless_le: "childless t k d \<Longrightarrow> j \<le> k \<Longrightarrow> childless t j d"
  by (auto simp: no_zombie_def childless_def)

lemma lok_set_state:
  assumes "lok t l d" and "st \<noteq> ZOMBIE"
  shows "lok t l (set_state k st d)"
proof -
  have "no_zombie t j d \<Longrightarrow> no_zombie t j (set_state k st d)" for j
    using assms(2) by (auto simp: no_zombie_def)
  then have w: "wait_ok t m d \<Longrightarrow> wait_ok t m (set_state k st d)" for m by (cases m) auto
  have "exit_ok t m d \<Longrightarrow> exit_ok t m (set_state k st d)" for m
    by (cases m) (auto simp: par_ok_def childless_def)
  with w assms(1) show ?thesis by (induction l) auto
qed

lemma NPROC_pos [simp]: "0 < NPROC"
  by (simp add: NPROC_def)

lemma Goto_lok:
  assumes "moves (code cl b p l d) l' d'" and "lok p l d" and "dinv d" and "d_state d p = st_at l"
  shows "lok p l' d' \<and> d_state d' p = st_at l'"
  using assms
proof (induction l rule: loc_cases)
  case Outside
  then show ?case by (auto simp: call_loc_def split: syscl.splits)
next
  case (YSet m)
  then show ?case using lok_set_state by auto
next
  case (WtTest k)
  then have "k \<noteq> p" using dinv_parent(3) by fastforce
  with WtTest show ?case by (auto simp: no_zombie_Suc split: if_splits)
next
  case ExRead
  then show ?case using dinv_parent(3,4) [OF ExRead(3), of p] by (auto simp: par_ok_def split: option.splits)
next
  case (ExRepSet q k)
  then have "k \<noteq> p" "k \<noteq> q" using dinv_parent(3) [OF ExRepSet(3), of k p] by (auto simp: par_ok_def)
  with ExRepSet show ?case by (auto simp: par_ok_def childless_Suc childless_def)
qed (auto simp: no_zombie_Suc childless_Suc par_ok_def not_less split: if_splits
  intro: no_zombie_le childless_le)

lemma dinv_cong:
  assumes "d_state d' = d_state d" and "d_chan d' = d_chan d" and "d_parent d' = d_parent d"
  shows "dinv d' = dinv d"
  by (simp add: dinv_def assms)

text \<open>A living process changes its state, or its channel is cleared.\<close>

lemma dinv_set_state:
  assumes "dinv d" and "d_state d k \<noteq> UNUSED" "d_state d k \<noteq> ZOMBIE" and "st \<noteq> UNUSED" "st \<noteq> ZOMBIE"
    and "st = SLEEPING \<Longrightarrow> d_chan d k \<noteq> Some (WaitCh k)"
  shows "dinv (set_state k st d)"
  using assms by (auto simp: dinv_def)

lemma dinv_clear_chan:
  assumes "dinv d"
  shows "dinv (d\<lparr>d_chan := (d_chan d)(p := None)\<rparr>)"
  using assms by (auto simp: dinv_def)

lemma dinv_sleep_lock:
  assumes "dinv d" and "d_state d p = RUNNING"
  shows "dinv (set_state p SLEEPING (d\<lparr>d_chan := (d_chan d)(p := Some (SleepCh c))\<rparr>))"
  using assms by (auto simp: dinv_def)

lemma dinv_sleep_wait:
  assumes "dinv d" and "d_state d p = RUNNING" and "no_zombie p NPROC d"
  shows "dinv (set_state p SLEEPING (d\<lparr>d_chan := (d_chan d)(p := Some (WaitCh p))\<rparr>))"
proof -
  have "d_state d k \<noteq> ZOMBIE" if "d_parent d k = Some p" "p \<noteq> INIT" for k
    using that assms(3) dinv_parent(1) [OF assms(1) that(1)] by (auto simp: no_zombie_def)
  then show ?thesis using assms(1,2) by (auto simp: dinv_def)
qed

lemma dinv_wake_if: "dinv d \<Longrightarrow> dinv (wake_if k ch d)"
  unfolding wake_if_def by (auto intro: dinv_set_state)

lemma dinv_free:
  assumes "dinv d" and "d_state d k = ZOMBIE" and "d_parent d k = Some p"
  shows "dinv (set_state k UNUSED (d\<lparr>d_parent := (d_parent d)(k := None), d_chan := (d_chan d)(k := None)\<rparr>))"
  using assms dinv_parent(5) [OF assms(1,3)] by (auto simp: dinv_def)

lemma dinv_fork:
  assumes "dinv d" and "d_state d k = UNUSED" and "k < NPROC" "p < NPROC" and "d_state d p = RUNNING"
  shows "dinv (set_state k RUNNABLE (d\<lparr>d_parent := (d_parent d)(k := Some p), d_ctx := c\<rparr>))"
proof -
  have k: "k \<noteq> INIT" "k \<noteq> p" using assms by (auto simp: dinv_def)
  have nochild: "d_parent d j \<noteq> Some k" for j using dinv_parent(6) [OF assms(1)] assms(2) by blast
  show ?thesis using assms k nochild by (auto simp: dinv_def)
qed

lemma INIT_less [simp]: "INIT < NPROC"
  by (simp add: INIT_def NPROC_def)

lemma dinv_reparent:
  assumes "dinv d" and "d_parent d k = Some p" and "p \<noteq> INIT"
  shows "dinv (d\<lparr>d_parent := (d_parent d)(k := Some INIT)\<rparr>)"
proof -
  have "d_parent d j = Some k \<Longrightarrow> j \<noteq> INIT" for j using dinv_parent(5) [OF assms(1)] by blast
  then show ?thesis using assms dinv_parent(1,5,8) [OF assms(1,2)] by (auto simp: dinv_def)
qed

lemma dinv_exit:
  assumes "dinv d" and "par_ok p q d" and "childless p NPROC d" and "p \<noteq> INIT" and "d_state d p = RUNNING"
  shows "dinv (set_state p ZOMBIE (wake_if q (WaitCh q) d))"
proof -
  let ?d = "wake_if q (WaitCh q) d"
  have d: "dinv ?d" using assms(1) by (rule dinv_wake_if)
  have nochild: "d_parent d j \<noteq> Some p" for j
    using assms(3) dinv_parent(1) [OF assms(1)] by (auto simp: childless_def)
  have "d_state ?d t \<noteq> SLEEPING \<or> d_chan ?d t \<noteq> Some (WaitCh t)" if "d_parent d p = Some t" "t \<noteq> INIT" for t
    using that assms(2) by (auto simp: par_ok_def)
  moreover have "d_state ?d p \<noteq> UNUSED" using assms(5) by auto
  ultimately show ?thesis using d nochild assms(4,5) unfolding dinv_def by (auto simp del: wake_if_simps(1))
qed

lemma Goto_dinv:
  assumes "moves (code cl b p l d) l' d'" and "lok p l d" and "dinv d" and "d_state d p = st_at l" and "p < NPROC"
  shows "dinv d'"
  using assms
proof (induction l rule: loc_cases)
  case (YSet m)
  then show ?case by (auto intro: dinv_set_state)
next
  case (KlTest k)
  then show ?case by (auto intro: dinv_set_state split: if_splits)
qed (auto intro: dinv_clear_chan dinv_sleep_lock dinv_sleep_wait dinv_wake_if dinv_free dinv_fork
  dinv_reparent dinv_exit simp: dinv_cong [of "d_slk_update _ _"] split: if_splits option.splits)

section \<open>Interference\<close>

text \<open>What an instruction of \<open>p\<close> does to the data other processes rely on.\<close>

lemma Goto_state:
  assumes "moves (code cl b p l d) l' d'" and "t \<noteq> p" and "d_state d' t \<noteq> d_state d t"
  shows "PLock t \<in> held p l \<and> d_state d t \<noteq> RUNNING \<and> d_state d t \<noteq> RUNNABLE \<and> d_state d' t \<noteq> RUNNING"
  using assms
  by (induction l rule: loc_cases) (auto split: if_splits option.splits)

lemma Goto_slk:
  assumes "moves (code cl b p l d) l' d'" and "d_slk d' c \<noteq> d_slk d c"
  shows "SLock c \<in> held p l"
  using assms by (induction l rule: loc_cases) (auto split: if_splits option.splits)

lemma Goto_parent:
  assumes "moves (code cl b p l d) l' d'" and "lok p l d" and "dinv d" and "d_parent d k = Some t" and "t \<noteq> p"
  shows "d_parent d' k = Some t"
  using assms
proof (induction l rule: loc_cases)
  case (FkTest j)
  then show ?case using dinv_parent(8) [OF FkTest(3,4)] by (auto split: if_splits)
qed (auto split: if_splits option.splits)

lemma Goto_new_parent:
  assumes "moves (code cl b p l d) l' d'" and "d_parent d' k = Some t" and "t \<noteq> p" and "t \<noteq> INIT"
  shows "d_parent d k = Some t"
  using assms by (induction l rule: loc_cases) (auto split: if_splits option.splits)

lemma Goto_own_parent:
  assumes "moves (code cl b p l d) l' d'" and "lok p l d" and "dinv d" and "d_parent d t = Some r"
    and "d_state d t \<noteq> ZOMBIE"
  shows "d_parent d' t = Some r \<or> d_parent d' t = Some INIT"
  using assms
proof (induction l rule: loc_cases)
  case (FkTest j)
  then show ?case using dinv_parent(8) [OF FkTest(3,4)] by (auto split: if_splits)
qed (auto split: if_splits option.splits)

lemma Goto_zombie:
  assumes "moves (code cl b p l d) l' d'" and "lok p l d" and "t \<noteq> p" "t \<noteq> INIT"
    and "d_parent d' j = Some t" and "d_state d' j = ZOMBIE" and "PLock t \<notin> held p l"
  shows "d_state d j = ZOMBIE"
  using assms by (induction l rule: loc_cases) (auto simp: par_ok_def split: if_splits option.splits)

lemma st_at_held: "st_at m \<noteq> RUNNING \<Longrightarrow> PLock t \<in> held t m"
  by (induction m rule: loc_cases) auto

lemma no_zombie_other:
  assumes "moves (code cl b p l d) l' d'" and "lok p l d" and "t \<noteq> p" and "PLock t \<notin> held p l"
    and "no_zombie t k d"
  shows "no_zombie t k d'"
  using assms Goto_zombie [OF assms(1-3)] Goto_new_parent [OF assms(1) _ assms(3)]
  by (auto simp: no_zombie_def)

lemma childless_other:
  assumes "moves (code cl b p l d) l' d'" and "t \<noteq> p" and "t \<noteq> INIT" and "childless t k d"
  shows "childless t k d'"
  using assms Goto_new_parent [OF assms(1) _ assms(2,3)] by (auto simp: childless_def)

lemma par_ok_other:
  assumes "moves (code cl b p l d) l' d'" and "lok p l d" and "dinv d" and "t \<noteq> p" and "t \<noteq> INIT"
    and "d_state d t \<noteq> ZOMBIE" and "par_ok t q d"
  shows "par_ok t q d'"
  using assms(7) Goto_own_parent [OF assms(1-3) _ assms(6)] Goto_new_parent [OF assms(1) _ assms(4,5), of q]
  by (auto simp: par_ok_def)

lemma lok_other:
  assumes "moves (code cl b p l d) l' d'" and "lok p l d" and "dinv d" and "t \<noteq> p"
    and "lok t m d" and "held p l \<inter> held t m = {}" and "d_state d t \<noteq> ZOMBIE \<or> st_at m = ZOMBIE"
  shows "lok t m d'"
  using assms(5-7)
proof (induction m)
  case (AcqSleep c x)
  then have "d_slk d' c = d_slk d c" if "x = SlAcq \<or> x = SlRel"
    using Goto_slk [OF assms(1), of c] that by auto
  with AcqSleep show ?case by auto
next
  case (Wait x)
  then show ?case
    by (cases x) (auto intro: no_zombie_other [OF assms(1,2,4)] Goto_parent [OF assms(1-3) _ assms(4)])
next
  case (Exit x)
  then show ?case
    by (cases x) (auto intro: childless_other [OF assms(1,4)] par_ok_other [OF assms(1-4)]
      Goto_parent [OF assms(1-3) _ assms(4)])
qed (auto split: if_splits)

lemma tok_other:
  assumes "moves (code cl b p l d) l' d'" and "tok p l d" and "dinv d" and "t \<noteq> p"
    and "tok t m d" and "held p l \<inter> held t m = {}"
  shows "tok t m d'"
proof -
  have "d_state d' t = d_state d t"
    using Goto_state [OF assms(1,4)] st_at_held [of m t] assms(5,6) by (auto simp: tok_def)
  moreover have "lok t m d'"
    using assms by (intro lok_other [OF assms(1)]) (auto simp: tok_def)
  ultimately show ?thesis using assms(5) by (simp add: tok_def)
qed

section \<open>Threads off the CPU\<close>

text \<open>Where a thread that called \<open>sched\<close> resumes.\<close>

fun resume :: "ploc \<Rightarrow> bool" where
  "resume (Yield y l) = (y = YRel)"
| "resume (AcqSleep c l) = (l = SlWake)"
| "resume (Wait l) = (l = WtWake)"
| "resume Forkret = True"
| "resume _ = False"

definition alive :: "procstate \<Rightarrow> bool" where
  "alive st \<longleftrightarrow> st = RUNNABLE \<or> st = SLEEPING"

definition offok :: "nat \<Rightarrow> sdata \<Rightarrow> bool" where
  "offok t d \<longleftrightarrow> d_state d t \<noteq> RUNNING \<and>
     (alive (d_state d t) \<longrightarrow> t < NPROC \<and> k_thr (d_ctx d t) = t \<and> resume (k_loc (d_ctx d t)) \<and> lok t (k_loc (d_ctx d t)) d)"

lemma resume_held: "resume m \<Longrightarrow> held t m = {PLock t} \<and> st_at m = RUNNING"
  by (induction m rule: loc_cases) auto

lemma lok_resume_other:
  assumes "moves (code cl b p l d) l' d'" and "lok p l d" and "dinv d" and "t \<noteq> p"
    and "lok t m d" and "resume m" and "d_state d t \<noteq> ZOMBIE"
  shows "lok t m d'"
  using assms(5-7)
proof (induction m rule: loc_cases)
  case (YRel m)
  then show ?case using lok_other [OF assms(1-4), of m] by auto
qed auto

lemma Goto_ctx:
  assumes "moves (code cl b p l d) l' d'" and "d_state d t \<noteq> UNUSED"
  shows "d_ctx d' t = d_ctx d t"
  using assms by (induction l rule: loc_cases) (auto split: if_splits option.splits)

lemma Goto_alive:
  assumes "moves (code cl b p l d) l' d'" and "lok p l d" and "t \<noteq> p" and "alive (d_state d' t)"
    and "\<not> alive (d_state d t)" and "d_state d t \<noteq> RUNNING"
  shows "t < NPROC \<and> d_ctx d' t = \<lparr>k_thr = t, k_loc = Forkret, k_intena = None\<rparr>"
  using assms by (induction l rule: loc_cases) (auto simp: alive_def split: if_splits option.splits)

lemma offok_other:
  assumes "moves (code cl b p l d) l' d'" and "lok p l d" and "dinv d" and "t \<noteq> p" and "offok t d"
  shows "offok t d'"
proof -
  have run: "d_state d' t \<noteq> RUNNING"
    using Goto_state [OF assms(1,4)] assms(5) by (auto simp: offok_def)
  show ?thesis
  proof (cases "alive (d_state d' t)")
    case True
    show ?thesis
    proof (cases "alive (d_state d t)")
      case a: True
      then have "d_ctx d' t = d_ctx d t" by (intro Goto_ctx [OF assms(1)]) (auto simp: alive_def)
      then show ?thesis using a assms(5) run lok_resume_other [OF assms(1-4)]
        by (auto simp: offok_def alive_def)
    next
      case False
      then show ?thesis
        using Goto_alive [OF assms(1,2,4) True] assms(5) run by (simp add: offok_def)
    qed
  qed (use run in \<open>simp add: offok_def\<close>)
qed

section \<open>The invariant of the machine\<close>

fun cheld :: "cpc \<Rightarrow> lockid set" where
  "cheld SchedTop = {}"
| "cheld (SchedAcq p) = {}"
| "cheld (SchedTest p) = {PLock p}"
| "cheld (SchedBack p) = {PLock p}"
| "cheld (SchedRel p) = {PLock p}"
| "cheld (Thr t l) = held t l"

fun pc_ok :: "cpc \<Rightarrow> bool" where
  "pc_ok SchedTop = True"
| "pc_ok (SchedAcq p) = (p < NPROC)"
| "pc_ok (SchedTest p) = (p < NPROC)"
| "pc_ok (SchedBack p) = (p < NPROC)"
| "pc_ok (SchedRel p) = (p < NPROC)"
| "pc_ok (Thr t l) = (t < NPROC)"

text \<open>Every lock is held by the CPU whose location holds it, and \<^verbatim>\<open>noff\<close> counts the locks of a CPU.\<close>

definition lock_inv :: "ssys \<Rightarrow> bool" where
  "lock_inv s \<longleftrightarrow>
     (\<forall>L. lk_locked (s_lock s L) \<longrightarrow> (\<exists>i. lk_cpu (s_lock s L) = Some i)) \<and>
     (\<forall>i L. holding i (s_lock s L) \<longleftrightarrow> L \<in> cheld (s_pc s i)) \<and>
     (\<forall>i. noff (s_cpu s i) = int (card (cheld (s_pc s i)))) \<and>
     (\<forall>i. noff (s_cpu s i) > 0 \<longrightarrow> \<not> intr_on (s_cpu s i))"

definition off :: "nat \<Rightarrow> ssys \<Rightarrow> bool" where
  "off t s \<longleftrightarrow> (\<forall>i l. s_pc s i \<noteq> Thr t l)"

definition thr_inv :: "ssys \<Rightarrow> bool" where
  "thr_inv s \<longleftrightarrow>
     (\<forall>i t l. s_pc s i = Thr t l \<longrightarrow> s_proc s i = Some t \<and> s_idx s i = t \<and> tok t l (s_data s)) \<and>
     (\<forall>i j t l m. s_pc s i = Thr t l \<longrightarrow> s_pc s j = Thr t m \<longrightarrow> i = j) \<and>
     (\<forall>i. pc_ok (s_pc s i)) \<and> (\<forall>t. off t s \<longrightarrow> offok t (s_data s)) \<and> dinv (s_data s)"

lemma finite_held [simp]: "finite (held t l)"
  by (induction l rule: loc_cases) auto

lemma finite_cheld [simp]: "finite (cheld c)"
  by (cases c) auto

lemma lock_inv_disjoint:
  assumes "lock_inv s" and "i \<noteq> j"
  shows "cheld (s_pc s i) \<inter> cheld (s_pc s j) = {}"
proof -
  have "\<not> (holding i (s_lock s L) \<and> holding j (s_lock s L))" for L using assms(2) by (auto simp: holding_def)
  then show ?thesis using assms(1) by (auto simp: lock_inv_def)
qed

lemma lock_inv_acquire:
  assumes "lock_inv s" and "L \<notin> cheld (s_pc s i)" and "cheld c = insert L (cheld (s_pc s i))"
  shows "do_acquire i L c s \<noteq> Panic e" and "do_acquire i L c s = Ok s' \<Longrightarrow> lock_inv s'"
proof -
  have nh: "\<not> holding i (s_lock s L)" using assms by (simp add: lock_inv_def)
  then show "do_acquire i L c s \<noteq> Panic e" by (simp add: do_acquire_def acquire_def Let_def)
  assume "do_acquire i L c s = Ok s'"
  then have free: "\<not> lk_locked (s_lock s L)" and s': "s' = set_pc i c (s\<lparr>s_lock := (s_lock s)
      (L := (s_lock s L)\<lparr>lk_locked := True, lk_cpu := Some i\<rparr>), s_cpu := (s_cpu s)(i := push_off (s_cpu s i))\<rparr>)"
    using nh by (auto simp: do_acquire_def acquire_def Let_def split: if_splits)
  have "L \<notin> cheld (s_pc s j)" for j using assms(1) free by (auto simp: lock_inv_def holding_def)
  moreover have "noff (push_off (s_cpu s i)) = noff (s_cpu s i) + 1" "\<not> intr_on (push_off (s_cpu s i))"
    by (auto simp: push_off_def Let_def)
  ultimately show "lock_inv s'"
    using assms(1,3) unfolding s' lock_inv_def set_pc_def by (auto simp: holding_def)
qed

lemma lock_inv_release:
  assumes "lock_inv s" and "L \<in> cheld (s_pc s i)" and "cheld c = cheld (s_pc s i) - {L}"
  shows "do_release i L c s \<noteq> Panic e" and "do_release i L c s = Ok s' \<Longrightarrow> lock_inv s'"
proof -
  have h: "holding i (s_lock s L)" using assms by (simp add: lock_inv_def)
  have n: "noff (s_cpu s i) = int (card (cheld (s_pc s i)))" using assms(1) by (simp add: lock_inv_def)
  moreover have card: "card (cheld (s_pc s i)) = Suc (card (cheld c))"
    using assms(2,3) by (simp add: card_Diff_singleton) (metis Suc_pred card_gt_0_iff empty_iff finite_cheld)
  ultimately have pos: "noff (s_cpu s i) > 0" by simp
  then have off: "\<not> intr_on (s_cpu s i)" using assms(1) by (simp add: lock_inv_def)
  obtain cp where cp: "pop_off (s_cpu s i) = Ok cp" "noff cp = noff (s_cpu s i) - 1" "noff cp > 0 \<Longrightarrow> \<not> intr_on cp"
    using pos off by (auto simp: pop_off_def Let_def)
  let ?lk = "(s_lock s L)\<lparr>lk_cpu := None, lk_locked := False\<rparr>"
  have eq: "do_release i L c s = Ok (set_pc i c (s\<lparr>s_lock := (s_lock s)(L := ?lk), s_cpu := (s_cpu s)(i := cp)\<rparr>))"
    using h cp by (simp add: do_release_def release_def)
  then show "do_release i L c s \<noteq> Panic e" by simp
  assume "do_release i L c s = Ok s'"
  then have s': "s' = set_pc i c (s\<lparr>s_lock := (s_lock s)(L := ?lk), s_cpu := (s_cpu s)(i := cp)\<rparr>)" using eq by simp
  have "L \<notin> cheld (s_pc s j)" if "j \<noteq> i" for j
    using lock_inv_disjoint [OF assms(1) that] assms(2) by auto
  then show "lock_inv s'"
    using assms(1,3) cp(2,3) n card unfolding s' lock_inv_def set_pc_def by (auto simp: holding_def)
qed

lemma lock_inv_other:
  assumes "lock_inv s" and "s_lock s' = s_lock s" and "s_pc s' = (s_pc s)(i := c)"
    and "cheld c = cheld (s_pc s i)" and "s_cpu s' = (s_cpu s)(i := cp)" and "noff cp = noff (s_cpu s i)"
    and "noff cp > 0 \<Longrightarrow> \<not> intr_on cp"
  shows "lock_inv s'"
  using assms unfolding lock_inv_def by auto

lemma thr_inv_pc:
  assumes "thr_inv s" and "s_pc s i = Thr t l"
  shows "s_proc s i = Some t" "s_idx s i = t" "tok t l (s_data s)" "t < NPROC"
    "s_pc s j = Thr t m \<Longrightarrow> j = i" "dinv (s_data s)"
  using assms by (auto simp: thr_inv_def tok_def)

lemma off_split: "off u s \<longleftrightarrow> (\<forall>l. s_pc s i \<noteq> Thr u l) \<and> (\<forall>j l. j \<noteq> i \<longrightarrow> s_pc s j \<noteq> Thr u l)"
  unfolding off_def by metis

lemma off_moved:
  assumes "s_pc s' = (s_pc s)(i := c)"
  shows "off u s' \<longleftrightarrow> (\<forall>l. c \<noteq> Thr u l) \<and> (\<forall>j l. j \<noteq> i \<longrightarrow> s_pc s j \<noteq> Thr u l)"
  using assms by (simp add: off_split [of u s' i])

text \<open>A step of CPU \<open>i\<close> that takes it to \<open>c\<close>.\<close>

lemma thr_inv_step:
  assumes inv: "thr_inv s" and pc: "s_pc s' = (s_pc s)(i := c)"
    and same: "\<And>j. j \<noteq> i \<Longrightarrow> s_proc s' j = s_proc s j \<and> s_idx s' j = s_idx s j"
    and new: "\<And>t l. c = Thr t l \<Longrightarrow> s_proc s' i = Some t \<and> s_idx s' i = t \<and> tok t l (s_data s') \<and>
      (\<forall>j m. j \<noteq> i \<longrightarrow> s_pc s j \<noteq> Thr t m)"
    and ok: "pc_ok c"
    and others: "\<And>j t l. j \<noteq> i \<Longrightarrow> s_pc s j = Thr t l \<Longrightarrow> tok t l (s_data s')"
    and offs: "\<And>u. off u s' \<Longrightarrow> offok u (s_data s')" and d: "dinv (s_data s')"
  shows "thr_inv s'"
  unfolding thr_inv_def
proof (intro conjI allI impI)
  fix j t l assume j: "s_pc s' j = Thr t l"
  have *: "s_proc s' j = Some t \<and> s_idx s' j = t \<and> tok t l (s_data s')"
  proof (cases "j = i")
    case True
    then show ?thesis using j new pc by simp
  next
    case False
    then have "s_pc s j = Thr t l" using j pc by simp
    then show ?thesis using False same others thr_inv_pc(1,2) [OF inv] by simp
  qed
  then show "s_proc s' j = Some t" "s_idx s' j = t" "tok t l (s_data s')" by auto
next
  fix j k t l m assume jk: "s_pc s' j = Thr t l" "s_pc s' k = Thr t m"
  show "j = k"
  proof (cases "j = i \<or> k = i")
    case True
    then show ?thesis using jk new [of t l] new [of t m] pc by (auto split: if_splits)
  next
    case False
    then show ?thesis using jk pc thr_inv_pc(5) [OF inv, of k t m j l] by simp
  qed
next
  show "pc_ok (s_pc s' j)" for j using ok pc inv by (simp add: thr_inv_def)
qed (use offs d in auto)

lemma thr_inv_move:
  assumes "thr_inv s" and "s_pc s i = Thr t l" and "tok t l' (s_data s)"
    and "s_pc s' = (s_pc s)(i := Thr t l')" and "s_proc s' = s_proc s" and "s_idx s' = s_idx s"
    and "s_data s' = s_data s"
  shows "thr_inv s'"
proof (rule thr_inv_step [OF assms(1,4)])
  note f = thr_inv_pc [OF assms(1,2)]
  have "off u s' \<longleftrightarrow> off u s" for u
    unfolding off_moved [OF assms(4)] off_split [of u s i] using assms(2) by auto
  then show "off u s' \<Longrightarrow> offok u (s_data s')" for u using assms(1,7) by (simp add: thr_inv_def)
  show "Thr t l' = Thr u m \<Longrightarrow> s_proc s' i = Some u \<and> s_idx s' i = u \<and> tok u m (s_data s') \<and>
      (\<forall>j m. j \<noteq> i \<longrightarrow> s_pc s j \<noteq> Thr u m)" for u m
    using f(1,2,5) assms(3,5-7) by auto
qed (use assms thr_inv_pc [OF assms(1)] in auto)

lemma thr_inv_sched:
  assumes "thr_inv s" and "s_pc s i = c" and "\<forall>t l. c \<noteq> Thr t l" and "\<forall>t l. c' \<noteq> Thr t l" and "pc_ok c'"
    and "s_pc s' = (s_pc s)(i := c')" and "s_proc s' = (s_proc s)(i := pr)" and "s_idx s' = s_idx s"
    and "s_data s' = s_data s"
  shows "thr_inv s'"
proof (rule thr_inv_step [OF assms(1,6)])
  have "off u s' \<longleftrightarrow> off u s" for u
    unfolding off_moved [OF assms(6)] off_split [of u s i] using assms(2-4) by auto
  then show "off u s' \<Longrightarrow> offok u (s_data s')" for u using assms(1,9) by (simp add: thr_inv_def)
  show "dinv (s_data s')" using assms(1,9) by (simp add: thr_inv_def)
qed (use assms thr_inv_pc [OF assms(1)] in auto)

lemma thr_inv_goto:
  assumes "thr_inv s" and "lock_inv s" and "s_pc s i = Thr t l" and "moves (code cl b t l (s_data s)) l' d'"
  shows "thr_inv (set_pc i (Thr t l') (s\<lparr>s_data := d'\<rparr>))"
proof -
  let ?s' = "set_pc i (Thr t l') (s\<lparr>s_data := d'\<rparr>)"
  note f = thr_inv_pc [OF assms(1,3)]
  have own: "tok t l' d'" "dinv d'"
    using Goto_lok [OF assms(4)] Goto_dinv [OF assms(4)] f(3,4,6) by (auto simp: tok_def)
  have others: "tok u m d'" if "s_pc s j = Thr u m" "j \<noteq> i" for u m j
  proof -
    have "u \<noteq> t" using f(5) that by blast
    moreover have "held t l \<inter> held u m = {}"
      using lock_inv_disjoint [OF assms(2) that(2)] that(1) assms(3) by auto
    ultimately show ?thesis
      using tok_other [OF assms(4) f(3,6)] thr_inv_pc(3) [OF assms(1) that(1)] by blast
  qed
  have offs: "offok u d'" if "off u ?s'" for u
  proof -
    have "u \<noteq> t" "off u s" using that assms(3) unfolding off_split [of u _ i] set_pc_def by auto
    moreover from this have "offok u (s_data s)" using assms(1) by (simp add: thr_inv_def)
    ultimately show ?thesis using offok_other [OF assms(4)] f(3,6) by (simp add: tok_def)
  qed
  show ?thesis
    by (rule thr_inv_step [OF assms(1), of _ i "Thr t l'"]) (use own others offs f in \<open>auto simp: set_pc_def\<close>)
qed

lemma lock_inv_goto:
  assumes "lock_inv s" and "s_pc s i = Thr t l" and "moves (code cl b t l (s_data s)) l' d'"
  shows "lock_inv (set_pc i (Thr t l') (s\<lparr>s_data := d'\<rparr>))"
  by (rule lock_inv_other [OF assms(1), of _ i "Thr t l'" "s_cpu s i"])
    (use assms(1,2) Goto_held [OF assms(3)] in \<open>auto simp: set_pc_def lock_inv_def\<close>)

lemma CallSched_resume:
  assumes "code cl b p l d = CallSched l'" and "lok p l d" and "alive (st_at l)"
  shows "resume l' \<and> lok p l' d"
  using assms by (induction l rule: loc_cases) (auto simp: alive_def split: if_splits option.splits)

lemma lok_ctx [simp]: "lok t l (d\<lparr>d_ctx := c\<rparr>) = lok t l d"
proof -
  have w: "wait_ok t m (d\<lparr>d_ctx := c\<rparr>) = wait_ok t m d" for m by (cases m) (auto simp: no_zombie_def)
  have e: "exit_ok t m (d\<lparr>d_ctx := c\<rparr>) = exit_ok t m d" for m
    by (cases m) (auto simp: par_ok_def childless_def)
  show ?thesis by (induction l) (auto simp: w e)
qed

lemma sched_ok:
  assumes "thr_inv s" and "lock_inv s" and "s_pc s i = Thr t l" and "code cl b t l (s_data s) = CallSched l'"
  shows "\<exists>s'. sched i t t l' s = Ok s' \<and> thr_inv s' \<and> lock_inv s'"
proof -
  note f = thr_inv_pc [OF assms(1,3)]
  note c = code_CallSched [OF assms(4)]
  let ?ctx = "\<lparr>k_thr = t, k_loc = l', k_intena = Some (intena (s_cpu s i))\<rparr>"
  let ?d = "(s_data s)\<lparr>d_ctx := (d_ctx (s_data s))(t := ?ctx)\<rparr>"
  let ?s' = "set_pc i (SchedBack t) (s\<lparr>s_data := ?d\<rparr>)"
  have "holding i (s_lock s (PLock t))" "noff (s_cpu s i) = 1" "\<not> intr_on (s_cpu s i)"
    using assms(2,3) c by (auto simp: lock_inv_def)
  moreover have st: "d_state (s_data s) t = st_at l" using f(3) by (simp add: tok_def)
  ultimately have run: "sched i t t l' s = Ok ?s'" using c f(2) by (simp add: sched_def Let_def)
  have lk: "lock_inv ?s'"
    by (rule lock_inv_other [OF assms(2), of _ i "SchedBack t" "s_cpu s i"])
      (use assms(2,3) c in \<open>auto simp: set_pc_def lock_inv_def\<close>)
  have "offok t ?d" using CallSched_resume [OF assms(4)] f(3,4) st c by (auto simp: offok_def tok_def alive_def)
  moreover have "offok u ?d" if "offok u (s_data s)" "u \<noteq> t" for u using that by (simp add: offok_def)
  moreover have "off u s" if "off u ?s'" "u \<noteq> t" for u
    using that assms(3) unfolding off_split [of u _ i] set_pc_def by auto
  ultimately have "offok u ?d" if "off u ?s'" for u using that assms(1) by (cases "u = t") (auto simp: thr_inv_def)
  moreover have "dinv ?d" using f(6) dinv_cong [of ?d "s_data s"] by simp
  ultimately have "thr_inv ?s'"
    by (intro thr_inv_step [OF assms(1), of _ i "SchedBack t"])
      (use f(4) thr_inv_pc(3) [OF assms(1)] in \<open>auto simp: set_pc_def tok_def\<close>)
  with run lk show ?thesis by blast
qed

lemma SchedTest_off:
  assumes "thr_inv s" and "lock_inv s" and "s_pc s i = SchedTest p" and "d_state (s_data s) p = RUNNABLE"
  shows "off p s \<and> p < NPROC \<and> k_thr (d_ctx (s_data s) p) = p \<and> resume (k_loc (d_ctx (s_data s) p)) \<and>
    lok p (k_loc (d_ctx (s_data s) p)) (s_data s)"
proof -
  have "s_pc s j \<noteq> Thr p m" for j m
  proof
    assume j: "s_pc s j = Thr p m"
    then have "st_at m = RUNNABLE" using thr_inv_pc(3) [OF assms(1) j] assms(4) by (simp add: tok_def)
    then have "PLock p \<in> held p m" using st_at_held [of m p] by simp
    moreover have "j \<noteq> i" using j assms(3) by auto
    ultimately show False using lock_inv_disjoint [OF assms(2), of j i] j assms(3) by auto
  qed
  then have "off p s" by (simp add: off_def)
  then show ?thesis using assms(1,4) by (auto simp: thr_inv_def offok_def alive_def)
qed

lemma SchedTest_ok:
  assumes "thr_inv s" and "lock_inv s" and "s_pc s i = SchedTest p"
  shows "\<exists>s'. scheduler_step i (SchedTest p) s = Ok s' \<and> thr_inv s' \<and> lock_inv s'"
proof (cases "d_state (s_data s) p = RUNNABLE")
  case False
  have "thr_inv (set_pc i (SchedRel p) s)"
    by (rule thr_inv_sched [OF assms(1,3), of "SchedRel p" _ "s_proc s i"])
      (use assms(1,3) in \<open>auto simp: set_pc_def thr_inv_def dest: spec [of _ i]\<close>)
  moreover have "lock_inv (set_pc i (SchedRel p) s)"
    by (rule lock_inv_other [OF assms(2), of _ i "SchedRel p" "s_cpu s i"])
      (use assms(2,3) in \<open>auto simp: set_pc_def lock_inv_def\<close>)
  ultimately show ?thesis using False by simp
next
  case True
  let ?d = "set_state p RUNNING (s_data s)" and ?ctx = "d_ctx (s_data s) p"
  have "\<exists>s'. scheduler_step i (SchedTest p) s = Ok s'" using True by (simp add: Let_def)
  then obtain s' where s': "scheduler_step i (SchedTest p) s = Ok s'" ..
  define cp where "cp = (case k_intena ?ctx of None \<Rightarrow> s_cpu s i | Some b \<Rightarrow> (s_cpu s i)\<lparr>intena := b\<rparr>)"
  have cp: "noff cp = noff (s_cpu s i)" "intr_on cp = intr_on (s_cpu s i)"
    by (auto simp: cp_def split: option.splits)
  have s'_eq: "s' = set_pc i (Thr (k_thr ?ctx) (k_loc ?ctx)) (s\<lparr>s_data := ?d,
      s_proc := (s_proc s)(i := Some p), s_idx := (s_idx s)(i := p), s_cpu := (s_cpu s)(i := cp)\<rparr>)"
    using True s' by (intro ssys.equality) (auto simp: Let_def set_pc_def cp_def split: option.splits)
  have dinv: "dinv (s_data s)" using assms(1) by (simp add: thr_inv_def)
  note off = SchedTest_off [OF assms True]
  then have offp: "off p s" and ctx: "p < NPROC" "k_thr ?ctx = p" "resume (k_loc ?ctx)" "lok p (k_loc ?ctx) (s_data s)"
    by auto
  have lk: "lock_inv s'"
    by (rule lock_inv_other [OF assms(2), of _ i "Thr p (k_loc ?ctx)" cp])
      (use assms(2,3) ctx resume_held cp in \<open>auto simp: s'_eq set_pc_def lock_inv_def\<close>)
  have "thr_inv s'"
  proof (rule thr_inv_step [OF assms(1), of s' i "Thr p (k_loc ?ctx)"])
    show "Thr p (k_loc ?ctx) = Thr t l \<Longrightarrow> s_proc s' i = Some t \<and> s_idx s' i = t \<and> tok t l (s_data s') \<and>
      (\<forall>j m. j \<noteq> i \<longrightarrow> s_pc s j \<noteq> Thr t m)" for t l
      using ctx resume_held offp lok_set_state by (auto simp: s'_eq set_pc_def tok_def off_def)
    show "tok t l (s_data s')" if "j \<noteq> i" "s_pc s j = Thr t l" for j t l
    proof -
      have "t \<noteq> p" using that offp by (auto simp: off_def)
      then show ?thesis using thr_inv_pc(3) [OF assms(1) that(2)] lok_set_state
        by (auto simp: s'_eq set_pc_def tok_def)
    qed
    show "offok u (s_data s')" if "off u s'" for u
    proof -
      have "u \<noteq> p" "off u s" using that offp ctx(2) assms(3) unfolding off_split [of u _ i] s'_eq set_pc_def by auto
      then show ?thesis using assms(1) lok_set_state by (auto simp: s'_eq set_pc_def thr_inv_def offok_def)
    qed
    show "dinv (s_data s')" using dinv True by (auto simp: s'_eq set_pc_def intro: dinv_set_state)
  qed (use ctx in \<open>auto simp: s'_eq set_pc_def\<close>)
  with s' lk show ?thesis by blast
qed

text \<open>
  The one panic that can happen: the first process has called \<open>exit\<close>. \<open>step_ok\<close>: the result of a step of
  CPU \<open>i\<close> is no other panic, and satisfies \<open>P\<close> if the step is not blocked.
\<close>

definition init_exits :: "string \<Rightarrow> nat \<Rightarrow> ssys \<Rightarrow> bool" where
  "init_exits e i s \<longleftrightarrow> e = ''init exiting'' \<and> s_proc s i = Some INIT \<and> s_pc s i = Thr INIT (Exit ExStart)"

definition step_ok :: "nat \<Rightarrow> ssys \<Rightarrow> (ssys \<Rightarrow> bool) \<Rightarrow> ssys outcome \<Rightarrow> bool" where
  "step_ok i s P r \<longleftrightarrow> (\<forall>e. r = Panic e \<longrightarrow> init_exits e i s) \<and> (\<forall>s'. r = Ok s' \<longrightarrow> P s')"

lemma do_acquire_frame:
  assumes "do_acquire i L c s = Ok s'"
  shows "s_pc s' = (s_pc s)(i := c)" "s_proc s' = s_proc s" "s_idx s' = s_idx s" "s_data s' = s_data s"
  using assms by (auto simp: do_acquire_def set_pc_def obind_Ok_iff)

lemma do_release_frame:
  assumes "do_release i L c s = Ok s'"
  shows "s_pc s' = (s_pc s)(i := c)" "s_proc s' = s_proc s" "s_idx s' = s_idx s" "s_data s' = s_data s"
  using assms by (auto simp: do_release_def set_pc_def obind_Ok_iff)

lemma scheduler_step_ok:
  assumes "thr_inv s" and "lock_inv s" and "s_pc s i = c" and "\<forall>t l. c \<noteq> Thr t l"
  shows "step_ok i s (\<lambda>s'. thr_inv s' \<and> lock_inv s') (scheduler_step i c s)"
proof -
  have pc: "pc_ok c" using assms(1,3) by (auto simp: thr_inv_def)
  show ?thesis
  proof (cases c)
    case SchedTop
    let ?s' = "set_pc i (SchedAcq 0) (set_intr i True s)"
    have "thr_inv ?s'"
      by (rule thr_inv_sched [OF assms(1,3,4), of "SchedAcq 0" _ "s_proc s i"]) (auto simp: set_pc_def set_intr_def)
    moreover have "lock_inv ?s'"
      by (rule lock_inv_other [OF assms(2), of _ i "SchedAcq 0" "(s_cpu s i)\<lparr>intr_on := True\<rparr>"])
        (use assms(2,3) SchedTop in \<open>auto simp: set_pc_def set_intr_def lock_inv_def\<close>)
    ultimately show ?thesis using SchedTop by (simp add: step_ok_def)
  next
    case (SchedAcq p)
    have c': "PLock p \<notin> cheld (s_pc s i)" "cheld (SchedTest p) = insert (PLock p) (cheld (s_pc s i))"
      using SchedAcq assms(3) by auto
    show ?thesis
      using lock_inv_acquire [OF assms(2) c'] do_acquire_frame [of i "PLock p" "SchedTest p" s] pc SchedAcq
        thr_inv_sched [OF assms(1,3,4), of "SchedTest p" _ "s_proc s i"]
      by (auto simp: step_ok_def)
  next
    case (SchedTest p)
    then show ?thesis using SchedTest_ok [OF assms(1,2), of i p] assms(3) by (auto simp: step_ok_def)
  next
    case (SchedBack p)
    let ?s' = "set_pc i (SchedRel p) (s\<lparr>s_proc := (s_proc s)(i := None)\<rparr>)"
    have "thr_inv ?s'"
      by (rule thr_inv_sched [OF assms(1,3,4), of "SchedRel p" _ None]) (use pc SchedBack in \<open>auto simp: set_pc_def\<close>)
    moreover have "lock_inv ?s'"
      by (rule lock_inv_other [OF assms(2), of _ i "SchedRel p" "s_cpu s i"])
        (use assms(2,3) SchedBack in \<open>auto simp: set_pc_def lock_inv_def\<close>)
    ultimately show ?thesis using SchedBack by (simp add: step_ok_def)
  next
    case (SchedRel p)
    let ?c' = "if Suc p < NPROC then SchedAcq (Suc p) else SchedTop"
    have c': "PLock p \<in> cheld (s_pc s i)" "cheld ?c' = cheld (s_pc s i) - {PLock p}" "\<forall>t l. ?c' \<noteq> Thr t l" "pc_ok ?c'"
      using SchedRel assms(3) by auto
    show ?thesis
      using lock_inv_release [OF assms(2) c'(1,2)] do_release_frame [of i "PLock p" ?c' s] SchedRel
        thr_inv_sched [OF assms(1,3,4) c'(3,4), of _ "s_proc s i"]
      by (auto simp: step_ok_def simp del: if_split)
  qed (use assms(4) in auto)
qed

lemma IntrOn_lok:
  assumes "code cl b p l d = IntrOn l'" and "lok p l d"
  shows "held p l = {} \<and> held p l' = {} \<and> st_at l = RUNNING \<and> st_at l' = RUNNING \<and> lok p l' d"
  using assms by (induction l rule: loc_cases) (auto split: if_splits option.splits)

lemma Halt_init:
  assumes "code cl b p l d = Halt e" and "lok p l d" and "dinv d" and "d_state d p = st_at l"
  shows "e = ''init exiting'' \<and> p = INIT \<and> l = Exit ExStart"
  using assms
proof (induction l rule: loc_cases)
  case ExRead
  then have "\<exists>r. d_parent d p = Some r" by (auto simp: dinv_def)
  with ExRead show ?case by auto
qed (auto split: if_splits)

lemma thread_step_ok:
  assumes "thr_inv s" and "lock_inv s" and "s_pc s i = Thr t l"
  shows "step_ok i s (\<lambda>s'. thr_inv s' \<and> lock_inv s') (thread_step cl b i t l s)"
proof -
  note f = thr_inv_pc [OF assms(1,3)]
  have tk: "lok t l (s_data s)" "d_state (s_data s) t = st_at l" "t < NPROC" using f(3) by (auto simp: tok_def)
  have move: "tok t l' (s_data s)" if "lok t l' (s_data s)" "st_at l' = st_at l" for l'
    using that tk by (simp add: tok_def)
  show ?thesis
  proof (cases "code cl b t l (s_data s)")
    case (Acquire L l')
    note c = code_Acquire [OF Acquire tk(1) f(6)]
    have c': "L \<notin> cheld (s_pc s i)" "cheld (Thr t l') = insert L (cheld (s_pc s i))" using c assms(3) by auto
    show ?thesis
      using lock_inv_acquire [OF assms(2) c'] do_acquire_frame [of i L "Thr t l'" s] Acquire f(1)
        thr_inv_move [OF assms(1,3) move] c
      by (auto simp: step_ok_def thread_step_def)
  next
    case (Release L l')
    note c = code_Release [OF Release tk(1)]
    have c': "L \<in> cheld (s_pc s i)" "cheld (Thr t l') = cheld (s_pc s i) - {L}" using c assms(3) by auto
    show ?thesis
      using lock_inv_release [OF assms(2) c'] do_release_frame [of i L "Thr t l'" s] Release f(1)
        thr_inv_move [OF assms(1,3) move] c
      by (auto simp: step_ok_def thread_step_def)
  next
    case (Goto l' d')
    then have m: "moves (code cl b t l (s_data s)) l' d'" by simp
    show ?thesis using Goto thr_inv_goto [OF assms m] lock_inv_goto [OF assms(2,3) m] f(1)
      by (simp add: step_ok_def thread_step_def)
  next
    case (Hold L m l' d')
    then have m: "moves (code cl b t l (s_data s)) l' d'" by simp
    have "holding i (s_lock s L)" using Hold_held [OF Hold] assms(2,3) by (simp add: lock_inv_def)
    then show ?thesis using Hold thr_inv_goto [OF assms m] lock_inv_goto [OF assms(2,3) m] f(1)
      by (simp add: step_ok_def thread_step_def)
  next
    case (IntrOn l')
    note c = IntrOn_lok [OF IntrOn tk(1)]
    let ?s' = "set_pc i (Thr t l') (set_intr i True s)"
    have "thr_inv ?s'"
      by (rule thr_inv_move [OF assms(1,3) move [of l']]) (use c in \<open>auto simp: set_pc_def set_intr_def\<close>)
    moreover have "lock_inv ?s'"
      by (rule lock_inv_other [OF assms(2), of _ i "Thr t l'" "(s_cpu s i)\<lparr>intr_on := True\<rparr>"])
        (use assms(2,3) c in \<open>auto simp: set_pc_def set_intr_def lock_inv_def\<close>)
    ultimately show ?thesis using IntrOn f(1) by (simp add: step_ok_def thread_step_def)
  next
    case (CallSched l')
    then show ?thesis using sched_ok [OF assms CallSched] f(1) by (auto simp: step_ok_def thread_step_def)
  next
    case (Halt e)
    then show ?thesis using Halt_init [OF Halt tk(1) f(6) tk(2)] f(1) assms(3)
      by (simp add: step_ok_def thread_step_def init_exits_def)
  qed
qed

lemma timer_ok:
  assumes "thr_inv s" and "lock_inv s" and "s_pc s i = Thr t l" and "intr_on (s_cpu s i)"
  shows "step_ok i s (\<lambda>s'. thr_inv s' \<and> lock_inv s') (timer i t l s)"
proof -
  note f = thr_inv_pc [OF assms(1,3)]
  have "card (held t l) = 0" using assms(2-4) by (force simp: lock_inv_def)
  then have h: "held t l = {}" by simp
  then have st: "st_at l = RUNNING" using st_at_held [of l t] by auto
  let ?l' = "Yield YAcq (KtRet l)"
  let ?s' = "set_pc i (Thr t ?l') (set_intr i False s)"
  have "thr_inv ?s'"
    by (rule thr_inv_move [OF assms(1,3), of ?l'])
      (use h st f(3) in \<open>auto simp: set_pc_def set_intr_def tok_def\<close>)
  moreover have "lock_inv ?s'"
    by (rule lock_inv_other [OF assms(2), of _ i "Thr t ?l'" "(s_cpu s i)\<lparr>intr_on := False\<rparr>"])
      (use h assms(3) in \<open>auto simp: set_pc_def set_intr_def\<close>)
  ultimately show ?thesis using f(1) assms(1,2) by (simp add: timer_def step_ok_def)
qed

lemma cpu_step_ok:
  assumes "thr_inv s" and "lock_inv s"
  shows "step_ok i s (\<lambda>s'. thr_inv s' \<and> lock_inv s') (cpu_step intr cl b i s)"
proof (cases "s_pc s i")
  case (Thr t l)
  then show ?thesis using thread_step_ok [OF assms Thr] timer_ok [OF assms Thr] by (simp add: cpu_step_def)
qed (use scheduler_step_ok [OF assms, of i] in \<open>auto simp: cpu_step_def\<close>)

lemma boot_inv: "thr_inv boot \<and> lock_inv boot"
  by (auto simp: boot_def thr_inv_def lock_inv_def holding_def initlock_def offok_def alive_def dinv_def)

lemma reach_inv: "sched_reach s \<Longrightarrow> thr_inv s \<and> lock_inv s"
proof (induction rule: sched_reach.induct)
  case (reach_step s intr cl b i s')
  then show ?case using cpu_step_ok [of s i intr cl b] by (auto simp: step_ok_def)
qed (rule boot_inv)

end
