(* ===== verification/Sched_Wake.thy ===== *)
theory Sched_Wake
  imports Sched_Inv
begin

text \<open>
  What the invariant of the scheduling machine gives: no panic but that of the first process calling
  \<open>exit\<close>, and no process on two CPUs; no
  wakeup is lost between \<open>releasesleep\<close> and a process about to sleep in \<open>acquiresleep\<close>; no exit is lost
  to a parent in \<open>wait\<close>.
\<close>

section \<open>Wakeups of sleep locks\<close>

text \<open>\<open>wakes c t l\<close>: the loop of \<open>wakeup\<close> for lock \<open>c\<close> has still to visit process \<open>t\<close>.\<close>

fun wakes :: "nat \<Rightarrow> nat \<Rightarrow> ploc \<Rightarrow> bool" where
  "wakes c t (RelSleep c' l) = (c' = c \<and> (case l of WkAcq k \<Rightarrow> k \<le> t | WkTest k \<Rightarrow> k \<le> t | WkRel k \<Rightarrow> k < t | _ \<Rightarrow> False))"
| "wakes c t _ = False"

definition wake_pending :: "nat \<Rightarrow> nat \<Rightarrow> ssys \<Rightarrow> bool" where
  "wake_pending c t s \<longleftrightarrow> (\<exists>j u m. s_pc s j = Thr u m \<and> wakes c t m)"

definition asleep_on :: "nat \<Rightarrow> nat \<Rightarrow> sdata \<Rightarrow> bool" where
  "asleep_on c t d \<longleftrightarrow> d_state d t = SLEEPING \<and> d_chan d t = Some (SleepCh c)"

text \<open>Asleep on the lock, or past the test of the lock and the release of its spin lock.\<close>

definition waits :: "nat \<Rightarrow> nat \<Rightarrow> ssys \<Rightarrow> bool" where
  "waits c t s \<longleftrightarrow> asleep_on c t (s_data s) \<or> (\<exists>j. s_pc s j = Thr t (AcqSleep c SlSet))"

definition wake_inv :: "ssys \<Rightarrow> bool" where
  "wake_inv s \<longleftrightarrow> (\<forall>c t. waits c t s \<longrightarrow> sl_locked (d_slk (s_data s) c) \<or> wake_pending c t s)"

lemma asleep_less: "thr_inv s \<Longrightarrow> asleep_on c t (s_data s) \<Longrightarrow> t < NPROC"
proof (cases "off t s")
  case False
  assume "thr_inv s"
  then show ?thesis using False thr_inv_pc(4) by (auto simp: off_def)
qed (auto simp: thr_inv_def offok_def alive_def asleep_on_def)

lemma waits_less: "thr_inv s \<Longrightarrow> waits c t s \<Longrightarrow> t < NPROC"
  using asleep_less thr_inv_pc(4) by (auto simp: waits_def)

lemma Goto_asleep:
  assumes "moves (code cl b p l d) l' d'" and "asleep_on c t d'"
  shows "asleep_on c t d \<or> p = t \<and> l = AcqSleep c SlSet"
  using assms by (induction l rule: loc_cases) (auto simp: asleep_on_def split: if_splits option.splits)

lemma Goto_not_SlSet: "moves (code cl b p l d) l' d' \<Longrightarrow> l' \<noteq> AcqSleep c SlSet"
  by (induction l rule: loc_cases) (auto simp: call_loc_def split: if_splits option.splits syscl.splits)

lemma Goto_unlocks:
  assumes "moves (code cl b p l d) l' d'" and "sl_locked (d_slk d c)"
  shows "sl_locked (d_slk d' c) \<or> l' = RelSleep c (WkAcq 0)"
  using assms by (induction l rule: loc_cases) (auto split: if_splits option.splits)

lemma Goto_wakes:
  assumes "moves (code cl b p l d) l' d'" and "wakes c t l" and "\<not> wakes c t l'"
  shows "PLock t \<in> held p l \<and> \<not> asleep_on c t d'"
  using assms by (induction l rule: loc_cases) (auto simp: asleep_on_def split: if_splits option.splits)

lemma wakes_kept:
  assumes "code cl b p l d = i" and "wakes c t l" and "t < NPROC"
  shows "i = Acquire L l' \<Longrightarrow> wakes c t l'" "i = Release L l' \<Longrightarrow> wakes c t l'"
    "i = CallSched l' \<Longrightarrow> False" "i = IntrOn l' \<Longrightarrow> False"
  using assms by (induction l rule: loc_cases) (auto split: if_splits option.splits)

lemma to_SlSet:
  assumes "lok p l d"
  shows "code cl b p l d = Acquire L (AcqSleep c SlSet) \<Longrightarrow> False"
    "code cl b p l d = IntrOn (AcqSleep c SlSet) \<Longrightarrow> False"
    "code cl b p l d = Release L (AcqSleep c SlSet) \<Longrightarrow> sl_locked (d_slk d c)"
  using assms by (induction l rule: loc_cases) (auto split: if_splits option.splits)

text \<open>A step that leaves the data of a sleep lock and its sleepers alone.\<close>

lemma wake_inv_step:
  assumes "wake_inv s" and "s_pc s' = (s_pc s)(i := c')" and slk: "d_slk (s_data s') = d_slk (s_data s)"
    and asleep: "\<And>c t. asleep_on c t (s_data s') \<Longrightarrow> asleep_on c t (s_data s)"
    and setl: "\<And>c t. c' = Thr t (AcqSleep c SlSet) \<Longrightarrow> sl_locked (d_slk (s_data s) c)"
    and wk: "\<And>u m c t. s_pc s i = Thr u m \<Longrightarrow> wakes c t m \<Longrightarrow> waits c t s' \<Longrightarrow> \<exists>u m. c' = Thr u m \<and> wakes c t m"
  shows "wake_inv s'"
  unfolding wake_inv_def
proof (intro allI impI)
  fix c t assume w: "waits c t s'"
  show "sl_locked (d_slk (s_data s') c) \<or> wake_pending c t s'"
  proof (cases "c' = Thr t (AcqSleep c SlSet)")
    case True
    then show ?thesis using setl slk by simp
  next
    case False
    then have "waits c t s" using w asleep assms(2) by (auto simp: waits_def split: if_splits)
    then consider "sl_locked (d_slk (s_data s) c)" | j u m where "s_pc s j = Thr u m" "wakes c t m"
      using assms(1) unfolding wake_inv_def wake_pending_def by blast
    then show ?thesis
    proof cases
      case 1
      then show ?thesis using slk by simp
    next
      case 2
      then have "\<exists>u m. s_pc s' j = Thr u m \<and> wakes c t m"
        using wk w assms(2) by (cases "j = i") auto
      then show ?thesis by (auto simp: wake_pending_def)
    qed
  qed
qed

lemma wake_inv_goto:
  assumes "thr_inv s" and "lock_inv s" and "wake_inv s" and "s_pc s i = Thr t l"
    and g: "moves (code cl b t l (s_data s)) l' d'"
  shows "wake_inv (set_pc i (Thr t l') (s\<lparr>s_data := d'\<rparr>))"
  unfolding wake_inv_def
proof (intro allI impI)
  let ?s' = "set_pc i (Thr t l') (s\<lparr>s_data := d'\<rparr>)"
  fix c u assume w: "waits c u ?s'"
  have was: "waits c u s"
    using w Goto_asleep [OF g, of c u] Goto_not_SlSet [OF g] assms(4)
    by (auto simp: waits_def set_pc_def split: if_splits)
  show "sl_locked (d_slk (s_data ?s') c) \<or> wake_pending c u ?s'"
  proof (cases "sl_locked (d_slk (s_data s) c)")
    case True
    then have "sl_locked (d_slk d' c) \<or> wakes c u l'" using Goto_unlocks [OF g, of c] by auto
    then show ?thesis by (auto simp: wake_pending_def set_pc_def)
  next
    case False
    then obtain j v m where j: "s_pc s j = Thr v m" "wakes c u m"
      using was assms(3) unfolding wake_inv_def wake_pending_def by blast
    show ?thesis
    proof (cases "j = i")
      case True
      then have m: "wakes c u l" using j assms(4) by simp
      have "wakes c u l'"
      proof (rule ccontr)
        assume "\<not> wakes c u l'"
        then have h: "PLock u \<in> held t l" "\<not> asleep_on c u d'" using Goto_wakes [OF g m] by auto
        then obtain k where k: "s_pc s k = Thr u (AcqSleep c SlSet)" "k \<noteq> i"
          using w Goto_not_SlSet [OF g] by (auto simp: waits_def set_pc_def split: if_splits)
        then show False using lock_inv_disjoint [OF assms(2) k(2)] h(1) assms(4) by auto
      qed
      then show ?thesis by (auto simp: wake_pending_def set_pc_def)
    next
      case False
      then show ?thesis using j by (auto simp: wake_pending_def set_pc_def)
    qed
  qed
qed

lemma wake_inv_thread:
  assumes "thr_inv s" and "lock_inv s" and "wake_inv s" and "s_pc s i = Thr t l"
    and r: "thread_step cl b i t l s = Ok s'" and "thr_inv s'"
  shows "wake_inv s'"
proof -
  note f = thr_inv_pc [OF assms(1,4)]
  have tk: "lok t l (s_data s)" using f(3) by (simp add: tok_def)
  have keep: "wake_inv s'" if "s_pc s' = (s_pc s)(i := Thr t l')" "s_data s' = s_data s"
    "\<And>c. l' = AcqSleep c SlSet \<Longrightarrow> sl_locked (d_slk (s_data s) c)"
    "\<And>c u. wakes c u l \<Longrightarrow> u < NPROC \<Longrightarrow> wakes c u l'" for l'
    by (rule wake_inv_step [OF assms(3) that(1)])
      (use that(2-4) assms(4) waits_less [OF assms(6)] in auto)
  show ?thesis
  proof (cases "code cl b t l (s_data s)")
    case (Acquire L l')
    then have "do_acquire i L (Thr t l') s = Ok s'" using r f(1) by (simp add: thread_step_def)
    from do_acquire_frame [OF this] show ?thesis
      using Acquire to_SlSet(1) [OF tk] wakes_kept(1) [OF Acquire] by (intro keep [of l']) auto
  next
    case (Release L l')
    then have "do_release i L (Thr t l') s = Ok s'" using r f(1) by (simp add: thread_step_def)
    from do_release_frame [OF this] show ?thesis
      using Release to_SlSet(3) [OF tk] wakes_kept(2) [OF Release] by (intro keep [of l']) auto
  next
    case (Goto l' d')
    then have "moves (code cl b t l (s_data s)) l' d'" by simp
    from wake_inv_goto [OF assms(1-4) this] Goto show ?thesis using r f(1) by (simp add: thread_step_def)
  next
    case (Hold L m l' d')
    then have "moves (code cl b t l (s_data s)) l' d'" by simp
    from wake_inv_goto [OF assms(1-4) this] Hold show ?thesis
      using r f(1) by (simp add: thread_step_def split: if_splits)
  next
    case (IntrOn l')
    then have "s' = set_pc i (Thr t l') (set_intr i True s)" using r f(1) by (simp add: thread_step_def)
    moreover have "\<not> wakes c u l" if "u < NPROC" for c u using wakes_kept(4) [OF IntrOn _ that] by blast
    moreover have "l' \<noteq> AcqSleep c SlSet" for c using IntrOn to_SlSet(2) [OF tk] by blast
    ultimately show ?thesis by (intro keep [of l']) (auto simp: set_pc_def set_intr_def)
  next
    case (CallSched l')
    then have "sched i t t l' s = Ok s'" using r f(1) by (simp add: thread_step_def)
    then have "s_pc s' = (s_pc s)(i := SchedBack (s_idx s i))" "d_slk (s_data s') = d_slk (s_data s)"
      "d_state (s_data s') = d_state (s_data s)" "d_chan (s_data s') = d_chan (s_data s)"
      by (auto simp: sched_def set_pc_def Let_def split: if_splits)
    moreover have "\<not> wakes c u l" if "u < NPROC" for c u using wakes_kept(3) [OF CallSched _ that] by blast
    ultimately show ?thesis
      using assms(4) waits_less [OF assms(6)] by (intro wake_inv_step [OF assms(3)]) (auto simp: asleep_on_def)
  next
    case (Halt e)
    then show ?thesis using r f(1) by (simp add: thread_step_def)
  qed
qed

lemma wakes_held: "wakes c t m \<Longrightarrow> SLock c \<in> held u m"
  by (induction m rule: loc_cases) auto

lemma wake_inv_cpu_step:
  assumes "thr_inv s" and "lock_inv s" and "wake_inv s" and "cpu_step intr cl b i s = Ok s'" and "thr_inv s'"
  shows "wake_inv s'"
proof (cases "s_pc s i")
  case (Thr t l)
  show ?thesis
  proof (cases "intr \<and> intr_on (s_cpu s i)")
    case True
    then have r: "timer i t l s = Ok s'" using assms(4) Thr by (simp add: cpu_step_def)
    have "held t l = {}" using True assms(2) Thr by (force simp: lock_inv_def)
    then have "\<not> wakes c u l" for c u using wakes_held by blast
    moreover have "s' = s \<or> s' = set_pc i (Thr t (Yield YAcq (KtRet l))) (set_intr i False s)"
      using r by (auto simp: timer_def split: option.splits if_splits)
    ultimately show ?thesis using assms(3) Thr
      by (elim disjE) (simp, intro wake_inv_step [OF assms(3)], auto simp: set_pc_def set_intr_def)
  next
    case False
    then have "thread_step cl b i t l s = Ok s'" using assms(4) Thr by (auto simp: cpu_step_def)
    then show ?thesis using wake_inv_thread [OF assms(1-3) Thr] assms(5) by blast
  qed
next
  case (SchedTest p)
  have r: "scheduler_step i (SchedTest p) s = Ok s'" using SchedTest assms(4) by (simp add: cpu_step_def)
  show ?thesis
  proof (cases "d_state (s_data s) p = RUNNABLE")
    case True
    let ?ctx = "d_ctx (s_data s) p"
    have "resume (k_loc ?ctx)" using SchedTest_off [OF assms(1,2) SchedTest True] by blast
    then have "k_loc ?ctx \<noteq> AcqSleep c SlSet" for c by auto
    then show ?thesis using r True SchedTest
      by (intro wake_inv_step [OF assms(3), of s' i "Thr (k_thr ?ctx) (k_loc ?ctx)"])
        (auto simp: Let_def set_pc_def asleep_on_def split: if_splits option.splits)
  next
    case False
    then show ?thesis using r SchedTest
      by (intro wake_inv_step [OF assms(3), of s' i "SchedRel p"]) (auto simp: set_pc_def)
  qed
next
  case SchedTop
  then show ?thesis using assms(4)
    by (intro wake_inv_step [OF assms(3), of s' i "SchedAcq 0"]) (auto simp: cpu_step_def set_pc_def set_intr_def)
next
  case (SchedAcq p)
  then have "do_acquire i (PLock p) (SchedTest p) s = Ok s'" using assms(4) by (simp add: cpu_step_def)
  from do_acquire_frame [OF this] show ?thesis using SchedAcq by (intro wake_inv_step [OF assms(3)]) auto
next
  case (SchedBack p)
  then show ?thesis using assms(4)
    by (intro wake_inv_step [OF assms(3), of s' i "SchedRel p"]) (auto simp: cpu_step_def set_pc_def)
next
  case (SchedRel p)
  then have "do_release i (PLock p) (if Suc p < NPROC then SchedAcq (Suc p) else SchedTop) s = Ok s'"
    using assms(4) by (simp add: cpu_step_def)
  from do_release_frame [OF this] show ?thesis using SchedRel by (intro wake_inv_step [OF assms(3)]) (auto split: if_splits)
qed

lemma reach_wake_inv: "sched_reach s \<Longrightarrow> wake_inv s"
proof (induction rule: sched_reach.induct)
  case reach_boot
  then show ?case by (simp add: wake_inv_def waits_def asleep_on_def boot_def)
next
  case (reach_step s intr cl b i s')
  then show ?case using reach_inv [of s] reach_inv [OF sched_reach.reach_step, of s intr cl b i s']
    wake_inv_cpu_step [of s intr cl b i s'] by blast
qed

section \<open>Concrete runs\<close>

text \<open>A schedule is a list of events; \<open>run_events\<close> executes it from a state.\<close>

fun run_events :: "(nat \<times> syscl \<times> bool) list \<Rightarrow> ssys \<Rightarrow> ssys outcome" where
  "run_events [] s = Ok s"
| "run_events ((i, cl, b) # es) s = obind (cpu_step False cl b i s) (run_events es)"

lemma run_events_reach: "run_events es s = Ok s' \<Longrightarrow> sched_reach s \<Longrightarrow> sched_reach s'"
proof (induction es arbitrary: s)
  case (Cons e es)
  obtain i cl b where e: "e = (i, cl, b)" by (cases e)
  from Cons.prems(1) obtain s1 where "cpu_step False cl b i s = Ok s1" "run_events es s1 = Ok s'"
    unfolding e by (auto simp: obind_Ok_iff)
  then show ?case using Cons reach_step by blast
qed simp

text \<open>
  The first process takes sleep lock 0 and forks; its child runs on another CPU and goes to sleep
  waiting for the lock.
\<close>

definition lock_events :: "(nat \<times> syscl \<times> bool) list" where
  "lock_events = replicate 8 (0, CAcquireSleep 0, False) @ replicate 7 (0, CFork, False) @
     replicate 13 (1, CAcquireSleep 0, False)"

definition lock_state :: ssys where
  "lock_state = (case run_events lock_events boot of Ok s \<Rightarrow> s | _ \<Rightarrow> boot)"

text \<open>The child forks in turn and waits for its own child.\<close>

definition wait_events :: "(nat \<times> syscl \<times> bool) list" where
  "wait_events = replicate 4 (0, CFork, False) @ replicate 7 (0, CFork, False) @ replicate 7 (1, CFork, False) @
     replicate 10 (1, CFork, False) @ replicate 17 (1, CWait, False)"

definition wait_state :: ssys where
  "wait_state = (case run_events wait_events boot of Ok s \<Rightarrow> s | _ \<Rightarrow> boot)"

lemma lock_state_reach: "sched_reach lock_state"
proof -
  have "run_events lock_events boot = Ok lock_state \<or> lock_state = boot"
    by (auto simp: lock_state_def split: outcome.splits)
  then show ?thesis using run_events_reach reach_boot by auto
qed

lemma wait_state_reach: "sched_reach wait_state"
proof -
  have "run_events wait_events boot = Ok wait_state \<or> wait_state = boot"
    by (auto simp: wait_state_def split: outcome.splits)
  then show ?thesis using run_events_reach reach_boot by auto
qed

section \<open>Properties\<close>

text \<open>
  C1: in every interleaving of the CPUs a step panics only with \<^verbatim>\<open>init exiting\<close>, when the first process
  has called \<open>exit\<close> (the checks of \<open>acquire\<close>, \<open>release\<close>, \<open>sched\<close> and \<open>wakeup1\<close> never fail, no null process is
  dereferenced, no dead process runs again), a process is on at most one CPU, \<^verbatim>\<open>c->proc\<close> is the process whose thread the CPU executes, a process in state \<open>RUNNING\<close> is
  on some CPU, and interrupts are off while a lock is held.
\<close>

theorem scheduling_safe:
  assumes "sched_reach s"
  shows "(\<forall>intr cl b i e. cpu_step intr cl b i s = Panic e \<longrightarrow>
      e = ''init exiting'' \<and> s_proc s i = Some INIT \<and> s_pc s i = Thr INIT (Exit ExStart)) \<and>
    (\<forall>i j t l m. s_pc s i = Thr t l \<and> s_pc s j = Thr t m \<longrightarrow> i = j) \<and>
    (\<forall>i t l. s_pc s i = Thr t l \<longrightarrow> s_proc s i = Some t) \<and>
    (\<forall>t. d_state (s_data s) t = RUNNING \<longrightarrow> (\<exists>i l. s_pc s i = Thr t l)) \<and>
    (\<forall>i. 0 < noff (s_cpu s i) \<longrightarrow> \<not> intr_on (s_cpu s i))"
proof -
  have inv: "thr_inv s" "lock_inv s" using reach_inv [OF assms] by auto
  have "init_exits e i s" if "cpu_step intr cl b i s = Panic e" for intr cl b i e
    using cpu_step_ok [OF inv, of i intr cl b] that by (simp add: step_ok_def)
  moreover have "\<exists>i l. s_pc s i = Thr t l" if "d_state (s_data s) t = RUNNING" for t
  proof (rule ccontr)
    assume "\<nexists>i l. s_pc s i = Thr t l"
    then have "offok t (s_data s)" using inv(1) by (simp add: thr_inv_def off_def)
    then show False using that by (simp add: offok_def)
  qed
  moreover have "\<forall>i j t l m. s_pc s i = Thr t l \<and> s_pc s j = Thr t m \<longrightarrow> i = j"
    using inv(1) thr_inv_pc(5) by blast
  moreover have "\<forall>i t l. s_pc s i = Thr t l \<longrightarrow> s_proc s i = Some t" using inv(1) thr_inv_pc(1) by blast
  moreover have "\<forall>i. 0 < noff (s_cpu s i) \<longrightarrow> \<not> intr_on (s_cpu s i)" using inv(2) by (simp add: lock_inv_def)
  ultimately show ?thesis unfolding init_exits_def by blast
qed

theorem scheduling_safe_witness:
  "s_pc lock_state 0 = Thr 0 Outside \<and> s_pc lock_state 1 = Thr 1 (AcqSleep 0 SlSched) \<and>
   cpu_step True CYield False 1 lock_state \<noteq> Panic ''sched locks'' \<and> s_proc lock_state 1 = Some 1"
proof -
  have "s_pc lock_state 0 = Thr 0 Outside" "s_pc lock_state 1 = Thr 1 (AcqSleep 0 SlSched)" by code_simp+
  then show ?thesis using scheduling_safe [OF lock_state_reach] by fastforce
qed

text \<open>
  C2: no wakeup of a sleep lock is lost. In every reachable state a process asleep in \<open>acquiresleep\<close>
  on lock \<open>c\<close> finds the lock held, or some CPU is inside the \<open>wakeup\<close> of a \<open>releasesleep\<close> of \<open>c\<close> and has
  still to visit this process.
\<close>

theorem sleep_wakeup_not_lost:
  assumes "sched_reach s" and "d_state (s_data s) t = SLEEPING" and "d_chan (s_data s) t = Some (SleepCh c)"
  shows "sl_locked (d_slk (s_data s) c) \<or> (\<exists>j u m. s_pc s j = Thr u m \<and> wakes c t m)"
  using reach_wake_inv [OF assms(1)] assms(2,3)
  by (auto simp: wake_inv_def waits_def asleep_on_def wake_pending_def)

theorem sleep_wakeup_not_lost_witness:
  "d_state (s_data lock_state) 1 = SLEEPING \<and>
   (sl_locked (d_slk (s_data lock_state) 0) \<or> (\<exists>j u m. s_pc lock_state j = Thr u m \<and> wakes 0 1 m))"
proof -
  have "d_state (s_data lock_state) 1 = SLEEPING" "d_chan (s_data lock_state) 1 = Some (SleepCh 0)" by code_simp+
  then show ?thesis using sleep_wakeup_not_lost [OF lock_state_reach] by blast
qed

text \<open>
  C3: no exit is lost to a waiting parent. In every reachable state a process other than the first
  that is asleep in \<open>wait\<close> has no zombie child (the first process may inherit zombies from an exiting
  process without being woken, as the comment in \<open>exit\<close> says).
\<close>

theorem exit_not_lost:
  assumes "sched_reach s" and "t \<noteq> INIT" and "d_state (s_data s) t = SLEEPING"
    and "d_chan (s_data s) t = Some (WaitCh t)" and "d_parent (s_data s) k = Some t"
  shows "d_state (s_data s) k \<noteq> ZOMBIE"
proof -
  have "dinv (s_data s)" using reach_inv [OF assms(1)] by (simp add: thr_inv_def)
  then show ?thesis using assms(2-5) by (simp add: dinv_def)
qed

theorem exit_not_lost_witness:
  "d_state (s_data wait_state) 1 = SLEEPING \<and> d_parent (s_data wait_state) 2 = Some 1 \<and>
   d_state (s_data wait_state) 2 \<noteq> ZOMBIE"
proof -
  have "d_state (s_data wait_state) 1 = SLEEPING" "d_chan (s_data wait_state) 1 = Some (WaitCh 1)"
    "d_parent (s_data wait_state) 2 = Some 1" by code_simp+
  then show ?thesis using exit_not_lost [OF wait_state_reach, of 1 2] by (simp add: INIT_def)
qed

end
