(* ===== verification/Trap.thy ===== *)
theory Trap
  imports Exec
begin

text \<open>
  Traps: \<^verbatim>\<open>kernel/trap.c\<close> and the dispatch of \<^verbatim>\<open>kernel/syscall.c\<close>. The supervisor registers of the hart
  are a record; what the PLIC answers (\<open>irq\<close>) and the handlers of the two devices are parameters of
  \<open>devintr\<close>. What the rest of the kernel does to a process and its hart between the call of \<open>yield\<close> in
  \<open>usertrap\<close> and its return is a parameter, \<open>ke_away\<close>. A system call that sleeps ends the step; when it
  returns after all, \<open>usertrap_woken\<close> is what is left of \<open>usertrap\<close>. \<open>printf\<close> has no effect on the kernel
  state.
\<close>

section \<open>Registers\<close>

record hart =
  sstatus :: u64
  sepc :: u64
  scause :: u64
  stvec :: u64
  satp :: u64
  tp :: u64
  sip :: u64

definition SSTATUS_SPP :: u64 where "SSTATUS_SPP = push_bit 8 1"
definition SSTATUS_SPIE :: u64 where "SSTATUS_SPIE = push_bit 5 1"
definition SSTATUS_SIE :: u64 where "SSTATUS_SIE = push_bit 1 1"

definition hintr_on :: "hart \<Rightarrow> hart" where
  "hintr_on h = h\<lparr>sstatus := sstatus h OR SSTATUS_SIE\<rparr>"

definition hintr_off :: "hart \<Rightarrow> hart" where
  "hintr_off h = h\<lparr>sstatus := sstatus h AND NOT SSTATUS_SIE\<rparr>"

definition intr_get :: "hart \<Rightarrow> bool" where
  "intr_get h \<longleftrightarrow> sstatus h AND SSTATUS_SIE \<noteq> 0"

definition trapinithart :: "syms \<Rightarrow> hart \<Rightarrow> hart" where
  "trapinithart sy h = h\<lparr>stvec := sy_kernelvec sy\<rparr>"

section \<open>Dispatch of system calls\<close>

text \<open>
  The devices' read and write functions, the linker's symbols, the stack contents for \<open>sys_open\<close>, and the
  hart and the state a process finds when \<open>yield\<close> returns.
\<close>

record kenv =
  ke_syms :: syms
  ke_read :: devsw
  ke_write :: devsw
  ke_stk :: "u8 list"
  ke_away :: "hart \<Rightarrow> kstate \<Rightarrow> hart \<times> kstate"

definition syscalls :: "kenv \<Rightarrow> int \<Rightarrow> (nat \<Rightarrow> kstate \<Rightarrow> sysres) option" where
  "syscalls e num =
     (let sy = ke_syms e in
      if num = 1 then Some (sys_fork sy)
      else if num = 2 then Some (sys_exit sy)
      else if num = 3 then Some (sys_wait sy)
      else if num = 4 then Some (sys_pipe sy)
      else if num = 5 then Some (sys_read (ke_read e))
      else if num = 6 then Some sys_kill
      else if num = 7 then Some (sys_exec sy)
      else if num = 8 then Some sys_fstat
      else if num = 9 then Some sys_chdir
      else if num = 10 then Some sys_dup
      else if num = 11 then Some sys_getpid
      else if num = 12 then Some (sys_sbrk sy)
      else if num = 13 then Some sys_sleep
      else if num = 14 then Some sys_uptime
      else if num = 15 then Some (sys_open sy (ke_stk e))
      else if num = 16 then Some (sys_write (ke_write e))
      else if num = 17 then Some sys_mknod
      else if num = 18 then Some sys_unlink
      else if num = 19 then Some sys_link
      else if num = 20 then Some sys_mkdir
      else if num = 21 then Some (sys_close sy)
      else if num = 22 then Some sys_symlink
      else None)"

definition set_a0 :: "nat \<Rightarrow> int \<Rightarrow> kstate \<Rightarrow> kstate" where
  "set_a0 p v s = upd_tf p (\<lambda>t. t\<lparr>tf_a0 := of_int v\<rparr>) s"

text \<open>\<^verbatim>\<open>int num = p->trapframe->a7\<close> keeps the low 32 bits.\<close>

definition syscall :: "kenv \<Rightarrow> nat \<Rightarrow> kstate \<Rightarrow> sysres" where
  "syscall e p s =
     (case syscalls e (sint (ucast (tf_a7 (tf_of p s)) :: u32)) of
        None \<Rightarrow> Ok (Returns (-1), set_a0 p (-1) s)
      | Some f \<Rightarrow>
          obind (f p s) (\<lambda>(c, s1).
            case c of
              Returns v \<Rightarrow> Ok (Returns v, set_a0 p v s1)
            | Sleeps i \<Rightarrow> Ok (Sleeps i, s1)))"

section \<open>Interrupts\<close>

definition UART0_IRQ :: int where "UART0_IRQ = 10"
definition VIRTIO0_IRQ :: int where "VIRTIO0_IRQ = 1"

definition clockintr :: "kstate \<Rightarrow> kstate" where
  "clockintr s = wakeup TicksCh (s\<lparr>ticks := ticks s + 1\<rparr>)"

text \<open>\<open>dv_irq\<close> is what \<^verbatim>\<open>plic_claim\<close> returns.\<close>

record devices =
  dv_irq :: int
  dv_uartintr :: "kstate \<Rightarrow> kstate outcome"
  dv_diskintr :: "kstate \<Rightarrow> kstate outcome"

definition devintr :: "devices \<Rightarrow> hart \<Rightarrow> kstate \<Rightarrow> (int \<times> hart \<times> kstate) outcome" where
  "devintr dv h s =
     (if scause h AND 0x8000000000000000 \<noteq> 0 \<and> scause h AND 0xff = 9 then
        obind (if dv_irq dv = UART0_IRQ then dv_uartintr dv s
               else if dv_irq dv = VIRTIO0_IRQ then dv_diskintr dv s
               else Ok s) (\<lambda>s1. Ok (1, h, s1))
      else if scause h = 0x8000000000000001 then
        let s1 = (if tp h = 0 then clockintr s else s)
        in Ok (2, h\<lparr>sip := sip h AND NOT 2\<rparr>, s1)
      else Ok (0, h, s))"

section \<open>Traps from user space\<close>

text \<open>
  How \<open>usertrap\<close> ends: with the jump to the trampoline's \<open>userret\<close> at an address, with \<^verbatim>\<open>TRAPFRAME\<close> and a
  value for \<^verbatim>\<open>satp\<close>; or without return, because the process exited or sleeps in a system call.
\<close>

datatype trapend = ToUser u64 u64 | NoReturn

definition usertrapret :: "syms \<Rightarrow> nat \<Rightarrow> hart \<Rightarrow> kstate \<Rightarrow> trapend \<times> hart \<times> kstate" where
  "usertrapret sy p h s =
     (let h1 = hintr_off h;
          h2 = h1\<lparr>stvec := TRAMPOLINE + (sy_uservec sy - sy_trampoline sy)\<rparr>;
          s1 = upd_tf p (\<lambda>t. t\<lparr>kernel_satp := satp h2, kernel_sp := p_kstack (procs s p) + PGSIZE,
                 kernel_trap := sy_usertrap sy, kernel_hartid := tp h2\<rparr>) s;
          x = sstatus h2 AND NOT SSTATUS_SPP;
          x1 = x OR SSTATUS_SPIE;
          h3 = h2\<lparr>sstatus := x1, sepc := tf_epc (tf_of p s1)\<rparr>
      in (ToUser (TRAMPOLINE + (sy_userret sy - sy_trampoline sy)) (MAKE_SATP (p_pagetable (procs s1 p))), h3, s1))"

text \<open>
  The part of \<open>usertrap\<close> after the cause has been handled. Once \<open>yield\<close> has returned \<^verbatim>\<open>p->killed\<close> is not
  tested again.
\<close>

definition usertrap_end :: "kenv \<Rightarrow> nat \<Rightarrow> int \<Rightarrow> hart \<Rightarrow> kstate \<Rightarrow> (trapend \<times> hart \<times> kstate) outcome" where
  "usertrap_end e p which_dev h s =
     (if p_killed (procs s p) then obind (exit (ke_syms e) (me_of p s) p (-1) s) (\<lambda>s1. Ok (NoReturn, h, s1))
      else
        let (h1, s1) = (if which_dev = 2 then ke_away e h (upd_proc p (\<lambda>x. x\<lparr>p_state := RUNNABLE\<rparr>) s) else (h, s))
        in Ok (usertrapret (ke_syms e) p h1 s1))"

definition usertrap :: "kenv \<Rightarrow> devices \<Rightarrow> nat \<Rightarrow> hart \<Rightarrow> kstate \<Rightarrow> (trapend \<times> hart \<times> kstate) outcome" where
  "usertrap e dv p h s =
     (let sy = ke_syms e in
      if sstatus h AND SSTATUS_SPP \<noteq> 0 then Panic ''usertrap: not from user mode''
      else
        let h1 = h\<lparr>stvec := sy_kernelvec sy\<rparr>;
            s1 = upd_tf p (\<lambda>t. t\<lparr>tf_epc := sepc h1\<rparr>) s
        in if scause h1 = 8 then
             if p_killed (procs s1 p) then obind (exit sy (me_of p s1) p (-1) s1) (\<lambda>s2. Ok (NoReturn, h1, s2))
             else
               let s2 = upd_tf p (\<lambda>t. t\<lparr>tf_epc := tf_epc t + 4\<rparr>) s1;
                   h2 = hintr_on h1
               in obind (syscall e p s2) (\<lambda>(c, s3).
                    case c of
                      Sleeps i \<Rightarrow> Ok (NoReturn, h2, s3)
                    | Returns v \<Rightarrow> usertrap_end e p 0 h2 s3)
           else
             obind (devintr dv h1 s1) (\<lambda>(which_dev, h2, s2).
               if which_dev \<noteq> 0 then usertrap_end e p which_dev h2 s2
               else usertrap_end e p 0 h2 (upd_proc p (\<lambda>x. x\<lparr>p_killed := True\<rparr>) s2)))"


text \<open>
  \<open>forkret\<close>, the first run of a process, after it has released its lock: \<open>fsinit\<close> on the very first call,
  then to user space.
\<close>

definition forkret :: "syms \<Rightarrow> nat \<Rightarrow> bool \<Rightarrow> hart \<Rightarrow> kstate \<Rightarrow> (trapend \<times> hart \<times> kstate) outcome" where
  "forkret sy p is_first h s =
     obind (if is_first then fsinit (me_of p s) 1 s else Ok s) (\<lambda>s1. Ok (usertrapret sy p h s1))"

section \<open>Traps from the kernel\<close>

text \<open>
  \<open>po\<close> is \<^verbatim>\<open>myproc()\<close>. The result tells whether the handler calls \<open>yield\<close> before it restores the registers
  it saved.
\<close>

definition kerneltrap :: "devices \<Rightarrow> nat option \<Rightarrow> hart \<Rightarrow> kstate \<Rightarrow> (bool \<times> hart \<times> kstate) outcome" where
  "kerneltrap dv po h s =
     (let sepc0 = sepc h; sstatus0 = sstatus h in
      if sstatus0 AND SSTATUS_SPP = 0 then Panic ''kerneltrap: not from supervisor mode''
      else if intr_get h then Panic ''kerneltrap: interrupts enabled''
      else
        obind (devintr dv h s) (\<lambda>(which_dev, h1, s1).
          if which_dev = 0 then Panic ''kerneltrap''
          else
            let h2 = h1\<lparr>sepc := sepc0, sstatus := sstatus0\<rparr>
            in case po of
                 Some p \<Rightarrow>
                   if which_dev = 2 \<and> p_state (procs s1 p) = RUNNING
                   then Ok (True, h2, upd_proc p (\<lambda>x. x\<lparr>p_state := RUNNABLE\<rparr>) s1)
                   else Ok (False, h2, s1)
               | None \<Rightarrow> Ok (False, h2, s1)))"

section \<open>Properties\<close>

text \<open>The registers and the trap frame \<open>usertrapret\<close> leaves.\<close>

lemma tf_of_upd_tf [simp]: "tf_of p (upd_tf p f s) = f (tf_of p s)"
  by (simp add: tf_of_def upd_tf_def Let_def)

lemma procs_upd_tf [simp]: "procs (upd_tf p f s) = procs s"
  by (simp add: upd_tf_def Let_def)






lemma wakeup_killed [simp]: "p_killed (procs (wakeup ch s) p) = p_killed (procs s p)"
proof -
  have "p_killed (procs (wakeup_loop ch q k s) p) = p_killed (procs s p)" for q k
    by (induction k arbitrary: q s) (simp_all add: upd_proc_def)
  then show ?thesis by (simp add: wakeup_def)
qed



text \<open>
  C22: a system call with a number outside the table returns to the user with -1 in \<^verbatim>\<open>a0\<close> behind the
  \<^verbatim>\<open>ecall\<close> instruction, and changes nothing but the trap frame of the caller.
\<close>

theorem unknown_syscall_harmless:
  assumes "sstatus h AND SSTATUS_SPP = 0" and "scause h = 8" and "\<not> p_killed (procs s p)"
    and "syscalls e (sint (ucast (tf_a7 (tf_of p s)) :: u32)) = None"
  shows "\<exists>fn sp h' s'. usertrap e dv p h s = Ok (ToUser fn sp, h', s') \<and> tf_a0 (tf_of p s') = -1 \<and>
    tf_epc (tf_of p s') = sepc h + 4 \<and> s'\<lparr>tframes := tframes s\<rparr> = s \<and>
    (\<forall>a. a \<noteq> p_trapframe (procs s p) \<longrightarrow> tframes s' a = tframes s a)"
  using assms
  by (auto simp: usertrap_def Let_def syscall_def set_a0_def usertrap_end_def usertrapret_def tf_of_def upd_tf_def)

text \<open>A process whose trap frame asks for the call with number \<open>n\<close>.\<close>

definition calling_k :: "u64 \<Rightarrow> kstate" where
  "calling_k n = upd_tf 0 (\<lambda>t. t\<lparr>tf_a7 := n\<rparr>) (upd_proc 0 (\<lambda>x. x\<lparr>p_state := RUNNING, p_pid := 1\<rparr>) empty_k)"

definition ecall_hart :: hart where
  "ecall_hart = \<lparr>sstatus = 0, sepc = 0x100, scause = 8, stvec = 0, satp = 0, tp = 0, sip = 0\<rparr>"

definition plain_env :: kenv where
  "plain_env = \<lparr>ke_syms = \<lparr>sy_end = 0x80020000, sy_trampoline = 0x80007000, sy_uservec = 0x80007000,
     sy_userret = 0x80007090, sy_usertrap = 0x80002a00, sy_kernelvec = 0x80005b00, sy_forkret = 0x80001a00,
     sy_initcode = 0x80008900\<rparr>, ke_read = (\<lambda>_. None), ke_write = (\<lambda>_. None), ke_stk = [], ke_away = Pair\<rparr>"

definition no_devices :: devices where
  "no_devices = \<lparr>dv_irq = 0, dv_uartintr = Ok, dv_diskintr = Ok\<rparr>"




theorem unknown_syscall_harmless_witness:
  "\<exists>fn sp h' s'. usertrap plain_env no_devices 0 ecall_hart (calling_k 23) = Ok (ToUser fn sp, h', s') \<and>
     tf_a0 (tf_of 0 s') = -1 \<and> tf_epc (tf_of 0 s') = 0x104 \<and> procs s' = procs (calling_k 23)"
proof -
  have k: "\<not> p_killed (procs (calling_k 23) 0)" "tf_a7 (tf_of 0 (calling_k 23)) = 23"
    by (simp_all add: calling_k_def upd_proc_def empty_proc_def)
  have "syscalls plain_env (sint (ucast (tf_a7 (tf_of 0 (calling_k 23))) :: u32)) = None"
    by (simp add: k syscalls_def Let_def)
  then obtain fn sp h' s' where r: "usertrap plain_env no_devices 0 ecall_hart (calling_k 23) = Ok (ToUser fn sp, h', s')"
    "tf_a0 (tf_of 0 s') = -1" "tf_epc (tf_of 0 s') = sepc ecall_hart + 4"
    "s'\<lparr>tframes := tframes (calling_k 23)\<rparr> = calling_k 23"
    using unknown_syscall_harmless [of ecall_hart "calling_k 23" 0 plain_env no_devices] k
    by (auto simp: ecall_hart_def)
  have "procs s' = procs (s'\<lparr>tframes := tframes (calling_k 23)\<rparr>)" by simp
  then show ?thesis using r by (auto simp: ecall_hart_def)
qed

end
