(* ===== verification/Console.thy ===== *)
theory Console
  imports Ring
begin

text \<open>
  Console input and serial output: \<^verbatim>\<open>kernel/console.c\<close> and \<^verbatim>\<open>kernel/uart.c\<close>. The input buffer is a ring
  with three 32-bit counters \<open>r\<close>, \<open>w\<close>, \<open>e\<close>: the bytes between \<open>r\<close> and \<open>w\<close> are complete lines for
  \<open>consoleread\<close>, those between \<open>w\<close> and \<open>e\<close> the line being edited. It refines a pair of byte lists. The
  serial output is a ring with 64-bit counters and a queue of bytes. The device enters as the bytes
  it delivers and the number of bytes it has room for; the user's memory as in \<open>Pipe\<close>.
\<close>

section \<open>kernel/console.c\<close>

definition INPUT_BUF :: nat where "INPUT_BUF = 128"

record console =
  c_buf :: "u8 list"
  c_r :: u32
  c_w :: u32
  c_e :: u32

definition NL :: u8 where "NL = 0x0A"
definition CR :: u8 where "CR = 0x0D"
definition DEL :: u8 where "DEL = 0x7F"

text \<open>\<^verbatim>\<open>C(x) = x - '@'\<close>, the control characters \<^verbatim>\<open>^D\<close>, \<^verbatim>\<open>^H\<close>, \<^verbatim>\<open>^P\<close>, \<^verbatim>\<open>^U\<close>.\<close>

definition ctl :: "u8 \<Rightarrow> u8" where "ctl x = x - 0x40"

abbreviation "ctlD \<equiv> ctl 0x44"
abbreviation "ctlH \<equiv> ctl 0x48"
abbreviation "ctlP \<equiv> ctl 0x50"
abbreviation "ctlU \<equiv> ctl 0x55"

text \<open>The bytes \<open>consputc\<close> sends; \<open>None\<close> is \<^verbatim>\<open>BACKSPACE\<close>.\<close>

definition consputc :: "u8 option \<Rightarrow> u8 list" where
  "consputc c = (case c of None \<Rightarrow> [0x08, 0x20, 0x08] | Some b \<Rightarrow> [b])"

definition cslot :: "u32 \<Rightarrow> nat" where
  "cslot n = unat (n mod of_nat INPUT_BUF)"

function kill_line :: "console \<Rightarrow> u8 list \<Rightarrow> console \<times> u8 list" where
  "kill_line cs out =
     (if c_e cs \<noteq> c_w cs \<and> c_buf cs ! cslot (c_e cs - 1) \<noteq> NL
      then kill_line (cs\<lparr>c_e := c_e cs - 1\<rparr>) (out @ consputc None)
      else (cs, out))"
  by pat_completeness auto

lemma unat_pred_less:
  fixes e w :: "'a::len word"
  assumes "e \<noteq> w"
  shows "unat (e - 1 - w) < unat (e - w)"
proof -
  have "e - w \<noteq> 0" using assms by simp
  moreover have "e - 1 - w = (e - w) - 1" by simp
  ultimately show ?thesis using unat_minus_one [of "e - w"] unat_gt_0 [of "e - w"] by (metis diff_less zero_less_one)
qed

termination kill_line
  by (relation "measure (\<lambda>(cs, out). unat (c_e cs - c_w cs))") (auto simp: unat_pred_less)

declare kill_line.simps [simp del]

text \<open>
  \<open>consoleintr\<close> returns the new state, the echo, and whether it wakes \<open>consoleread\<close>; \<open>dump\<close> is what
  \<^verbatim>\<open>procdump\<close> prints.
\<close>

definition consoleintr :: "u8 list \<Rightarrow> u8 \<Rightarrow> console \<Rightarrow> console \<times> u8 list \<times> bool" where
  "consoleintr dump c cs =
     (if c = ctlP then (cs, dump, False)
      else if c = ctlU then (let (cs1, out) = kill_line cs [] in (cs1, out, False))
      else if c = ctlH \<or> c = DEL then
        if c_e cs \<noteq> c_w cs then (cs\<lparr>c_e := c_e cs - 1\<rparr>, consputc None, False) else (cs, [], False)
      else if c \<noteq> 0 \<and> c_e cs - c_r cs < of_nat INPUT_BUF then
        let c1 = (if c = CR then NL else c);
            cs1 = cs\<lparr>c_buf := (c_buf cs)[cslot (c_e cs) := c1], c_e := c_e cs + 1\<rparr>
        in if c1 = NL \<or> c1 = ctlD \<or> c_e cs1 = c_r cs1 + of_nat INPUT_BUF
           then (cs1\<lparr>c_w := c_e cs1\<rparr>, consputc (Some c1), True)
           else (cs1, consputc (Some c1), False)
      else (cs, [], False))"

datatype ccall = CReturns int | CSleeps nat u64

text \<open>
  The loop of \<open>consoleread\<close> with \<open>n\<close> bytes to go of \<open>target\<close>; a call that sleeps continues with the
  count and address it sleeps with. The bytes copied out are returned beside the result.
\<close>

fun consoleread_loop :: "(u64 \<Rightarrow> bool) \<Rightarrow> bool \<Rightarrow> nat \<Rightarrow> u64 \<Rightarrow> nat \<Rightarrow> console \<Rightarrow> u8 list \<Rightarrow> ccall \<times> u8 list \<times> console" where
  "consoleread_loop putc killed target dst 0 cs out = (CReturns (int target), out, cs)"
| "consoleread_loop putc killed target dst (Suc n) cs out =
     (if c_r cs = c_w cs then
        if killed then (CReturns (-1), out, cs) else (CSleeps (Suc n) dst, out, cs)
      else
        let c = c_buf cs ! cslot (c_r cs);
            cs1 = cs\<lparr>c_r := c_r cs + 1\<rparr>
        in if c = ctlD then
             let cs2 = (if Suc n < target then cs1\<lparr>c_r := c_r cs1 - 1\<rparr> else cs1)
             in (CReturns (int target - int (Suc n)), out, cs2)
           else if \<not> putc dst then (CReturns (int target - int (Suc n)), out, cs1)
           else if c = NL then (CReturns (int target - int n), out @ [c], cs1)
           else consoleread_loop putc killed target (dst + 1) n cs1 (out @ [c]))"

definition consoleread :: "(u64 \<Rightarrow> bool) \<Rightarrow> bool \<Rightarrow> u64 \<Rightarrow> nat \<Rightarrow> console \<Rightarrow> ccall \<times> u8 list \<times> console" where
  "consoleread putc killed dst n cs = consoleread_loop putc killed n dst n cs []"

definition consoleinit :: "u8 list \<Rightarrow> console" where
  "consoleinit buf = \<lparr>c_buf = buf, c_r = 0, c_w = 0, c_e = 0\<rparr>"

section \<open>kernel/uart.c\<close>

definition UART_TX_BUF_SIZE :: nat where "UART_TX_BUF_SIZE = 32"

record uart =
  tx_buf :: "u8 list"
  tx_w :: u64
  tx_r :: u64

definition tslot :: "u64 \<Rightarrow> nat" where
  "tslot n = unat (n mod of_nat UART_TX_BUF_SIZE)"

definition tx_full :: "uart \<Rightarrow> bool" where
  "tx_full u \<longleftrightarrow> tx_w u = tx_r u + of_nat UART_TX_BUF_SIZE"

definition tx_empty :: "uart \<Rightarrow> bool" where
  "tx_empty u \<longleftrightarrow> tx_w u = tx_r u"

definition tx_put :: "u8 \<Rightarrow> uart \<Rightarrow> uart" where
  "tx_put c u = u\<lparr>tx_buf := (tx_buf u)[tslot (tx_w u) := c], tx_w := tx_w u + 1\<rparr>"

definition tx_take :: "uart \<Rightarrow> u8 \<times> uart" where
  "tx_take u = (tx_buf u ! tslot (tx_r u), u\<lparr>tx_r := tx_r u + 1\<rparr>)"

text \<open>
  \<open>uartstart\<close> with room for \<open>room\<close> more bytes in the device: the bytes written to the transmit register
  (for each of them sleeping writers are woken), and the new buffer.
\<close>

fun uartstart :: "nat \<Rightarrow> uart \<Rightarrow> u8 list \<times> uart" where
  "uartstart 0 u = ([], u)"
| "uartstart (Suc room) u =
     (if tx_empty u then ([], u)
      else
        let (c, u1) = tx_take u;
            (cs, u2) = uartstart room u1
        in (c # cs, u2))"

text \<open>\<open>None\<close> is a call that sleeps because the buffer is full; it starts over when it is woken.\<close>

definition uartputc :: "nat \<Rightarrow> u8 \<Rightarrow> uart \<Rightarrow> (u8 list \<times> uart) option" where
  "uartputc room c u = (if tx_full u then None else Some (uartstart room (tx_put c u)))"

text \<open>\<open>consolewrite\<close>: the number of bytes accepted, or the sleep in \<open>uartputc\<close> at index \<open>i\<close>.\<close>

fun consolewrite_loop :: "(u64 \<Rightarrow> u8 option) \<Rightarrow> (nat \<Rightarrow> nat) \<Rightarrow> u64 \<Rightarrow> nat \<Rightarrow> nat \<Rightarrow> uart \<Rightarrow> u8 list \<Rightarrow> ccall \<times> u8 list \<times> uart" where
  "consolewrite_loop getc room src i 0 u sent = (CReturns (int i), sent, u)"
| "consolewrite_loop getc room src i (Suc k) u sent =
     (case getc (src + of_nat i) of
        None \<Rightarrow> (CReturns (int i), sent, u)
      | Some c \<Rightarrow>
          (case uartputc (room i) c u of
             None \<Rightarrow> (CSleeps (Suc k) (src + of_nat i), sent, u)
           | Some (out, u1) \<Rightarrow> consolewrite_loop getc room src (Suc i) k u1 (sent @ out)))"

definition consolewrite :: "(u64 \<Rightarrow> u8 option) \<Rightarrow> (nat \<Rightarrow> nat) \<Rightarrow> u64 \<Rightarrow> nat \<Rightarrow> uart \<Rightarrow> ccall \<times> u8 list \<times> uart" where
  "consolewrite getc room src n u = consolewrite_loop getc room src 0 n u []"

text \<open>
  \<open>uartintr\<close> hands the bytes waiting in the receiver to \<open>consoleintr\<close> one by one, then sends what is
  buffered. The result has the echo and the bytes sent.
\<close>

fun uart_input :: "u8 list \<Rightarrow> u8 list \<Rightarrow> console \<Rightarrow> u8 list \<Rightarrow> console \<times> u8 list" where
  "uart_input dump [] cs out = (cs, out)"
| "uart_input dump (c # input) cs out =
     (let (cs1, echo, w) = consoleintr dump c cs in uart_input dump input cs1 (out @ echo))"

definition uartintr :: "u8 list \<Rightarrow> u8 list \<Rightarrow> nat \<Rightarrow> console \<times> uart \<Rightarrow> (console \<times> uart) \<times> u8 list \<times> u8 list" where
  "uartintr dump input room = (\<lambda>(cs, u).
     let (cs1, echo) = uart_input dump input cs [];
         (sent, u1) = uartstart room u
     in ((cs1, u1), echo, sent))"

section \<open>The line discipline\<close>

text \<open>
  The abstract console: the bytes ready to be read and the line being edited.
\<close>

type_synonym ldisc = "u8 list \<times> u8 list"

definition line_edit :: "u8 \<Rightarrow> ldisc \<Rightarrow> ldisc" where
  "line_edit c = (\<lambda>(ready, line).
     if c = ctlP \<or> c = 0 then (ready, line)
     else if c = ctlU then (ready, [])
     else if c = ctlH \<or> c = DEL then (ready, butlast line)
     else if length ready + length line \<ge> INPUT_BUF then (ready, line)
     else
       let line' = line @ [if c = CR then NL else c]
       in if last line' = NL \<or> last line' = ctlD \<or> length ready + length line' = INPUT_BUF
          then (ready @ line', []) else (ready, line'))"

definition cons_abs :: "console \<Rightarrow> ldisc" where
  "cons_abs cs = (ring_cont INPUT_BUF (c_buf cs) (c_r cs) (c_w cs), ring_cont INPUT_BUF (c_buf cs) (c_w cs) (c_e cs))"

text \<open>The counters are in order, at most one buffer apart, and the edited line has no newline.\<close>

definition cons_inv :: "console \<Rightarrow> bool" where
  "cons_inv cs \<longleftrightarrow> length (c_buf cs) = INPUT_BUF \<and>
     unat (c_w cs - c_r cs) + unat (c_e cs - c_w cs) \<le> INPUT_BUF \<and> NL \<notin> set (snd (cons_abs cs))"

interpretation cring: word_ring INPUT_BUF "TYPE(32)"
  by unfold_locales (simp_all add: INPUT_BUF_def dvd_def)

lemma cslot_eq: "cslot n = unat n mod INPUT_BUF"
  by (simp add: cslot_def INPUT_BUF_def unat_mod_distrib)

lemma kill_line_spec:
  assumes "length (c_buf cs) = INPUT_BUF" and "unat (c_e cs - c_w cs) \<le> INPUT_BUF"
    and "NL \<notin> set (ring_cont INPUT_BUF (c_buf cs) (c_w cs) (c_e cs))"
  shows "fst (kill_line cs out) = cs\<lparr>c_e := c_w cs\<rparr>"
  using assms
proof (induction cs out rule: kill_line.induct)
  case (1 cs out)
  show ?case
  proof (cases "c_e cs = c_w cs")
    case True
    then have "cs\<lparr>c_e := c_w cs\<rparr> = cs" by (metis console.surjective console.update_convs(4))
    then show ?thesis using True by (simp add: kill_line.simps [of cs])
  next
    case False
    note u = cring.ring_unput(1,3) [OF False, of "c_buf cs"] cring.ring_unput(2) [OF False]
    have "last (ring_cont INPUT_BUF (c_buf cs) (c_w cs) (c_e cs)) \<noteq> NL"
      using 1(4) False ring_cont_empty_iff by (metis last_in_set)
    then have "c_buf cs ! cslot (c_e cs - 1) \<noteq> NL" using u(2) by (simp add: cslot_eq)
    moreover have "NL \<notin> set (butlast (ring_cont INPUT_BUF (c_buf cs) (c_w cs) (c_e cs)))"
      using 1(4) by (auto dest: in_set_butlastD)
    ultimately show ?thesis
      using 1(1) 1(2-3) False u(1,3) by (subst kill_line.simps) simp
  qed
qed

lemma cons_inv_count:
  assumes "cons_inv cs"
  shows "unat (c_e cs - c_r cs) = unat (c_w cs - c_r cs) + unat (c_e cs - c_w cs)"
  using assms by (intro cring.ring_count_append) (simp add: cons_inv_def)

text \<open>One byte stored in the edited line.\<close>

lemma cons_store:
  fixes c :: u8
  assumes "cons_inv cs" and "c_e cs - c_r cs < of_nat INPUT_BUF"
    and cs1_def: "cs1 = cs\<lparr>c_buf := (c_buf cs)[cslot (c_e cs) := c], c_e := c_e cs + 1\<rparr>"
  shows "cons_abs cs1 = (fst (cons_abs cs), snd (cons_abs cs) @ [c])"
    "unat (c_w cs1 - c_r cs1) + unat (c_e cs1 - c_w cs1) \<le> INPUT_BUF"
    "unat (c_w cs1 - c_r cs1) + unat (c_e cs1 - c_w cs1) = unat (c_w cs - c_r cs) + unat (c_e cs - c_w cs) + 1"
proof -
  have "unat (c_e cs - c_r cs) < INPUT_BUF"
    using assms(2) by (simp add: INPUT_BUF_def word_less_nat_alt)
  then have lt: "unat (c_w cs - c_r cs) + unat (c_e cs - c_w cs) < INPUT_BUF"
    using cons_inv_count [OF assms(1)] by simp
  then have lt': "unat (c_e cs - c_w cs) < INPUT_BUF" by simp
  have len: "length (c_buf cs) = INPUT_BUF" using assms(1) by (simp add: cons_inv_def)
  show "cons_abs cs1 = (fst (cons_abs cs), snd (cons_abs cs) @ [c])"
    using cring.ring_other [OF lt] cring.ring_put [OF len lt'] by (simp add: cons_abs_def cs1_def cslot_eq)
  show "unat (c_w cs1 - c_r cs1) + unat (c_e cs1 - c_w cs1) = unat (c_w cs - c_r cs) + unat (c_e cs - c_w cs) + 1"
    using cring.ring_count_put [OF lt'] by (simp add: cs1_def)
  with lt show "unat (c_w cs1 - c_r cs1) + unat (c_e cs1 - c_w cs1) \<le> INPUT_BUF" by simp
qed

lemma cons_room:
  assumes "cons_inv cs"
  shows "c_e cs - c_r cs < of_nat INPUT_BUF \<longleftrightarrow>
    \<not> INPUT_BUF \<le> length (fst (cons_abs cs)) + length (snd (cons_abs cs))"
  using cons_inv_count [OF assms] by (simp add: cons_abs_def INPUT_BUF_def word_less_nat_alt not_le)

lemma cons_full:
  assumes "unat (c_w cs - c_r cs) + unat (c_e cs - c_w cs) \<le> INPUT_BUF"
  shows "c_e cs = c_r cs + of_nat INPUT_BUF \<longleftrightarrow> length (fst (cons_abs cs)) + length (snd (cons_abs cs)) = INPUT_BUF"
  using cring.ring_full_iff [of "c_e cs" "c_r cs"] cring.ring_count_append [OF assms] by (simp add: cons_abs_def)

text \<open>Handing the edited line to the readers.\<close>

lemma cons_commit:
  assumes "unat (c_w cs - c_r cs) + unat (c_e cs - c_w cs) \<le> INPUT_BUF"
  shows "cons_abs (cs\<lparr>c_w := c_e cs\<rparr>) = (fst (cons_abs cs) @ snd (cons_abs cs), [])"
  using cring.ring_append [OF assms] by (simp add: cons_abs_def ring_cont_def)

lemma consoleintr_store:
  assumes "cons_inv cs" and "c_e cs - c_r cs < of_nat INPUT_BUF"
    and cs1: "cs1 = cs\<lparr>c_buf := (c_buf cs)[cslot (c_e cs) := c], c_e := c_e cs + 1\<rparr>"
  shows "c = NL \<or> c = ctlD \<or> c_e cs1 = c_r cs1 + of_nat INPUT_BUF \<Longrightarrow>
      cons_inv (cs1\<lparr>c_w := c_e cs1\<rparr>) \<and> cons_abs (cs1\<lparr>c_w := c_e cs1\<rparr>) = (fst (cons_abs cs) @ snd (cons_abs cs) @ [c], [])"
    and "c \<noteq> NL \<Longrightarrow> cons_inv cs1 \<and> cons_abs cs1 = (fst (cons_abs cs), snd (cons_abs cs) @ [c])"
proof -
  note st = cons_store [OF assms]
  have len: "length (c_buf cs1) = INPUT_BUF" and nl: "NL \<notin> set (snd (cons_abs cs))"
    using assms(1) by (simp_all add: cons_inv_def cs1)
  show "cons_inv (cs1\<lparr>c_w := c_e cs1\<rparr>) \<and> cons_abs (cs1\<lparr>c_w := c_e cs1\<rparr>) = (fst (cons_abs cs) @ snd (cons_abs cs) @ [c], [])"
    using cons_commit [OF st(2)] st(1,2) len cring.ring_count_append [OF st(2)] by (simp add: cons_inv_def)
  assume "c \<noteq> NL"
  then show "cons_inv cs1 \<and> cons_abs cs1 = (fst (cons_abs cs), snd (cons_abs cs) @ [c])"
    using st(1,2) len nl by (simp add: cons_inv_def)
qed

lemma consoleintr_erase:
  assumes "cons_inv cs" and "c_e cs \<noteq> c_w cs"
  shows "cons_inv (cs\<lparr>c_e := c_e cs - 1\<rparr>) \<and>
    cons_abs (cs\<lparr>c_e := c_e cs - 1\<rparr>) = (fst (cons_abs cs), butlast (snd (cons_abs cs)))"
  using assms cring.ring_unput(1) [OF assms(2), of "c_buf cs"] cring.ring_unput(2) [OF assms(2)]
  by (auto simp: cons_inv_def cons_abs_def dest: in_set_butlastD)

lemma consoleintr_refines:
  assumes "cons_inv cs" and "consoleintr dump c cs = (cs', echo, wake)"
  shows "cons_inv cs' \<and> cons_abs cs' = line_edit c (cons_abs cs) \<and>
    (wake \<longleftrightarrow> fst (cons_abs cs') \<noteq> fst (cons_abs cs))"
proof -
  let ?c = "if c = CR then NL else c"
  let ?cs1 = "cs\<lparr>c_buf := (c_buf cs)[cslot (c_e cs) := ?c], c_e := c_e cs + 1\<rparr>"
  obtain ready line where ab: "cons_abs cs = (ready, line)" by (cases "cons_abs cs")
  consider (dump) "c = ctlP" | (kill) "c = ctlU" | (erase) "c = ctlH \<or> c = DEL"
    | (full) "c \<noteq> ctlP" "c \<noteq> ctlU" "c \<noteq> ctlH" "c \<noteq> DEL" "c = 0 \<or> \<not> c_e cs - c_r cs < of_nat INPUT_BUF"
    | (store) "c \<noteq> ctlP" "c \<noteq> ctlU" "c \<noteq> ctlH" "c \<noteq> DEL" "c \<noteq> 0" "c_e cs - c_r cs < of_nat INPUT_BUF" by blast
  then show ?thesis
  proof cases
    case dump
    then show ?thesis using assms ab by (simp add: consoleintr_def line_edit_def)
  next
    case kill
    have "fst (kill_line cs []) = cs\<lparr>c_e := c_w cs\<rparr>"
      using assms(1) by (intro kill_line_spec) (auto simp: cons_inv_def cons_abs_def)
    then have "cs' = cs\<lparr>c_e := c_w cs\<rparr>" "\<not> wake"
      using kill assms(2) by (auto simp: consoleintr_def ctl_def Let_def split: prod.splits)
    then show ?thesis using assms(1) kill
      by (auto simp: cons_inv_def cons_abs_def line_edit_def ring_cont_def ctl_def)
  next
    case erase
    then show ?thesis
    proof (cases "c_e cs = c_w cs")
      case True
      then have "line = []" using ab by (simp add: cons_abs_def ring_cont_def)
      then show ?thesis using True erase assms ab by (auto simp: consoleintr_def line_edit_def ctl_def DEL_def)
    next
      case False
      then show ?thesis using consoleintr_erase [OF assms(1) False] erase assms(2) ab
        by (auto simp: consoleintr_def line_edit_def ctl_def DEL_def)
    qed
  next
    case full
    have "consoleintr dump c cs = (cs, [], False)" using full by (auto simp: consoleintr_def)
    moreover have "line_edit c (cons_abs cs) = cons_abs cs"
      using full cons_room [OF assms(1)] by (auto simp: line_edit_def ab)
    ultimately show ?thesis using assms by simp
  next
    case store
    have room: "\<not> INPUT_BUF \<le> length ready + length line" using cons_room [OF assms(1)] store(6) ab by simp
    note st = cons_store [OF assms(1) store(6), of ?cs1 ?c]
    note s = consoleintr_store [OF assms(1) store(6), of ?cs1 ?c]
    have full: "c_e ?cs1 = c_r ?cs1 + of_nat INPUT_BUF \<longleftrightarrow> length ready + (length line + 1) = INPUT_BUF"
      using cons_full [OF st(2)] st(1) ab by simp
    show ?thesis
    proof (cases "?c = NL \<or> ?c = ctlD \<or> c_e ?cs1 = c_r ?cs1 + of_nat INPUT_BUF")
      case True
      then have "cs' = ?cs1\<lparr>c_w := c_e ?cs1\<rparr>" "wake" using assms(2) store by (auto simp: consoleintr_def Let_def)
      moreover have "line_edit c (cons_abs cs) = (ready @ line @ [?c], [])"
        using True store room full ab by (auto simp: line_edit_def Let_def)
      ultimately show ?thesis using s(1) True ab by simp
    next
      case False
      then have "cs' = ?cs1" "\<not> wake" using assms(2) store by (auto simp: consoleintr_def Let_def)
      moreover have "line_edit c (cons_abs cs) = (ready, line @ [?c])"
        using False store room full ab by (auto simp: line_edit_def Let_def)
      ultimately show ?thesis using s(2) False ab by simp
    qed
  qed
qed

text \<open>
  C26: the interrupt handler of the console implements the line discipline on byte lists, although its
  three counters wrap: bytes are appended to the edited line, erase and kill act on that line only, a
  newline, an end of file or a full buffer hands the line to the readers, and the readers are woken
  exactly when there are new bytes for them. No byte that is ready is ever overwritten.
\<close>

theorem console_line_discipline:
  assumes "cons_inv cs" and "consoleintr dump c cs = (cs', echo, wake)"
  shows "cons_inv cs' \<and> cons_abs cs' = line_edit c (cons_abs cs) \<and>
    (wake \<longleftrightarrow> fst (cons_abs cs') \<noteq> fst (cons_abs cs))"
  by (rule consoleintr_refines [OF assms])

theorem console_line_discipline_witness:
  "let cs = consoleinit (replicate INPUT_BUF 0)
   in cons_abs (fst (consoleintr [] 0x61 cs)) = line_edit 0x61 (cons_abs cs) \<and>
      line_edit 0x61 (cons_abs cs) = ([], [0x61])"
proof -
  let ?cs = "consoleinit (replicate INPUT_BUF 0)"
  have abs: "cons_abs ?cs = ([], [])" by (simp add: consoleinit_def cons_abs_def ring_cont_def)
  have "cons_inv ?cs" by (simp add: cons_inv_def abs) (simp add: consoleinit_def)
  moreover obtain cs' echo wake where "consoleintr [] 0x61 ?cs = (cs', echo, wake)"
    by (cases "consoleintr [] 0x61 ?cs")
  moreover have "line_edit 0x61 ([], []) = ([], [0x61])"
    by (simp add: Let_def line_edit_def ctl_def DEL_def CR_def NL_def INPUT_BUF_def)
  ultimately show ?thesis using console_line_discipline [of ?cs "[]" "0x61" cs' echo wake]
    by (simp add: Let_def abs)
qed

section \<open>Reading lines\<close>

lemma cons_take:
  assumes "cons_inv cs" and "c_r cs \<noteq> c_w cs"
  shows "cons_inv (cs\<lparr>c_r := c_r cs + 1\<rparr>)" "snd (cons_abs (cs\<lparr>c_r := c_r cs + 1\<rparr>)) = snd (cons_abs cs)"
    "fst (cons_abs cs) = c_buf cs ! cslot (c_r cs) # fst (cons_abs (cs\<lparr>c_r := c_r cs + 1\<rparr>))"
proof -
  have ne: "c_w cs \<noteq> c_r cs" using assms(2) by simp
  show "fst (cons_abs cs) = c_buf cs ! cslot (c_r cs) # fst (cons_abs (cs\<lparr>c_r := c_r cs + 1\<rparr>))"
    using cring.ring_take [OF ne, of "c_buf cs"] by (simp add: cons_abs_def cslot_eq)
  show snd: "snd (cons_abs (cs\<lparr>c_r := c_r cs + 1\<rparr>)) = snd (cons_abs cs)" by (simp add: cons_abs_def)
  show "cons_inv (cs\<lparr>c_r := c_r cs + 1\<rparr>)"
    using assms(1) cring.ring_count_take(1) [OF ne] unfolding cons_inv_def snd by auto
qed

lemma cons_untake: "cs\<lparr>c_r := c_r cs + 1\<rparr>\<lparr>c_r := c_r (cs\<lparr>c_r := c_r cs + 1\<rparr>) - 1\<rparr> = cs"
  by (intro console.equality) simp_all

definition reads :: "console \<Rightarrow> u8 list \<Rightarrow> console \<Rightarrow> bool" where
  "reads cs out cs' \<longleftrightarrow> cons_inv cs' \<and> snd (cons_abs cs') = snd (cons_abs cs) \<and>
     fst (cons_abs cs) = out @ fst (cons_abs cs')"

lemma consoleread_loop_reads:
  assumes "cons_inv cs" and "n \<le> target" and "length out0 = target - n"
    and "consoleread_loop (\<lambda>_. True) killed target dst n cs out0 = (CReturns k, out, cs')" and "k \<noteq> -1"
  shows "\<exists>new. out = out0 @ new \<and> length out \<le> target \<and> k = int (length out) \<and> NL \<notin> set (butlast new) \<and> ctlD \<notin> set new \<and>
    (reads cs new cs' \<or> out = [] \<and> reads cs [ctlD] cs')"
  using assms
proof (induction n arbitrary: cs dst out0)
  case 0
  then show ?case by (intro exI [of _ "[]"]) (auto simp: reads_def)
next
  case (Suc n)
  let ?c = "c_buf cs ! cslot (c_r cs)" and ?cs1 = "cs\<lparr>c_r := c_r cs + 1\<rparr>"
  have ne: "c_r cs \<noteq> c_w cs" using Suc.prems(4,5) by (auto split: if_splits)
  note t = cons_take [OF Suc.prems(1) ne]
  show ?case
  proof (cases "?c = ctlD")
    case True
    then have r: "k = int target - int (Suc n)" "out = out0" "cs' = (if Suc n < target then cs else ?cs1)"
      using Suc.prems(4) ne cons_untake [of cs] by (auto simp: Let_def)
    then show ?thesis using True Suc.prems(1-3) t by (intro exI [of _ "[]"]) (auto simp: reads_def of_nat_diff)
  next
    case False
    show ?thesis
    proof (cases "?c = NL")
      case True
      then have "k = int target - int n" "out = out0 @ [?c]" "cs' = ?cs1" "NL \<noteq> ctlD"
        using Suc.prems(4) ne False by (auto simp: Let_def)
      then show ?thesis using True Suc.prems(2,3) t
        by (intro exI [of _ "[?c]"]) (auto simp: reads_def of_nat_diff)
    next
      case nl: False
      then have "consoleread_loop (\<lambda>_. True) killed target (dst + 1) n ?cs1 (out0 @ [?c]) = (CReturns k, out, cs')"
        using Suc.prems(4) ne False by (auto simp: Let_def)
      then obtain new where new: "out = (out0 @ [?c]) @ new" "length out \<le> target" "k = int (length out)"
        "NL \<notin> set (butlast new)" "ctlD \<notin> set new" "reads ?cs1 new cs' \<or> out = [] \<and> reads ?cs1 [ctlD] cs'"
        using Suc.IH [OF t(1), of "out0 @ [?c]" "dst + 1"] Suc.prems(2,3,5) Suc_diff_Suc [of n target] by auto
      then show ?thesis using nl False t
        by (intro exI [of _ "?c # new"]) (auto simp: reads_def)
    qed
  qed
qed

text \<open>
  C27: a \<open>consoleread\<close> that returns a count delivers exactly that many of the ready bytes, in order, at
  most \<open>n\<close> and at most one line; it leaves the rest and the edited line alone. It returns 0 at an end of
  file, which it then consumes; an end of file behind delivered bytes stays for the next call.
\<close>

theorem consoleread_delivers:
  assumes "cons_inv cs" and "consoleread (\<lambda>_. True) killed dst n cs = (CReturns k, out, cs')" and "k \<noteq> -1"
  shows "k = int (length out) \<and> length out \<le> n \<and> NL \<notin> set (butlast out) \<and> ctlD \<notin> set out \<and> cons_inv cs' \<and>
    snd (cons_abs cs') = snd (cons_abs cs) \<and>
    (fst (cons_abs cs) = out @ fst (cons_abs cs') \<or> out = [] \<and> fst (cons_abs cs) = ctlD # fst (cons_abs cs'))"
  using consoleread_loop_reads [of cs n n "[]" killed dst k out cs'] assms
  by (auto simp: consoleread_def reads_def)

section \<open>Serial output\<close>

definition tx_bytes :: "uart \<Rightarrow> u8 list" where
  "tx_bytes u = ring_cont UART_TX_BUF_SIZE (tx_buf u) (tx_r u) (tx_w u)"

definition uart_inv :: "uart \<Rightarrow> bool" where
  "uart_inv u \<longleftrightarrow> length (tx_buf u) = UART_TX_BUF_SIZE \<and> unat (tx_w u - tx_r u) \<le> UART_TX_BUF_SIZE"

interpretation tring: word_ring UART_TX_BUF_SIZE "TYPE(64)"
  by unfold_locales (simp_all add: UART_TX_BUF_SIZE_def dvd_def)

lemma tslot_eq: "tslot n = unat n mod UART_TX_BUF_SIZE"
  by (simp add: tslot_def UART_TX_BUF_SIZE_def unat_mod_distrib)

interpretation uartq: bounded_queue uart_inv tx_bytes UART_TX_BUF_SIZE tx_full tx_empty tx_put tx_take
proof
  fix u :: uart and c :: u8 assume inv: "uart_inv u"
  show full: "tx_full u \<longleftrightarrow> length (tx_bytes u) = UART_TX_BUF_SIZE"
    using tring.ring_full_iff [of "tx_w u" "tx_r u"] by (simp add: tx_full_def tx_bytes_def)
  show "tx_empty u \<longleftrightarrow> tx_bytes u = []"
    by (auto simp: tx_empty_def tx_bytes_def ring_cont_empty_iff)
  show "length (tx_bytes u) \<le> UART_TX_BUF_SIZE" using inv by (simp add: uart_inv_def tx_bytes_def)
  show "uart_inv (tx_put c u) \<and> tx_bytes (tx_put c u) = tx_bytes u @ [c]" if "\<not> tx_full u"
  proof -
    have lt: "unat (tx_w u - tx_r u) < UART_TX_BUF_SIZE" and len: "length (tx_buf u) = UART_TX_BUF_SIZE"
      using inv that full by (auto simp: uart_inv_def tx_bytes_def)
    show ?thesis using tring.ring_count_put [OF lt] tring.ring_put [OF len lt] lt len
      by (simp add: uart_inv_def tx_bytes_def tx_put_def tslot_eq)
  qed
  show "\<exists>x u'. tx_take u = (x, u') \<and> uart_inv u' \<and> tx_bytes u = x # tx_bytes u'" if "\<not> tx_empty u"
  proof -
    have ne: "tx_w u \<noteq> tx_r u" using that by (simp add: tx_empty_def)
    show ?thesis using tring.ring_count_take(1) [OF ne] tring.ring_take [OF ne, of "tx_buf u"] inv
      by (auto simp: uart_inv_def tx_bytes_def tx_take_def tslot_eq)
  qed
qed

lemma uartstart_sends:
  assumes "uart_inv u" and "uartstart room u = (out, u')"
  shows "uart_inv u' \<and> tx_bytes u = out @ tx_bytes u' \<and> (length out = room \<or> tx_bytes u' = [])"
  using assms
proof (induction room arbitrary: u out u')
  case (Suc room)
  show ?case
  proof (cases "tx_empty u")
    case True
    then show ?thesis using Suc.prems uartq.empty_iff by auto
  next
    case False
    then obtain x u1 where t: "tx_take u = (x, u1)" "uart_inv u1" "tx_bytes u = x # tx_bytes u1"
      using uartq.deq_ok Suc.prems(1) by blast
    obtain cs u2 where r: "uartstart room u1 = (cs, u2)" by (cases "uartstart room u1")
    then show ?thesis using Suc.IH [OF t(2) r] Suc.prems(2) False t by auto
  qed
qed simp

text \<open>
  The states of the transmitter with the bytes accepted from \<open>write\<close> calls and the bytes handed to the
  device so far, whatever the device's pace.
\<close>

inductive uart_run :: "uart \<Rightarrow> u8 list \<Rightarrow> u8 list \<Rightarrow> bool" where
  uart_boot: "length (tx_buf u) = UART_TX_BUF_SIZE \<Longrightarrow> tx_w u = 0 \<Longrightarrow> tx_r u = 0 \<Longrightarrow> uart_run u [] []"
| uart_put: "uart_run u w d \<Longrightarrow> uartputc room c u = Some (out, u') \<Longrightarrow> uart_run u' (w @ [c]) (d @ out)"
| uart_intr: "uart_run u w d \<Longrightarrow> uartstart room u = (out, u') \<Longrightarrow> uart_run u' w (d @ out)"

lemma uart_run_inv: "uart_run u w d \<Longrightarrow> uart_inv u \<and> w = d @ tx_bytes u"
proof (induction rule: uart_run.induct)
  case (uart_boot u)
  then show ?case by (simp add: uart_inv_def tx_bytes_def ring_cont_def)
next
  case (uart_put u w d room c out u')
  then have "\<not> tx_full u" "uartstart room (tx_put c u) = (out, u')" by (auto simp: uartputc_def split: if_splits)
  then show ?case using uartq.enq_ok [of u c] uartstart_sends [of "tx_put c u" room out u'] uart_put.IH by auto
next
  case (uart_intr u w d room out u')
  then show ?case using uartstart_sends [of u room out u'] by auto
qed

text \<open>
  C28: whatever the pace of the device, the bytes accepted for the serial line are the bytes sent
  followed by the at most 32 buffered ones, in order; an interrupt with room for \<open>room\<close> bytes sends
  that many or empties the buffer, so that nothing stays behind.
\<close>

theorem uart_in_order:
  assumes "uart_run u w d" and "uartstart room u = (out, u')"
  shows "w = d @ tx_bytes u \<and> length (tx_bytes u) \<le> UART_TX_BUF_SIZE \<and> tx_bytes u = out @ tx_bytes u' \<and>
    (length out = room \<or> w = d @ out)"
  using uart_run_inv [OF assms(1)] uartstart_sends [OF _ assms(2)] uartq.cap_bound [of u] by auto

theorem consoleread_delivers_witness:
  "let cs = fst (consoleintr [] 0x0A (fst (consoleintr [] 0x61 (consoleinit (replicate INPUT_BUF 0)))));
       (r, out, cs') = consoleread (\<lambda>_. True) False 0 10 cs
   in r = CReturns 2 \<and> out = [0x61, 0x0A] \<and> fst (cons_abs cs) = out @ fst (cons_abs cs')"
proof -
  let ?c0 = "consoleinit (replicate INPUT_BUF 0)"
  let ?c1 = "fst (consoleintr [] 0x61 ?c0)"
  let ?c2 = "fst (consoleintr [] 0x0A ?c1)"
  obtain r out cs' where r: "consoleread (\<lambda>_. True) False 0 10 ?c2 = (r, out, cs')"
    by (cases "consoleread (\<lambda>_. True) False 0 10 ?c2")
  have eqs: "fst (consoleread (\<lambda>_. True) False 0 10 ?c2) = CReturns 2"
    "fst (snd (consoleread (\<lambda>_. True) False 0 10 ?c2)) = [0x61, 0x0A]" by code_simp+
  have abs: "cons_abs ?c0 = ([], [])" by (simp add: consoleinit_def cons_abs_def ring_cont_def)
  have "cons_inv ?c0" by (simp add: cons_inv_def abs) (simp add: consoleinit_def)
  then have "cons_inv ?c1" using consoleintr_refines [of ?c0 "[]" "0x61"] by (cases "consoleintr [] 0x61 ?c0") auto
  then have "cons_inv ?c2" using consoleintr_refines [of ?c1 "[]" "0x0A"] by (cases "consoleintr [] 0x0A ?c1") auto
  then show ?thesis using consoleread_delivers [of ?c2 False 0 10 2 out cs'] r eqs by (simp add: Let_def)
qed

theorem uart_in_order_witness:
  "let u0 = \<lparr>tx_buf = replicate UART_TX_BUF_SIZE 0, tx_w = 0, tx_r = 0\<rparr>;
       (out, u1) = uartstart 5 (tx_put 0x61 u0)
   in out = [0x61] \<and> [0x61] = [] @ tx_bytes (tx_put 0x61 u0) \<and> tx_bytes (tx_put 0x61 u0) = out @ tx_bytes u1"
proof -
  let ?u0 = "\<lparr>tx_buf = replicate UART_TX_BUF_SIZE 0, tx_w = 0, tx_r = 0\<rparr>"
  have "\<not> tx_full ?u0" by (simp add: tx_full_def UART_TX_BUF_SIZE_def)
  then have "uartputc 0 0x61 ?u0 = Some ([], tx_put 0x61 ?u0)" by (simp add: uartputc_def)
  moreover have "uart_run ?u0 [] []" by (rule uart_boot) simp_all
  ultimately have run: "uart_run (tx_put 0x61 ?u0) [0x61] []" using uart_put by fastforce
  obtain out u1 where r: "uartstart 5 (tx_put 0x61 ?u0) = (out, u1)" by (cases "uartstart 5 (tx_put 0x61 ?u0)")
  have "fst (uartstart 5 (tx_put 0x61 ?u0)) = [0x61]" by code_simp
  then show ?thesis using uart_in_order [OF run r] r by (simp add: Let_def)
qed

end
