(* ===== verification/Printf.thy ===== *)
theory Printf
  imports Console
begin

text \<open>
  Formatted output, \<^verbatim>\<open>kernel/printf.c\<close>: \<open>printint\<close> with its buffer of 16 characters, \<open>printptr\<close> and the
  interpretation of formats. The result is the sequence of bytes given to \<open>consputc\<close>; arguments are a
  list of tagged values, \<open>None\<close> is a format that asks for an argument that was not passed.
\<close>

definition digits :: "u8 list" where
  "digits = [0x30, 0x31, 0x32, 0x33, 0x34, 0x35, 0x36, 0x37, 0x38, 0x39, 0x61, 0x62, 0x63, 0x64, 0x65, 0x66]"

text \<open>
  The loop of \<open>printint\<close>: the digits are stored from \<^verbatim>\<open>buf[i]\<close> on; \<open>buf\<close> is the used part of the array. It
  ends because \<open>x\<close> shrinks (for the bases 10 and 16 the kernel uses).
\<close>

function printint_loop :: "u32 \<Rightarrow> u32 \<Rightarrow> u8 list \<Rightarrow> u8 list" where
  "printint_loop base x buf =
     (let buf1 = buf @ [digits ! unat (x mod base)];
          x1 = x div base
      in if x1 \<noteq> 0 \<and> 1 < unat base then printint_loop base x1 buf1 else buf1)"
  by pat_completeness auto

termination printint_loop
proof (relation "measure (\<lambda>(base, x, buf). unat x)")
  fix base x buf buf1 x1 assume "x1 = x div base" "x1 \<noteq> (0 :: u32) \<and> 1 < unat base"
  then show "((base, x1, buf1), (base, x, buf)) \<in> measure (\<lambda>(base, x, buf). unat x)"
    by (auto simp: unat_div_distrib intro!: div_less_dividend) (metis div_0 gr0I unat_0 unat_div_distrib unat_eq_zero)
qed simp

declare printint_loop.simps [simp del]

text \<open>
  \<open>printint xx base sign\<close>: the argument \<open>xx\<close> is a C \<^verbatim>\<open>int\<close>; \<^verbatim>\<open>-xx\<close> is taken to wrap around for the
  smallest number, where the C standard leaves it undefined. The characters are printed from the last to the first.
\<close>

definition printint_buf :: "u32 \<Rightarrow> u32 \<Rightarrow> bool \<Rightarrow> u8 list" where
  "printint_buf xx base sign =
     (let neg = sign \<and> sint xx < 0;
          x = (if neg then - xx else xx);
          buf = printint_loop base x []
      in if neg then buf @ [0x2D] else buf)"

definition printint :: "u32 \<Rightarrow> u32 \<Rightarrow> bool \<Rightarrow> u8 list" where
  "printint xx base sign = rev (printint_buf xx base sign)"

fun printptr_loop :: "nat \<Rightarrow> u64 \<Rightarrow> u8 list" where
  "printptr_loop 0 x = []"
| "printptr_loop (Suc k) x = (digits ! unat (drop_bit 60 x)) # printptr_loop k (push_bit 4 x)"

definition printptr :: "u64 \<Rightarrow> u8 list" where
  "printptr x = [0x30, 0x78] @ printptr_loop 16 x"

datatype arg = AInt u32 | APtr u64 | AStr "u8 list option"

text \<open>\<open>printf\<close> on a format without its NUL.\<close>

fun printf_fmt :: "u8 list \<Rightarrow> arg list \<Rightarrow> u8 list option" where
  "printf_fmt [] args = Some []"
| "printf_fmt [c] args = (if c = 0x25 then Some [] else Some [c])"
| "printf_fmt (c # d # fmt) args =
     (if c \<noteq> 0x25 then map_option (\<lambda>out. c # out) (printf_fmt (d # fmt) args)
      else if d = 0x64 then
        (case args of AInt v # args' \<Rightarrow> map_option (\<lambda>out. printint v 10 True @ out) (printf_fmt fmt args') | _ \<Rightarrow> None)
      else if d = 0x78 then
        (case args of AInt v # args' \<Rightarrow> map_option (\<lambda>out. printint v 16 True @ out) (printf_fmt fmt args') | _ \<Rightarrow> None)
      else if d = 0x70 then
        (case args of APtr v # args' \<Rightarrow> map_option (\<lambda>out. printptr v @ out) (printf_fmt fmt args') | _ \<Rightarrow> None)
      else if d = 0x73 then
        (case args of
           AStr so # args' \<Rightarrow>
             let str = (case so of None \<Rightarrow> [0x28, 0x6E, 0x75, 0x6C, 0x6C, 0x29] | Some s \<Rightarrow> s)
             in map_option (\<lambda>out. str @ out) (printf_fmt fmt args')
         | _ \<Rightarrow> None)
      else if d = 0x25 then map_option (\<lambda>out. 0x25 # out) (printf_fmt fmt args)
      else map_option (\<lambda>out. 0x25 # d # out) (printf_fmt fmt args))"

section \<open>Numbers\<close>

text \<open>Reading numbers back.\<close>

definition digit_val :: "u8 \<Rightarrow> nat" where
  "digit_val c = (if c < 0x3A then unat c - 48 else unat c - 87)"

fun num_val :: "nat \<Rightarrow> u8 list \<Rightarrow> nat" where
  "num_val base [] = 0"
| "num_val base (c # cs) = digit_val c + base * num_val base cs"

definition read_int :: "nat \<Rightarrow> u8 list \<Rightarrow> int" where
  "read_int base cs =
     (if cs \<noteq> [] \<and> hd cs = 0x2D then - int (num_val base (rev (tl cs))) else int (num_val base (rev cs)))"

lemma digit_val_digits:
  assumes "k < 16"
  shows "digit_val (digits ! k) = k \<and> digits ! k \<noteq> 0x2D"
proof -
  have "list_all (\<lambda>k. digit_val (digits ! k) = k \<and> digits ! k \<noteq> 0x2D) [0..<16]" by code_simp
  then show ?thesis using assms by (simp add: list_all_iff)
qed

lemma num_val_append: "num_val b (xs @ ys) = num_val b xs + b ^ length xs * num_val b ys"
  by (induction xs) (auto simp: algebra_simps)

lemma printint_loop_val:
  assumes "1 < unat base" and "unat base \<le> 16" and "0x2D \<notin> set buf"
  shows "num_val (unat base) (printint_loop base x buf) = num_val (unat base) buf + unat base ^ length buf * unat x \<and>
    0x2D \<notin> set (printint_loop base x buf)"
  using assms
proof (induction base x buf rule: printint_loop.induct)
  case (1 base x buf)
  let ?b = "unat base" and ?d = "digits ! unat (x mod base)"
  have "unat x mod ?b < ?b" using 1(2) by simp
  then have "unat (x mod base) < 16" using 1(3) by (simp add: unat_mod_distrib)
  then have d: "digit_val ?d = unat x mod ?b" "?d \<noteq> 0x2D"
    using digit_val_digits [of "unat (x mod base)"] by (auto simp: unat_mod_distrib)
  have split: "unat x = unat x mod ?b + ?b * (unat x div ?b)" by simp
  show ?case
  proof (cases "x div base = 0")
    case True
    then have "unat x div ?b = 0" by (metis unat_0 unat_div_distrib)
    then show ?thesis using True d 1(4) split by (subst (1 2) printint_loop.simps) (simp add: num_val_append)
  next
    case False
    have "num_val ?b (printint_loop base (x div base) (buf @ [?d])) =
        num_val ?b (buf @ [?d]) + ?b ^ length (buf @ [?d]) * (unat x div ?b) \<and>
      0x2D \<notin> set (printint_loop base (x div base) (buf @ [?d]))"
      using 1(1) [OF refl refl] False 1(2-4) d(2) by (simp add: unat_div_distrib)
    moreover have "?b ^ length buf * (unat x mod ?b) + ?b ^ length (buf @ [?d]) * (unat x div ?b) = ?b ^ length buf * unat x"
      using split by (metis (no_types, opaque_lifting) add_mult_distrib2 length_append_singleton mult.assoc mult.commute power_Suc)
    ultimately show ?thesis using False d 1(2)
      by (subst (1 2) printint_loop.simps) (simp add: num_val_append)
  qed
qed

text \<open>A number below \<open>base ^ k\<close> has at most \<open>k\<close> digits.\<close>

lemma printint_loop_length:
  assumes "1 < unat base" and "unat x < unat base ^ k" and "0 < k"
  shows "length (printint_loop base x buf) \<le> length buf + k"
  using assms
proof (induction k arbitrary: x buf)
  case (Suc k)
  show ?case
  proof (cases "x div base = 0")
    case True
    then show ?thesis by (subst printint_loop.simps) simp
  next
    case False
    have lt: "unat (x div base) < unat base ^ k"
      using Suc.prems(1,2) by (simp add: unat_div_distrib less_mult_imp_div_less mult.commute)
    moreover have "0 < k"
    proof (rule ccontr)
      assume "\<not> 0 < k"
      then have "unat (x div base) = 0" using lt by simp
      then show False using False by (metis unat_eq_zero)
    qed
    ultimately show ?thesis
      using Suc.IH [of "x div base" "buf @ [digits ! unat (x mod base)]"] Suc.prems(1) False
      by (subst printint_loop.simps) simp
  qed
qed simp

lemma sint_unat:
  fixes x :: u32
  shows "sint x < 0 \<Longrightarrow> int (unat (- x)) = - sint x" "\<not> sint x < 0 \<Longrightarrow> int (unat x) = sint x"
proof -
  have u: "uint x = sint x mod 2 ^ 32" using uint_sint [of x] by (simp add: take_bit_eq_mod)
  have r: "- (2 ^ 31) \<le> sint x" "sint x < 2 ^ 31" using sint_greater_eq [of x] sint_less [of x] by simp_all
  show "int (unat x) = sint x" if "\<not> sint x < 0" using that r u by simp
  assume neg: "sint x < 0"
  have "uint (- x) = (- uint x) mod 2 ^ 32" by (simp add: uint_word_ariths)
  also have "\<dots> = (- sint x) mod 2 ^ 32" unfolding u by (simp add: mod_minus_eq)
  also have "\<dots> = - sint x" using neg r by simp
  finally show "int (unat (- x)) = - sint x" by simp
qed

lemma printint_nonempty [simp]: "printint_loop base x buf \<noteq> []"
  by (induction base x buf rule: printint_loop.induct) (subst printint_loop.simps, simp add: Let_def)

text \<open>
  C29: the kernel's \<open>printint\<close> prints the number: for both bases in use, the characters printed for any
  signed 32-bit argument, the smallest included, read back as that argument, and never more than 11
  of the 16 characters of its buffer are written.
\<close>

theorem printint_roundtrip:
  assumes "base = 10 \<or> base = 16"
  shows "read_int (unat base) (printint xx base True) = sint xx \<and> length (printint_buf xx base True) \<le> 11"
proof -
  let ?x = "if sint xx < 0 then - xx else xx"
  let ?l = "printint_loop base ?x []"
  have b: "1 < unat base" "unat base \<le> 16" using assms by auto
  have val: "num_val (unat base) ?l = unat ?x" "0x2D \<notin> set ?l"
    using printint_loop_val [OF b, of "[]" ?x] by auto
  have "unat ?x < 2 ^ 32" using unat_less_power [of ?x] by simp
  also have "\<dots> \<le> unat base ^ 10" using assms by auto
  finally have len: "length ?l \<le> 10" using printint_loop_length [OF b(1), of ?x 10 "[]"] by simp
  show ?thesis
  proof (cases "sint xx < 0")
    case True
    then show ?thesis using val len sint_unat(1) [of xx]
      by (simp add: printint_def printint_buf_def read_int_def)
  next
    case False
    then have "hd (rev ?l) \<noteq> 0x2D" using val(2) by (metis hd_in_set printint_nonempty rev_is_Nil_conv set_rev)
    then show ?thesis using False val len sint_unat(2) [of xx]
      by (simp add: printint_def printint_buf_def read_int_def)
  qed
qed

theorem printint_roundtrip_witness:
  "read_int 10 (printint 0x80000000 10 True) = -2147483648 \<and> length (printint_buf 0x80000000 10 True) = 11"
proof -
  have "read_int (unat (10 :: u32)) (printint 0x80000000 10 True) = sint (0x80000000 :: u32)"
    using printint_roundtrip [of 10 "0x80000000"] by blast
  moreover have "length (printint_buf 0x80000000 10 True) = 11" by code_simp
  ultimately show ?thesis by simp
qed

end
