(* ===== verification/Virtio.thy ===== *)
theory Virtio
  imports Ring
begin

text \<open>
  The disk driver, \<^verbatim>\<open>kernel/virtio_disk.c\<close>: descriptors, the available and the used ring with their 16-bit
  indices, requests and completion interrupts. Descriptor numbers are natural numbers, buffers are
  named by numbers, \<open>va_\<close> addresses by what they point to. The device is modelled by what the virtio
  specification lets it do: take any available chain, complete any chain it has taken, by storing
  a status, 0 for success, and appending the chain to the used ring. \<open>virtio_disk_rw\<close> is split where it sleeps: up to
  the notification of the device, and from the completion on.
\<close>

section \<open>kernel/virtio.h, kernel/virtio_disk.c\<close>

definition NUM :: nat where "NUM = 8"
definition VRING_DESC_F_NEXT :: "16 word" where "VRING_DESC_F_NEXT = 1"
definition VRING_DESC_F_WRITE :: "16 word" where "VRING_DESC_F_WRITE = 2"
definition VIRTIO_BLK_T_IN :: u32 where "VIRTIO_BLK_T_IN = 0"
definition VIRTIO_BLK_T_OUT :: u32 where "VIRTIO_BLK_T_OUT = 1"

text \<open>What a descriptor points to: a command header, the data of a buffer, a status byte.\<close>

datatype va = NullA | OpsA nat | DataA nat | StatusA nat

record vdesc =
  d_addr :: va
  d_len :: u32
  d_flags :: "16 word"
  d_next :: nat

record blkreq =
  r_type :: u32
  r_reserved :: u32
  r_sector :: u64

text \<open>
  \<^verbatim>\<open>struct disk\<close>, with the field \<^verbatim>\<open>disk\<close> of the buffers; the used ring and its index are written by
  the device.
\<close>

record vdisk =
  desc :: "nat \<Rightarrow> vdesc"
  av_ring :: "nat list"
  av_idx :: "16 word"
  us_ring :: "nat list"
  us_idx :: "16 word"
  vfree :: "nat \<Rightarrow> bool"
  used_idx :: "16 word"
  info_b :: "nat \<Rightarrow> nat option"
  info_status :: "nat \<Rightarrow> u8"
  ops :: "nat \<Rightarrow> blkreq"
  b_disk :: "nat \<Rightarrow> bool"

definition null_desc :: vdesc where
  "null_desc = \<lparr>d_addr = NullA, d_len = 0, d_flags = 0, d_next = 0\<rparr>"

text \<open>The state \<open>virtio_disk_init\<close> leaves: the pages are zeroed and all descriptors free.\<close>

definition virtio_disk_init :: vdisk where
  "virtio_disk_init = \<lparr>desc = (\<lambda>_. null_desc), av_ring = replicate NUM 0, av_idx = 0,
     us_ring = replicate NUM 0, us_idx = 0, vfree = (\<lambda>i. i < NUM), used_idx = 0, info_b = (\<lambda>_. None),
     info_status = (\<lambda>_. 0), ops = (\<lambda>_. \<lparr>r_type = 0, r_reserved = 0, r_sector = 0\<rparr>), b_disk = (\<lambda>_. False)\<rparr>"

definition alloc_desc :: "vdisk \<Rightarrow> nat option \<times> vdisk" where
  "alloc_desc d =
     (case first_from (vfree d) 0 NUM of
        Some i \<Rightarrow> (Some i, d\<lparr>vfree := (vfree d)(i := False)\<rparr>)
      | None \<Rightarrow> (None, d))"

definition free_desc :: "nat \<Rightarrow> vdisk \<Rightarrow> vdisk outcome" where
  "free_desc i d =
     (if i \<ge> NUM then Panic ''free_desc 1''
      else if vfree d i then Panic ''free_desc 2''
      else Ok (d\<lparr>desc := (desc d)(i := null_desc), vfree := (vfree d)(i := True)\<rparr>))"

text \<open>A chain has at most \<open>NUM\<close> descriptors: \<open>free_desc\<close> panics on one that has been freed.\<close>

fun free_chain :: "nat \<Rightarrow> nat \<Rightarrow> vdisk \<Rightarrow> vdisk outcome" where
  "free_chain 0 i d = Panic ''free_desc 2''"
| "free_chain (Suc fuel) i d =
     (let flag = d_flags (desc d i); nxt = d_next (desc d i) in
      obind (free_desc i d) (\<lambda>d1.
        if flag AND VRING_DESC_F_NEXT \<noteq> 0 then free_chain fuel nxt d1 else Ok d1))"

fun free_all :: "nat list \<Rightarrow> vdisk \<Rightarrow> vdisk outcome" where
  "free_all [] d = Ok d"
| "free_all (i # is) d = obind (free_desc i d) (\<lambda>d1. free_all is d1)"

fun alloc_descs :: "nat \<Rightarrow> nat list \<Rightarrow> vdisk \<Rightarrow> (nat list option \<times> vdisk) outcome" where
  "alloc_descs 0 idx d = Ok (Some idx, d)"
| "alloc_descs (Suc k) idx d =
     (case alloc_desc d of
        (None, d1) \<Rightarrow> obind (free_all idx d1) (\<lambda>d2. Ok (None, d2))
      | (Some i, d1) \<Rightarrow> alloc_descs k (idx @ [i]) d1)"

definition alloc3_desc :: "vdisk \<Rightarrow> (nat list option \<times> vdisk) outcome" where
  "alloc3_desc d = alloc_descs 3 [] d"

definition format_descs :: "nat \<Rightarrow> nat \<Rightarrow> nat \<Rightarrow> nat \<Rightarrow> bool \<Rightarrow> u64 \<Rightarrow> vdisk \<Rightarrow> vdisk" where
  "format_descs i0 i1 i2 b wr sector d =
     (let d1 = d\<lparr>ops := (ops d)(i0 := \<lparr>r_type = (if wr then VIRTIO_BLK_T_OUT else VIRTIO_BLK_T_IN),
                  r_reserved = 0, r_sector = sector\<rparr>)\<rparr>;
          d2 = d1\<lparr>desc := (desc d1)(i0 := \<lparr>d_addr = OpsA i0, d_len = 16, d_flags = VRING_DESC_F_NEXT, d_next = i1\<rparr>)\<rparr>;
          d3 = d2\<lparr>desc := (desc d2)(i1 := \<lparr>d_addr = DataA b, d_len = 1024,
                  d_flags = (if wr then 0 else VRING_DESC_F_WRITE) OR VRING_DESC_F_NEXT, d_next = i2\<rparr>)\<rparr>;
          d4 = d3\<lparr>info_status := (info_status d3)(i0 := 0xff)\<rparr>
      in d4\<lparr>desc := (desc d4)(i2 := \<lparr>d_addr = StatusA i0, d_len = 1, d_flags = VRING_DESC_F_WRITE, d_next = 0\<rparr>)\<rparr>)"

text \<open>
  The first part of \<open>virtio_disk_rw\<close> for buffer \<open>b\<close> with block number \<open>blockno\<close>; \<open>None\<close> is the sleep for
  free descriptors, after which it starts over. The result is the head of the chain.
\<close>

definition rw_submit :: "nat \<Rightarrow> u32 \<Rightarrow> bool \<Rightarrow> vdisk \<Rightarrow> (nat list option \<times> vdisk) outcome" where
  "rw_submit b blockno wr d =
     (let sector = ucast (blockno * 2) in
      obind (alloc3_desc d) (\<lambda>(r, d1).
        case r of
          None \<Rightarrow> Ok (None, d1)
        | Some idx \<Rightarrow>
            let d2 = format_descs (idx ! 0) (idx ! 1) (idx ! 2) b wr sector d1;
                d3 = d2\<lparr>b_disk := (b_disk d2)(b := True), info_b := (info_b d2)(idx ! 0 := Some b)\<rparr>;
                d4 = d3\<lparr>av_ring := (av_ring d3)[unat (av_idx d3) mod NUM := idx ! 0]\<rparr>
            in Ok (Some idx, d4\<lparr>av_idx := av_idx d4 + 1\<rparr>)))"

text \<open>The second part, after the completion of the request with chain \<open>i0\<close>.\<close>

definition rw_finish :: "nat \<Rightarrow> vdisk \<Rightarrow> vdisk outcome" where
  "rw_finish i0 d = free_chain (Suc NUM) i0 (d\<lparr>info_b := (info_b d)(i0 := None)\<rparr>)"

text \<open>
  \<open>virtio_disk_intr\<close> handles the completed chains between its own index and the device's; \<open>woken\<close> are
  the buffers whose sleepers it wakes.
\<close>

function virtio_disk_intr :: "nat list \<Rightarrow> vdisk \<Rightarrow> (nat list \<times> vdisk) outcome" where
  "virtio_disk_intr woken d =
     (if used_idx d = us_idx d then Ok (woken, d)
      else
        let i = us_ring d ! (unat (used_idx d) mod NUM) in
        if info_status d i \<noteq> 0 then Panic ''virtio_disk_intr status''
        else
          (case info_b d i of
             None \<Rightarrow> Panic ''kerneltrap''
           | Some b \<Rightarrow>
               virtio_disk_intr (woken @ [b]) (d\<lparr>b_disk := (b_disk d)(b := False), used_idx := used_idx d + 1\<rparr>)))"
  by pat_completeness auto

lemma unat_succ_less:
  fixes w r :: "'a::len word"
  assumes "r \<noteq> w"
  shows "unat (w - (r + 1)) < unat (w - r)"
proof -
  have "w - r \<noteq> 0" using assms by simp
  moreover have "w - (r + 1) = (w - r) - 1" by simp
  ultimately show ?thesis using unat_minus_one [of "w - r"] unat_gt_0 [of "w - r"] by (metis diff_less zero_less_one)
qed

termination virtio_disk_intr
  by (relation "measure (\<lambda>(woken, d). unat (us_idx d - used_idx d))") (auto simp: unat_succ_less)

declare virtio_disk_intr.simps [simp del]

section \<open>The driver and the device\<close>

text \<open>
  A request is its chain and its buffer. \<open>m_reqs\<close> are the calls of \<open>virtio_disk_rw\<close> that have notified
  the device and not yet freed their descriptors; \<open>m_seen\<close> is the device's position in the available
  ring, \<open>m_taken\<close> the chains it is working on.
\<close>

record vmach =
  m_disk :: vdisk
  m_reqs :: "(nat list \<times> nat) list"
  m_seen :: "16 word"
  m_taken :: "nat list"

definition dev_complete :: "u8 \<Rightarrow> nat \<Rightarrow> vdisk \<Rightarrow> vdisk" where
  "dev_complete st h d = d\<lparr>info_status := (info_status d)(h := st),
     us_ring := (us_ring d)[unat (us_idx d) mod NUM := h], us_idx := us_idx d + 1\<rparr>"

text \<open>
  The steps of driver and device, for a device that reports statuses from a set \<open>S\<close>. A buffer is locked by
  the process that passes it to \<open>virtio_disk_rw\<close>, so it has at most one request.
\<close>

inductive vd_step :: "u8 set \<Rightarrow> vmach \<Rightarrow> vmach \<Rightarrow> bool" where
  vd_submit: "\<forall>r\<in>set (m_reqs m). snd r \<noteq> b \<Longrightarrow> rw_submit b blockno wr (m_disk m) = Ok (Some idx, d') \<Longrightarrow>
    vd_step S m (m\<lparr>m_disk := d', m_reqs := m_reqs m @ [(idx, b)]\<rparr>)"
| vd_full: "rw_submit b blockno wr (m_disk m) = Ok (None, d') \<Longrightarrow> vd_step S m (m\<lparr>m_disk := d'\<rparr>)"
| vd_take: "m_seen m \<noteq> av_idx (m_disk m) \<Longrightarrow>
    vd_step S m (m\<lparr>m_taken := m_taken m @ [av_ring (m_disk m) ! (unat (m_seen m) mod NUM)], m_seen := m_seen m + 1\<rparr>)"
| vd_complete: "m_taken m = hs @ h # hs' \<Longrightarrow> st \<in> S \<Longrightarrow>
    vd_step S m (m\<lparr>m_disk := dev_complete st h (m_disk m), m_taken := hs @ hs'\<rparr>)"
| vd_intr: "virtio_disk_intr [] (m_disk m) = Ok (woken, d') \<Longrightarrow> vd_step S m (m\<lparr>m_disk := d'\<rparr>)"
| vd_finish: "m_reqs m = rs @ (idx, b) # rs' \<Longrightarrow> \<not> b_disk (m_disk m) b \<Longrightarrow> rw_finish (idx ! 0) (m_disk m) = Ok d' \<Longrightarrow>
    vd_step S m (m\<lparr>m_disk := d', m_reqs := rs @ rs'\<rparr>)"

definition vd_boot :: vmach where
  "vd_boot = \<lparr>m_disk = virtio_disk_init, m_reqs = [], m_seen = 0, m_taken = []\<rparr>"

inductive vd_run :: "u8 set \<Rightarrow> vmach \<Rightarrow> bool" for S where
  vr_boot: "vd_run S vd_boot"
| vr_step: "vd_run S m \<Longrightarrow> vd_step S m m' \<Longrightarrow> vd_run S m'"

text \<open>The states with a device whose requests all succeed.\<close>

definition vd_reach :: "vmach \<Rightarrow> bool" where
  "vd_reach m \<longleftrightarrow> vd_run {0} m"

end
