(* ===== verification/Virtio_Inv.thy ===== *)
theory Virtio_Inv
  imports Virtio "HOL-Library.Multiset"
begin

text \<open>
  The invariant of the disk driver and its device: descriptors in use are the chains of the requests
  in progress, three each; every request not yet completed is in the available ring, with the device,
  or in the used ring, and the rings never overflow; the statuses in the used ring are from the set \<open>S\<close>
  the device reports.
\<close>

section \<open>Invariant\<close>

definition chain_ok :: "vdisk \<Rightarrow> nat list \<Rightarrow> bool" where
  "chain_ok d idx \<longleftrightarrow> length idx = 3 \<and>
     d_flags (desc d (idx ! 0)) AND VRING_DESC_F_NEXT \<noteq> 0 \<and> d_next (desc d (idx ! 0)) = idx ! 1 \<and>
     d_flags (desc d (idx ! 1)) AND VRING_DESC_F_NEXT \<noteq> 0 \<and> d_next (desc d (idx ! 1)) = idx ! 2 \<and>
     d_flags (desc d (idx ! 2)) AND VRING_DESC_F_NEXT = 0"

definition in_use :: "(nat list \<times> nat) list \<Rightarrow> nat list" where
  "in_use rs = concat (map fst rs)"

definition desc_inv :: "vdisk \<Rightarrow> (nat list \<times> nat) list \<Rightarrow> bool" where
  "desc_inv d rs \<longleftrightarrow> distinct (in_use rs) \<and> set (in_use rs) \<subseteq> {..<NUM} \<and>
     (\<forall>i<NUM. vfree d i \<longleftrightarrow> i \<notin> set (in_use rs)) \<and> distinct (map snd rs) \<and>
     (\<forall>r\<in>set rs. chain_ok d (fst r) \<and> info_b d (fst r ! 0) = Some (snd r))"

definition avail_win :: "vmach \<Rightarrow> nat list" where
  "avail_win m = ring_cont NUM (av_ring (m_disk m)) (m_seen m) (av_idx (m_disk m))"

definition used_win :: "vdisk \<Rightarrow> nat list" where
  "used_win d = ring_cont NUM (us_ring d) (used_idx d) (us_idx d)"

definition active_heads :: "vdisk \<Rightarrow> (nat list \<times> nat) list \<Rightarrow> nat list" where
  "active_heads d rs = map (\<lambda>r. fst r ! 0) (filter (\<lambda>r. b_disk d (snd r)) rs)"

definition vd_inv :: "u8 set \<Rightarrow> vmach \<Rightarrow> bool" where
  "vd_inv S m \<longleftrightarrow> desc_inv (m_disk m) (m_reqs m) \<and>
     length (av_ring (m_disk m)) = NUM \<and> length (us_ring (m_disk m)) = NUM \<and>
     mset (active_heads (m_disk m) (m_reqs m)) = mset (avail_win m) + mset (m_taken m) + mset (used_win (m_disk m)) \<and>
     (\<forall>h\<in>set (used_win (m_disk m)). info_status (m_disk m) h \<in> S)"

interpretation vring: word_ring NUM "TYPE(16)"
  by unfold_locales (simp_all add: NUM_def dvd_def)

lemma in_use_simps [simp]: "in_use [] = []" "in_use (r # rs) = fst r @ in_use rs" "in_use (rs @ rs') = in_use rs @ in_use rs'"
  by (simp_all add: in_use_def)

lemma length_in_use: "(\<And>r. r \<in> set rs \<Longrightarrow> length (fst r) = 3) \<Longrightarrow> length (in_use rs) = 3 * length rs"
  by (induction rs) auto

lemma desc_inv_reqs:
  assumes "desc_inv d rs"
  shows "length rs \<le> 2"
proof -
  have "length (in_use rs) = card (set (in_use rs))" using assms by (simp add: desc_inv_def distinct_card)
  also have "\<dots> \<le> card {..<NUM}" using assms by (intro card_mono) (auto simp: desc_inv_def)
  finally have "3 * length rs \<le> 8" using length_in_use [of rs] assms by (simp add: desc_inv_def chain_ok_def NUM_def)
  then show ?thesis by simp
qed

lemma vd_inv_windows:
  assumes "vd_inv S m"
  shows "length (avail_win m) + length (m_taken m) + length (used_win (m_disk m)) \<le> 2"
proof -
  have "length (avail_win m) + length (m_taken m) + length (used_win (m_disk m)) = length (active_heads (m_disk m) (m_reqs m))"
    using assms unfolding vd_inv_def by (metis size_mset size_union)
  also have "\<dots> \<le> length (m_reqs m)" by (simp add: active_heads_def)
  finally show ?thesis using desc_inv_reqs [of "m_disk m" "m_reqs m"] assms by (simp add: vd_inv_def)
qed

section \<open>Allocation\<close>

lemma free_all_ok:
  assumes "distinct is" and "\<And>i. i \<in> set is \<Longrightarrow> i < NUM \<and> \<not> vfree d i"
  shows "free_all is d = Ok (d\<lparr>desc := (\<lambda>i. if i \<in> set is then null_desc else desc d i),
    vfree := (\<lambda>i. i \<in> set is \<or> vfree d i)\<rparr>)"
  using assms
proof (induction "is" arbitrary: d)
  case Nil
  show ?case by (simp add: vdisk.equality)
next
  case (Cons i "is")
  let ?d1 = "d\<lparr>desc := (desc d)(i := null_desc), vfree := (vfree d)(i := True)\<rparr>"
  have "free_desc i d = Ok ?d1" using Cons.prems(2) [of i] by (simp add: free_desc_def)
  moreover have "free_all is ?d1 = Ok (?d1\<lparr>desc := (\<lambda>j. if j \<in> set is then null_desc else desc ?d1 j),
      vfree := (\<lambda>j. j \<in> set is \<or> vfree ?d1 j)\<rparr>)"
    using Cons.prems by (intro Cons.IH) auto
  ultimately show ?case by (auto intro!: vdisk.equality)
qed

text \<open>What allocating \<open>k\<close> more descriptors does when those in \<open>idx\<close> have been taken.\<close>

lemma alloc_descs_spec:
  assumes "distinct idx" and "\<And>i. i \<in> set idx \<Longrightarrow> i < NUM \<and> \<not> vfree d i"
  shows "\<exists>r d'. alloc_descs k idx d = Ok (r, d') \<and>
    (case r of
       Some js \<Rightarrow> \<exists>new. js = idx @ new \<and> length new = k \<and> distinct new \<and> (\<forall>i\<in>set new. i < NUM \<and> vfree d i) \<and>
         d' = d\<lparr>vfree := (\<lambda>i. vfree d i \<and> i \<notin> set new)\<rparr>
     | None \<Rightarrow> \<exists>f. d' = d\<lparr>desc := f, vfree := (\<lambda>i. vfree d i \<or> i \<in> set idx)\<rparr> \<and>
         (\<forall>i. \<not> vfree d i \<longrightarrow> i \<notin> set idx \<longrightarrow> f i = desc d i))"
  using assms
proof (induction k arbitrary: idx d)
  case 0
  then show ?case by (auto intro!: exI [of _ "[]"] vdisk.equality)
next
  case (Suc k)
  show ?case
  proof (cases "first_from (vfree d) 0 NUM")
    case None
    then show ?thesis using free_all_ok [OF Suc.prems]
      by (auto simp: alloc_desc_def intro!: vdisk.equality exI [of _ "\<lambda>i. if i \<in> set idx then null_desc else desc d i"])
  next
    case (Some i)
    let ?d1 = "d\<lparr>vfree := (vfree d)(i := False)\<rparr>"
    have i: "i < NUM" "vfree d i" using first_from_0_SomeD [OF Some] by auto
    then have "i \<notin> set idx" using Suc.prems(2) by blast
    then have "distinct (idx @ [i])" "\<And>j. j \<in> set (idx @ [i]) \<Longrightarrow> j < NUM \<and> \<not> vfree ?d1 j"
      using Suc.prems i(1) by auto
    from Suc.IH [OF this] obtain r d' where r: "alloc_descs k (idx @ [i]) ?d1 = Ok (r, d')"
      "case r of
         Some js \<Rightarrow> \<exists>new. js = (idx @ [i]) @ new \<and> length new = k \<and> distinct new \<and> (\<forall>j\<in>set new. j < NUM \<and> vfree ?d1 j) \<and>
           d' = ?d1\<lparr>vfree := (\<lambda>j. vfree ?d1 j \<and> j \<notin> set new)\<rparr>
       | None \<Rightarrow> \<exists>f. d' = ?d1\<lparr>desc := f, vfree := (\<lambda>j. vfree ?d1 j \<or> j \<in> set (idx @ [i]))\<rparr> \<and>
           (\<forall>j. \<not> vfree ?d1 j \<longrightarrow> j \<notin> set (idx @ [i]) \<longrightarrow> f j = desc ?d1 j)" by blast
    show ?thesis
    proof (cases r)
      case None
      then obtain f where f: "d' = ?d1\<lparr>desc := f, vfree := (\<lambda>j. vfree ?d1 j \<or> j \<in> set (idx @ [i]))\<rparr>"
        "\<forall>j. \<not> vfree ?d1 j \<longrightarrow> j \<notin> set (idx @ [i]) \<longrightarrow> f j = desc ?d1 j" using r(2) by auto
      have "d' = d\<lparr>desc := f, vfree := (\<lambda>j. vfree d j \<or> j \<in> set idx)\<rparr>"
        using f(1) i(2) by (intro vdisk.equality) auto
      moreover have "f j = desc d j" if "\<not> vfree d j" "j \<notin> set idx" for j
        using f(2) [rule_format, of j] that i(2) by (cases "j = i") auto
      ultimately show ?thesis using r(1) None Some by (auto simp: alloc_desc_def)
    next
      case (Some js)
      then obtain new where new: "js = idx @ i # new" "length new = k" "distinct new"
        "\<forall>j\<in>set new. j < NUM \<and> vfree ?d1 j" "d' = ?d1\<lparr>vfree := (\<lambda>j. vfree ?d1 j \<and> j \<notin> set new)\<rparr>"
        using r(2) by auto
      have "d' = d\<lparr>vfree := (\<lambda>j. vfree d j \<and> j \<notin> set (i # new))\<rparr>"
        using new(5) by (intro vdisk.equality) auto
      moreover have "distinct (i # new)" "\<forall>j\<in>set (i # new). j < NUM \<and> vfree d j"
        using new(3,4) i by (auto split: if_splits)
      ultimately show ?thesis
        using r(1) new(1,2) Some \<open>first_from (vfree d) 0 NUM = Some i\<close>
        by (auto simp: alloc_desc_def intro!: exI [of _ "i # new"])
    qed
  qed
qed

lemma alloc3_spec:
  obtains (Some) i0 i1 i2 where "alloc3_desc d = Ok (Some [i0, i1, i2], d\<lparr>vfree := (\<lambda>i. vfree d i \<and> i \<notin> {i0, i1, i2})\<rparr>)"
      "distinct [i0, i1, i2]" "vfree d i0" "vfree d i1" "vfree d i2" "{i0, i1, i2} \<subseteq> {..<NUM}"
  | (None) f where "alloc3_desc d = Ok (None, d\<lparr>desc := f\<rparr>)" "\<And>i. \<not> vfree d i \<Longrightarrow> f i = desc d i"
proof -
  obtain r d' where r: "alloc_descs 3 [] d = Ok (r, d')"
    "case r of
       Some js \<Rightarrow> \<exists>new. js = [] @ new \<and> length new = 3 \<and> distinct new \<and> (\<forall>i\<in>set new. i < NUM \<and> vfree d i) \<and>
         d' = d\<lparr>vfree := (\<lambda>i. vfree d i \<and> i \<notin> set new)\<rparr>
     | None \<Rightarrow> \<exists>f. d' = d\<lparr>desc := f, vfree := (\<lambda>i. vfree d i \<or> i \<in> set ([] :: nat list))\<rparr> \<and>
         (\<forall>i. \<not> vfree d i \<longrightarrow> i \<notin> set ([] :: nat list) \<longrightarrow> f i = desc d i)"
    using alloc_descs_spec [of "[]" d 3] by auto
  show thesis
  proof (cases r)
    case None
    then obtain f where f: "d' = d\<lparr>desc := f, vfree := vfree d\<rparr>" "\<forall>i. \<not> vfree d i \<longrightarrow> f i = desc d i" using r(2) by auto
    have "d' = d\<lparr>desc := f\<rparr>" using f(1) by (intro vdisk.equality) simp_all
    then show thesis using that(2) r(1) None f(2) by (simp add: alloc3_desc_def)
  next
    case (Some js)
    then have js: "length js = 3" "distinct js" "\<forall>i\<in>set js. i < NUM \<and> vfree d i"
      "d' = d\<lparr>vfree := (\<lambda>i. vfree d i \<and> i \<notin> set js)\<rparr>" using r(2) by auto
    then obtain i0 i1 i2 where "js = [i0, i1, i2]" by (auto simp: length_Suc_conv numeral_3_eq_3)
    then show thesis using that(1) [of i0 i1 i2] r(1) Some js by (simp add: alloc3_desc_def)
  qed
qed

section \<open>Steps of the driver\<close>

lemma chain_in_use:
  assumes "r \<in> set rs" and "chain_ok d (fst r)" and "k < 3"
  shows "fst r ! k \<in> set (in_use rs)"
  using assms nth_mem [of k "fst r"] by (auto simp: chain_ok_def in_use_def intro!: bexI [of _ r])

lemma desc_inv_cong:
  assumes "desc_inv d rs" and "vfree d' = vfree d" and "info_b d' = info_b d"
    and "\<And>i. i \<in> set (in_use rs) \<Longrightarrow> desc d' i = desc d i"
  shows "desc_inv d' rs"
proof -
  have "chain_ok d' (fst r)" if "r \<in> set rs" for r
  proof -
    have c: "chain_ok d (fst r)" using assms(1) that by (simp add: desc_inv_def)
    have "fst r ! k \<in> set (in_use rs)" if "k < 3" for k
      using chain_in_use [OF \<open>r \<in> set rs\<close> c that] .
    then show ?thesis using c assms(4) by (simp add: chain_ok_def)
  qed
  then show ?thesis using assms by (auto simp: desc_inv_def)
qed

lemma format_simps [simp]:
  "vfree (format_descs i0 i1 i2 b wr sec d) = vfree d" "b_disk (format_descs i0 i1 i2 b wr sec d) = b_disk d"
  "av_ring (format_descs i0 i1 i2 b wr sec d) = av_ring d" "av_idx (format_descs i0 i1 i2 b wr sec d) = av_idx d"
  "us_ring (format_descs i0 i1 i2 b wr sec d) = us_ring d" "us_idx (format_descs i0 i1 i2 b wr sec d) = us_idx d"
  "used_idx (format_descs i0 i1 i2 b wr sec d) = used_idx d" "info_b (format_descs i0 i1 i2 b wr sec d) = info_b d"
  "info_status (format_descs i0 i1 i2 b wr sec d) = (info_status d)(i0 := 0xff)"
  by (simp_all add: format_descs_def Let_def)

lemma format_desc_other: "i \<notin> {i0, i1, i2} \<Longrightarrow> desc (format_descs i0 i1 i2 b wr sec d) i = desc d i"
  by (simp add: format_descs_def Let_def)

lemma format_chain:
  assumes "distinct [i0, i1, i2]" and "desc d' = desc (format_descs i0 i1 i2 b wr sec d)"
  shows "chain_ok d' [i0, i1, i2]"
  using assms by (auto simp: chain_ok_def format_descs_def Let_def VRING_DESC_F_NEXT_def VRING_DESC_F_WRITE_def)

lemma rw_submit_cases:
  obtains (Some) i0 i1 i2 d1 d' where "rw_submit b blockno wr d = Ok (Some [i0, i1, i2], d')"
      "d1 = format_descs i0 i1 i2 b wr (ucast (blockno * 2)) (d\<lparr>vfree := (\<lambda>i. vfree d i \<and> i \<notin> {i0, i1, i2})\<rparr>)"
      "d' = d1\<lparr>b_disk := (b_disk d)(b := True), info_b := (info_b d)(i0 := Some b),
         av_ring := (av_ring d)[unat (av_idx d) mod NUM := i0], av_idx := av_idx d + 1\<rparr>"
      "distinct [i0, i1, i2]" "vfree d i0" "vfree d i1" "vfree d i2" "{i0, i1, i2} \<subseteq> {..<NUM}"
  | (None) f where "rw_submit b blockno wr d = Ok (None, d\<lparr>desc := f\<rparr>)" "\<And>i. \<not> vfree d i \<Longrightarrow> f i = desc d i"
proof (cases rule: alloc3_spec [of d])
  case (Some i0 i1 i2)
  then show thesis
    by (intro that(1) [of i0 i1 i2 _ "format_descs i0 i1 i2 b wr (ucast (blockno * 2)) (d\<lparr>vfree := (\<lambda>i. vfree d i \<and> i \<notin> {i0, i1, i2})\<rparr>)"])
      (auto simp: rw_submit_def Let_def)
next
  case (None f)
  then show thesis by (intro that(2) [of f]) (auto simp: rw_submit_def Let_def)
qed

text \<open>The heads of the requests in progress are in use.\<close>

lemma head_in_use:
  assumes "desc_inv d rs" and "h \<in> set (active_heads d rs)"
  shows "h \<in> set (in_use rs)"
  using assms chain_in_use [of _ rs d 0] by (auto simp: active_heads_def desc_inv_def)

lemma win_in_use:
  assumes "vd_inv S m"
  shows "set (avail_win m) \<union> set (m_taken m) \<union> set (used_win (m_disk m)) \<subseteq> set (in_use (m_reqs m))"
proof -
  have "set (avail_win m) \<union> set (m_taken m) \<union> set (used_win (m_disk m)) = set (active_heads (m_disk m) (m_reqs m))"
    using assms unfolding vd_inv_def by (metis set_mset_mset set_mset_union)
  then show ?thesis using head_in_use assms by (auto simp: vd_inv_def)
qed

lemma vd_inv_submit:
  assumes "vd_inv S m" and "\<forall>r\<in>set (m_reqs m). snd r \<noteq> b" and "rw_submit b blockno wr (m_disk m) = Ok (Some idx, d')"
  shows "vd_inv S (m\<lparr>m_disk := d', m_reqs := m_reqs m @ [(idx, b)]\<rparr>)"
proof (cases rule: rw_submit_cases [of b blockno wr "m_disk m"])
  case (None f)
  then show ?thesis using assms(3) by simp
next
  case (Some i0 i1 i2 d1 d2)
  let ?d = "m_disk m" and ?rs = "m_reqs m"
  have idx: "idx = [i0, i1, i2]" "d2 = d'" using Some(1) assms(3) by auto
  have d: "desc_inv ?d ?rs" using assms(1) by (simp add: vd_inv_def)
  have new: "{i0, i1, i2} \<inter> set (in_use ?rs) = {}" using d Some(5-8) by (auto simp: desc_inv_def)
  have fr: "vfree d' = (\<lambda>i. vfree ?d i \<and> i \<notin> {i0, i1, i2})" "info_b d' = (info_b ?d)(i0 := Some b)"
    "b_disk d' = (b_disk ?d)(b := True)" "info_status d' = (info_status ?d)(i0 := 0xff)"
    "av_ring d' = (av_ring ?d)[unat (av_idx ?d) mod NUM := i0]" "av_idx d' = av_idx ?d + 1"
    "us_ring d' = us_ring ?d" "us_idx d' = us_idx ?d" "used_idx d' = used_idx ?d"
    using Some(2,3) idx(2) by auto
  have dd: "desc d' = desc d1" using Some(3) idx(2) by simp
  have old: "desc d' i = desc ?d i" if "i \<in> set (in_use ?rs)" for i
  proof -
    have "i \<notin> {i0, i1, i2}" using that new by auto
    then show ?thesis using dd Some(2) format_desc_other by simp
  qed
  have heads: "fst r ! 0 \<in> set (in_use ?rs)" if "r \<in> set ?rs" for r
    using d that chain_in_use [of r ?rs ?d 0] by (auto simp: desc_inv_def)
  have "desc_inv (d'\<lparr>vfree := vfree ?d, info_b := info_b ?d\<rparr>) ?rs" by (rule desc_inv_cong [OF d]) (simp_all add: old)
  then have keep: "chain_ok d' (fst r)" if "r \<in> set ?rs" for r
    using that by (auto simp: desc_inv_def chain_ok_def)
  have "chain_ok d' [i0, i1, i2]" using format_chain [OF Some(4), of d'] dd Some(2) by simp
  then have 1: "desc_inv d' (?rs @ [(idx, b)])"
    using d keep new Some(4,8) assms(2) heads unfolding desc_inv_def idx(1) fr(1,2)
    by (auto simp: disjoint_iff)
  have act: "active_heads d' (?rs @ [(idx, b)]) = active_heads ?d ?rs @ [i0]"
    using assms(2) by (auto simp: active_heads_def fr(3) idx(1) intro!: arg_cong [where f = "map _"] filter_cong)
  have lt: "unat (av_idx ?d - m_seen m) < NUM" using vd_inv_windows [OF assms(1)] by (simp add: avail_win_def NUM_def)
  have len: "length (av_ring ?d) = NUM" using assms(1) by (simp add: vd_inv_def)
  have win: "avail_win (m\<lparr>m_disk := d', m_reqs := ?rs @ [(idx, b)]\<rparr>) = avail_win m @ [i0]"
    using vring.ring_put [OF len lt] by (simp add: avail_win_def fr(5,6))
  have uw: "used_win d' = used_win ?d" by (simp add: used_win_def fr(7-9))
  have "i0 \<notin> set (used_win ?d)" using win_in_use [OF assms(1)] new by auto
  then show ?thesis using assms(1) 1 act win uw len unfolding vd_inv_def by (auto simp: fr(4,5,7))
qed

lemma vd_inv_full:
  assumes "vd_inv S m" and "rw_submit b blockno wr (m_disk m) = Ok (None, d')"
  shows "vd_inv S (m\<lparr>m_disk := d'\<rparr>)"
proof (cases rule: rw_submit_cases [of b blockno wr "m_disk m"])
  case (Some i0 i1 i2 d1 d2)
  then show ?thesis using assms(2) by simp
next
  case (None f)
  then have d': "d' = (m_disk m)\<lparr>desc := f\<rparr>" using assms(2) by simp
  have d: "desc_inv (m_disk m) (m_reqs m)" using assms(1) by (simp add: vd_inv_def)
  have "desc_inv d' (m_reqs m)"
    using d None(2) by (intro desc_inv_cong [OF d]) (auto simp: d' desc_inv_def)
  then show ?thesis using assms(1) by (simp add: vd_inv_def d' active_heads_def avail_win_def used_win_def)
qed

lemma vd_inv_take:
  assumes "vd_inv S m" and "m_seen m \<noteq> av_idx (m_disk m)"
  shows "vd_inv S (m\<lparr>m_taken := m_taken m @ [av_ring (m_disk m) ! (unat (m_seen m) mod NUM)], m_seen := m_seen m + 1\<rparr>)"
  using assms(1) vring.ring_take [OF not_sym [OF assms(2)], of "av_ring (m_disk m)"]
  by (simp add: vd_inv_def avail_win_def)

lemma vd_inv_complete:
  assumes "vd_inv S m" and "m_taken m = hs @ h # hs'" and "st \<in> S"
  shows "vd_inv S (m\<lparr>m_disk := dev_complete st h (m_disk m), m_taken := hs @ hs'\<rparr>)"
proof -
  let ?d = "m_disk m"
  have lt: "unat (us_idx ?d - used_idx ?d) < NUM"
    using vd_inv_windows [OF assms(1)] by (simp add: used_win_def NUM_def)
  have len: "length (us_ring ?d) = NUM" using assms(1) by (simp add: vd_inv_def)
  have w: "used_win (dev_complete st h ?d) = used_win ?d @ [h]"
    using vring.ring_put [OF len lt] by (simp add: used_win_def dev_complete_def)
  have a: "active_heads (dev_complete st h ?d) rs = active_heads ?d rs" for rs
    by (simp add: active_heads_def dev_complete_def)
  have "desc_inv (dev_complete st h ?d) (m_reqs m)"
    by (rule desc_inv_cong [of ?d]) (use assms(1) in \<open>simp_all add: dev_complete_def vd_inv_def\<close>)
  moreover have "mset (active_heads ?d (m_reqs m)) = mset (avail_win m) + mset (hs @ hs') + mset (used_win ?d @ [h])"
    using assms(1) unfolding vd_inv_def assms(2) by simp
  moreover have "avail_win (m\<lparr>m_disk := dev_complete st h ?d, m_taken := hs @ hs'\<rparr>) = avail_win m"
    by (simp add: avail_win_def dev_complete_def)
  moreover have "info_status (dev_complete st h ?d) x \<in> S" if "x \<in> set (used_win ?d @ [h])" for x
    using that assms(1,3) by (auto simp: vd_inv_def dev_complete_def)
  moreover have "length (av_ring (dev_complete st h ?d)) = NUM" "length (us_ring (dev_complete st h ?d)) = NUM"
    using assms(1) by (simp_all add: vd_inv_def dev_complete_def)
  ultimately show ?thesis unfolding vd_inv_def by (simp add: w a del: mset_append)
qed

lemma active_heads_done:
  assumes "distinct (map snd rs)" and "r \<in> set rs" and "b_disk d (snd r)"
    and "b_disk d' = (b_disk d)(snd r := False)"
  shows "mset (active_heads d rs) = add_mset (fst r ! 0) (mset (active_heads d' rs))"
proof -
  obtain xs ys where rs: "rs = xs @ r # ys" using assms(2) by (auto simp: in_set_conv_decomp)
  then have "filter (\<lambda>x. b_disk d' (snd x)) zs = filter (\<lambda>x. b_disk d (snd x)) zs" if "zs = xs \<or> zs = ys" for zs
    using that assms(1,4) by (intro filter_cong) (auto simp: image_iff)
  then show ?thesis using assms(3,4) by (simp add: active_heads_def rs)
qed

text \<open>The loop of the interrupt handler; \<open>M\<close> are the chains the device has not completed.\<close>

definition intr_inv :: "u8 set \<Rightarrow> nat multiset \<Rightarrow> (nat list \<times> nat) list \<Rightarrow> vdisk \<Rightarrow> bool" where
  "intr_inv S M rs d \<longleftrightarrow> desc_inv d rs \<and> length (us_ring d) = NUM \<and>
     mset (active_heads d rs) = M + mset (used_win d) \<and> (\<forall>h\<in>set (used_win d). info_status d h \<in> S)"

lemma intr_loop:
  assumes "intr_inv S M rs d"
  shows "(\<exists>woken' d'. virtio_disk_intr woken d = Ok (woken', d') \<and> intr_inv S M rs d' \<and> used_win d' = [] \<and>
      av_ring d' = av_ring d \<and> av_idx d' = av_idx d) \<or>
    virtio_disk_intr woken d = Panic ''virtio_disk_intr status'' \<and> (\<exists>h\<in>set (used_win d). info_status d h \<noteq> 0)"
  using assms
proof (induction woken d rule: virtio_disk_intr.induct)
  case (1 woken d)
  let ?h = "us_ring d ! (unat (used_idx d) mod NUM)"
  have w: "used_win d = ?h # used_win (d\<lparr>used_idx := used_idx d + 1\<rparr>)" if "used_idx d \<noteq> us_idx d"
    using vring.ring_take [OF not_sym [OF that], of "us_ring d"] by (simp add: used_win_def)
  consider "used_idx d = us_idx d" | "used_idx d \<noteq> us_idx d" "info_status d ?h \<noteq> 0"
    | "used_idx d \<noteq> us_idx d" "info_status d ?h = 0" by blast
  then show ?case
  proof cases
    case 1
    then have "used_win d = []" by (simp add: used_win_def ring_cont_empty_iff)
    then show ?thesis using "1.prems" 1 by (auto simp: virtio_disk_intr.simps [of woken])
  next
    case 2
    then show ?thesis using w by (subst (1 2) virtio_disk_intr.simps) (simp add: Let_def)
  next
    case 3
    note False = 3(1) and st = 3(2) and w = w [OF 3(1)]
    have "?h \<in># mset (active_heads d rs)" using "1.prems" w by (simp add: intr_inv_def)
    then obtain r where r: "r \<in> set rs" "b_disk d (snd r)" "fst r ! 0 = ?h" by (auto simp: active_heads_def)
    have d: "desc_inv d rs" using "1.prems" by (simp add: intr_inv_def)
    have b: "info_b d ?h = Some (snd r)" "distinct (map snd rs)" using d r by (auto simp: desc_inv_def)
    let ?d1 = "d\<lparr>b_disk := (b_disk d)(snd r := False), used_idx := used_idx d + 1\<rparr>"
    have w1: "used_win ?d1 = used_win (d\<lparr>used_idx := used_idx d + 1\<rparr>)" by (simp add: used_win_def)
    have "desc_inv ?d1 rs" by (rule desc_inv_cong [OF d]) simp_all
    moreover have "mset (active_heads d rs) = add_mset ?h (mset (active_heads ?d1 rs))"
      using active_heads_done [OF b(2) r(1,2), of ?d1] r(3) by simp
    ultimately have "intr_inv S M rs ?d1" using "1.prems" w w1 by (simp add: intr_inv_def)
    moreover have "virtio_disk_intr woken d = virtio_disk_intr (woken @ [snd r]) ?d1"
      using st b(1) False by (subst virtio_disk_intr.simps) simp
    ultimately show ?thesis using "1.IH" [OF False refl _ b(1)] st w w1 by auto
  qed
qed

lemma vd_inv_intr_inv: "vd_inv S m \<Longrightarrow> intr_inv S (mset (avail_win m) + mset (m_taken m)) (m_reqs m) (m_disk m)"
  by (simp add: vd_inv_def intr_inv_def)

lemma vd_inv_intr:
  assumes "vd_inv S m" and "virtio_disk_intr [] (m_disk m) = Ok (woken, d')"
  shows "vd_inv S (m\<lparr>m_disk := d'\<rparr>)"
  using intr_loop [OF vd_inv_intr_inv [OF assms(1)], of "[]"] assms
  by (auto simp: vd_inv_def intr_inv_def avail_win_def)

lemma free_desc_chain:
  assumes "chain_ok d idx" and "distinct idx" and "\<And>i. i \<in> set idx \<Longrightarrow> i < NUM \<and> \<not> vfree d i"
  shows "\<exists>d'. rw_finish (idx ! 0) d = Ok d' \<and> vfree d' = (\<lambda>i. i \<in> set idx \<or> vfree d i) \<and>
    info_b d' = (info_b d)(idx ! 0 := None) \<and> (\<forall>i. i \<notin> set idx \<longrightarrow> desc d' i = desc d i) \<and>
    av_ring d' = av_ring d \<and> av_idx d' = av_idx d \<and> us_ring d' = us_ring d \<and> us_idx d' = us_idx d \<and>
    used_idx d' = used_idx d \<and> b_disk d' = b_disk d \<and> info_status d' = info_status d"
proof -
  obtain i0 i1 i2 where idx: "idx = [i0, i1, i2]"
    using assms(1) by (auto simp: chain_ok_def length_Suc_conv numeral_3_eq_3)
  obtain n where fuel: "Suc NUM = Suc (Suc (Suc n))" by (simp add: NUM_def numeral_eq_Suc)
  have b: "i0 < NUM" "i1 < NUM" "i2 < NUM" "\<not> vfree d i0" "\<not> vfree d i1" "\<not> vfree d i2" "distinct [i0, i1, i2]"
    using assms(2,3) by (auto simp: idx)
  show ?thesis using assms(1) b unfolding idx rw_finish_def fuel
    by (auto simp: chain_ok_def free_desc_def Let_def fun_eq_iff)
qed

lemma finish_chain:
  assumes "desc_inv d (rs @ (idx, b) # rs')"
  shows "chain_ok d idx" "distinct idx" "\<And>i. i \<in> set idx \<Longrightarrow> i < NUM \<and> \<not> vfree d i"
  using assms by (auto simp: desc_inv_def)

lemma vd_inv_finish:
  assumes "vd_inv S m" and rs: "m_reqs m = rs @ (idx, b) # rs'" and "\<not> b_disk (m_disk m) b"
    and "rw_finish (idx ! 0) (m_disk m) = Ok d'"
  shows "vd_inv S (m\<lparr>m_disk := d', m_reqs := rs @ rs'\<rparr>)"
proof -
  let ?d = "m_disk m"
  have d: "desc_inv ?d (rs @ (idx, b) # rs')" using assms(1) rs by (simp add: vd_inv_def)
  have f: "vfree d' = (\<lambda>i. i \<in> set idx \<or> vfree ?d i)" "info_b d' = (info_b ?d)(idx ! 0 := None)"
    "\<And>i. i \<notin> set idx \<Longrightarrow> desc d' i = desc ?d i" "av_ring d' = av_ring ?d" "av_idx d' = av_idx ?d"
    "us_ring d' = us_ring ?d" "us_idx d' = us_idx ?d" "used_idx d' = used_idx ?d" "b_disk d' = b_disk ?d"
    "info_status d' = info_status ?d"
    using free_desc_chain [OF finish_chain [OF d]] assms(4) by auto
  have dis: "set idx \<inter> set (in_use (rs @ rs')) = {}" using d by (auto simp: desc_inv_def)
  have "chain_ok d' (fst r) \<and> info_b d' (fst r ! 0) = Some (snd r)" if "r \<in> set (rs @ rs')" for r
  proof -
    have r: "chain_ok ?d (fst r)" "info_b ?d (fst r ! 0) = Some (snd r)" using d that by (auto simp: desc_inv_def)
    have "fst r ! k \<notin> set idx" if "k < 3" for k
      using chain_in_use [OF \<open>r \<in> set (rs @ rs')\<close> r(1) that] dis by blast
    from this [of 0] this [of 1] this [of 2]
    have "fst r ! 0 \<notin> set idx" "fst r ! 1 \<notin> set idx" "fst r ! 2 \<notin> set idx" by simp_all
    moreover have "idx ! 0 \<in> set idx" using finish_chain(1) [OF d] by (simp add: chain_ok_def)
    moreover from calculation have "fst r ! 0 \<noteq> idx ! 0" by metis
    ultimately show ?thesis using r by (simp add: chain_ok_def f(2,3))
  qed
  then have 1: "desc_inv d' (rs @ rs')" using d dis f(1) unfolding desc_inv_def by auto
  have "active_heads d' (rs @ rs') = active_heads ?d (m_reqs m)"
    using assms(3) by (simp add: active_heads_def f(9) rs)
  then show ?thesis using assms(1) 1 f(4-8,10) by (simp add: vd_inv_def avail_win_def used_win_def)
qed

lemma vd_run_inv: "vd_run S m \<Longrightarrow> vd_inv S m"
proof (induction rule: vd_run.induct)
  case vr_boot
  show ?case
    by (simp add: vd_boot_def vd_inv_def virtio_disk_init_def desc_inv_def active_heads_def avail_win_def
        used_win_def ring_cont_def)
next
  case (vr_step m m')
  from vr_step(2,3) show ?case
    by (cases rule: vd_step.cases)
      (auto intro: vd_inv_submit vd_inv_full vd_inv_take vd_inv_complete vd_inv_intr vd_inv_finish)
qed

section \<open>Properties\<close>

text \<open>A machine with one request for block 7 in buffer 5.\<close>

definition one_req :: vmach where
  "one_req = (case rw_submit 5 7 False virtio_disk_init of
     Ok (Some idx, d) \<Rightarrow> vd_boot\<lparr>m_disk := d, m_reqs := [(idx, 5)]\<rparr> | _ \<Rightarrow> vd_boot)"

lemma one_req_submit: "\<exists>d. rw_submit 5 7 False virtio_disk_init = Ok (Some [0, 1, 2], d) \<and>
    one_req = vd_boot\<lparr>m_disk := d, m_reqs := [([0, 1, 2], 5)]\<rparr>"
proof -
  have "(case rw_submit 5 7 False virtio_disk_init of Ok (r, d) \<Rightarrow> r | _ \<Rightarrow> None) = Some [0, 1, 2]" by code_simp
  then obtain d where "rw_submit 5 7 False virtio_disk_init = Ok (Some [0, 1, 2], d)" by (auto split: outcome.splits)
  then show ?thesis by (simp add: one_req_def)
qed

lemma one_req_reqs: "m_reqs one_req = [([0, 1, 2], 5)]" "m_taken one_req = []"
proof -
  obtain d where d: "one_req = vd_boot\<lparr>m_disk := d, m_reqs := [([0, 1, 2], 5)]\<rparr>" using one_req_submit by blast
  show "m_reqs one_req = [([0, 1, 2], 5)]" "m_taken one_req = []" by (simp_all add: d vd_boot_def)
qed

lemma one_req_run: "vd_run S one_req"
proof -
  obtain d where d: "rw_submit 5 7 False (m_disk vd_boot) = Ok (Some [0, 1, 2], d)"
    "one_req = vd_boot\<lparr>m_disk := d, m_reqs := [([0, 1, 2], 5)]\<rparr>" using one_req_submit by (auto simp: vd_boot_def)
  have "vd_step S vd_boot (vd_boot\<lparr>m_disk := d, m_reqs := m_reqs vd_boot @ [([0, 1, 2], 5)]\<rparr>)"
    by (rule vd_submit [OF _ d(1)]) (simp add: vd_boot_def)
  then show ?thesis using vr_step [OF vr_boot] d(2) by (simp add: vd_boot_def)
qed

text \<open>
  C23: under any interleaving of requests, completions with any status and interrupts the descriptors
  in use are exactly those of the requests in progress, at most two, and the checks of the driver hold:
  submitting a request and freeing a chain do not panic, and the interrupt handler panics only with
  \<^verbatim>\<open>virtio_disk_intr status\<close>, when the device has reported a status other than 0 for a chain the
  handler has still to look at.
\<close>

theorem virtio_no_panic:
  assumes "vd_run UNIV m"
  shows "(\<forall>b blockno wr e. rw_submit b blockno wr (m_disk m) \<noteq> Panic e) \<and>
    (\<forall>e. virtio_disk_intr [] (m_disk m) = Panic e \<longrightarrow> e = ''virtio_disk_intr status'' \<and>
       (\<exists>h\<in>set (used_win (m_disk m)). info_status (m_disk m) h \<noteq> 0)) \<and>
    (\<forall>idx b. (idx, b) \<in> set (m_reqs m) \<longrightarrow> (\<exists>d'. rw_finish (idx ! 0) (m_disk m) = Ok d')) \<and>
    (\<forall>i. i < NUM \<longrightarrow> (vfree (m_disk m) i \<longleftrightarrow> i \<notin> set (in_use (m_reqs m)))) \<and> length (m_reqs m) \<le> 2"
proof -
  have inv: "vd_inv UNIV m" using vd_run_inv [OF assms] .
  then have d: "desc_inv (m_disk m) (m_reqs m)" by (simp add: vd_inv_def)
  have "rw_submit b blockno wr (m_disk m) \<noteq> Panic e" for b blockno wr e
    by (cases rule: rw_submit_cases [of b blockno wr "m_disk m"]) auto
  moreover have "e = ''virtio_disk_intr status'' \<and> (\<exists>h\<in>set (used_win (m_disk m)). info_status (m_disk m) h \<noteq> 0)"
    if "virtio_disk_intr [] (m_disk m) = Panic e" for e
    using intr_loop [OF vd_inv_intr_inv [OF inv], of "[]"] that by auto
  moreover have "\<exists>d'. rw_finish (idx ! 0) (m_disk m) = Ok d'" if r: "(idx, b) \<in> set (m_reqs m)" for idx b
  proof -
    obtain rs rs' where "m_reqs m = rs @ (idx, b) # rs'" using r by (auto simp: in_set_conv_decomp)
    then show ?thesis using free_desc_chain [OF finish_chain [of "m_disk m" rs idx b rs']] d by auto
  qed
  ultimately show ?thesis using d desc_inv_reqs [OF d] by (auto simp: desc_inv_def)
qed

text \<open>The device takes the request and completes it with status \<open>st\<close>.\<close>

definition one_done :: "u8 \<Rightarrow> vmach" where
  "one_done st = one_req\<lparr>m_disk := dev_complete st 0 (m_disk one_req), m_seen := 1\<rparr>"

lemma one_done_run:
  assumes "st \<in> S"
  shows "vd_run S (one_done st)"
proof -
  have e: "av_idx (m_disk one_req) = 1" "av_ring (m_disk one_req) ! 0 = 0" "m_seen one_req = 0" by code_simp+
  let ?m1 = "one_req\<lparr>m_taken := [0], m_seen := 1\<rparr>"
  have "vd_step S one_req ?m1" using vd_take [of one_req] e one_req_reqs by simp
  then have "vd_run S ?m1" using vr_step [OF one_req_run] by blast
  moreover have "one_done st = ?m1\<lparr>m_disk := dev_complete st 0 (m_disk ?m1), m_taken := [] @ []\<rparr>"
    using one_req_reqs(2) by (intro vmach.equality) (simp_all add: one_done_def)
  ultimately show ?thesis using vr_step vd_complete [of ?m1 "[]" 0 "[]" st S] assms by simp
qed

theorem virtio_no_panic_witness:
  "m_reqs one_req = [([0, 1, 2], 5)] \<and> \<not> vfree (m_disk one_req) 2 \<and> vfree (m_disk one_req) 3 \<and>
   (\<exists>d'. rw_finish 0 (m_disk one_req) = Ok d') \<and>
   virtio_disk_intr [] (m_disk (one_done 1)) = Panic ''virtio_disk_intr status'' \<and>
   (\<exists>h\<in>set (used_win (m_disk (one_done 1))). info_status (m_disk (one_done 1)) h \<noteq> 0)"
proof -
  note rs = one_req_reqs(1)
  have "vfree (m_disk one_req) i \<longleftrightarrow> i \<notin> {0, 1, 2}" if "i < NUM" for i
    using virtio_no_panic [OF one_req_run] that by (simp add: rs)
  from this [of 2] this [of 3] have "\<not> vfree (m_disk one_req) 2" "vfree (m_disk one_req) 3" by (auto simp: NUM_def)
  moreover have "\<exists>d'. rw_finish ([0, 1, 2] ! 0) (m_disk one_req) = Ok d'"
    using virtio_no_panic [OF one_req_run] by (metis list.set_intros(1) rs)
  moreover have p: "virtio_disk_intr [] (m_disk (one_done 1)) = Panic ''virtio_disk_intr status''"
  proof -
    have "case virtio_disk_intr [] (m_disk (one_done 1)) of Panic e \<Rightarrow> e = ''virtio_disk_intr status'' | _ \<Rightarrow> False" by code_simp
    then show ?thesis by (simp split: outcome.splits)
  qed
  moreover have "\<exists>h\<in>set (used_win (m_disk (one_done 1))). info_status (m_disk (one_done 1)) h \<noteq> 0"
    using virtio_no_panic [OF one_done_run [of 1 UNIV]] p by blast
  ultimately show ?thesis using rs by simp
qed

text \<open>
  C24: no request is lost. When the device has completed everything it was given, the next interrupt
  marks every request in progress as done, so that each process sleeping in \<open>virtio_disk_rw\<close> can
  continue.
\<close>

theorem virtio_completes:
  assumes "vd_reach m" and "m_seen m = av_idx (m_disk m)" and "m_taken m = []"
  shows "\<exists>woken d'. virtio_disk_intr [] (m_disk m) = Ok (woken, d') \<and>
    (\<forall>idx b. (idx, b) \<in> set (m_reqs m) \<longrightarrow> \<not> b_disk d' b)"
proof -
  have inv: "vd_inv {0} m" using vd_run_inv assms(1) by (simp add: vd_reach_def)
  have "avail_win m = []" using assms(2) by (simp add: avail_win_def ring_cont_def)
  moreover have "info_status (m_disk m) h = 0" if "h \<in> set (used_win (m_disk m))" for h using inv that by (auto simp: vd_inv_def)
  ultimately obtain woken d' where r: "virtio_disk_intr [] (m_disk m) = Ok (woken, d')" "intr_inv {0} {#} (m_reqs m) d'" "used_win d' = []"
    using intr_loop [OF vd_inv_intr_inv [OF inv], of "[]"] assms(3) by auto
  then have "active_heads d' (m_reqs m) = []" by (simp add: intr_inv_def)
  then have "\<not> b_disk d' b" if "(idx, b) \<in> set (m_reqs m)" for idx b
    using that by (force simp: active_heads_def filter_empty_conv)
  with r(1) show ?thesis by blast
qed

theorem virtio_completes_witness:
  "\<exists>woken d'. virtio_disk_intr [] (m_disk (one_done 0)) = Ok (woken, d') \<and> b_disk (m_disk (one_done 0)) 5 \<and> \<not> b_disk d' 5"
proof -
  have e: "av_idx (m_disk one_req) = 1" "b_disk (m_disk (one_done 0)) 5" by code_simp+
  have "vd_reach (one_done 0)" using one_done_run [of 0 "{0}"] by (simp add: vd_reach_def)
  moreover have "m_seen (one_done 0) = av_idx (m_disk (one_done 0))" "m_taken (one_done 0) = []"
    "m_reqs (one_done 0) = [([0, 1, 2], 5)]"
    using e one_req_reqs by (simp_all add: one_done_def dev_complete_def)
  ultimately show ?thesis using virtio_completes [of "one_done 0"] e(2) by auto
qed

text \<open>
  What the device reads: the chain from a head as long as the flag for a next descriptor is set, with
  address, length and whether it may write there.
\<close>

fun walk_chain :: "nat \<Rightarrow> vdisk \<Rightarrow> nat \<Rightarrow> (va \<times> u32 \<times> bool) list" where
  "walk_chain 0 d i = []"
| "walk_chain (Suc n) d i =
     (d_addr (desc d i), d_len (desc d i), d_flags (desc d i) AND VRING_DESC_F_WRITE \<noteq> 0) #
     (if d_flags (desc d i) AND VRING_DESC_F_NEXT \<noteq> 0 then walk_chain n d (d_next (desc d i)) else [])"

text \<open>
  C25: the chain a request leaves for the device says what the caller asked for. From the head in the
  available ring the device finds three descriptors: the 16 bytes of the command header, which hold
  the type and the sector of the block, the 1024 bytes of the buffer, writable for the device exactly
  for a read, and the status byte, which it may write and which is not 0 before. The chain is linked in
  that order and ends there; the head is published in the available ring and its index advanced by one.
\<close>

theorem virtio_request_format:
  assumes "rw_submit b blockno wr d = Ok (Some idx, d')" and "length (av_ring d) = NUM"
  shows "length idx = 3 \<and> distinct idx \<and>
    walk_chain NUM d' (idx ! 0) =
      [(OpsA (idx ! 0), 16, False), (DataA b, 1024, \<not> wr), (StatusA (idx ! 0), 1, True)] \<and>
    d_next (desc d' (idx ! 0)) = idx ! 1 \<and> d_next (desc d' (idx ! 1)) = idx ! 2 \<and>
    ops d' (idx ! 0) = \<lparr>r_type = (if wr then VIRTIO_BLK_T_OUT else VIRTIO_BLK_T_IN), r_reserved = 0, r_sector = ucast (2 * blockno)\<rparr> \<and>
    d_flags (desc d' (idx ! 0)) = VRING_DESC_F_NEXT \<and> d_flags (desc d' (idx ! 2)) = VRING_DESC_F_WRITE \<and>
    d_flags (desc d' (idx ! 1)) = (if wr then VRING_DESC_F_NEXT else VRING_DESC_F_WRITE OR VRING_DESC_F_NEXT) \<and>
    info_status d' (idx ! 0) = 0xff \<and> info_b d' (idx ! 0) = Some b \<and> b_disk d' b \<and>
    av_ring d' ! (unat (av_idx d) mod NUM) = idx ! 0 \<and> av_idx d' = av_idx d + 1"
proof (cases rule: rw_submit_cases [of b blockno wr d])
  case (None f)
  then show ?thesis using assms(1) by simp
next
  case (Some i0 i1 i2 d1 d2)
  have "unat (av_idx d) mod NUM < length (av_ring d)" using assms(2) by (simp add: NUM_def)
  moreover have "walk_chain NUM d' i0 = [(OpsA i0, 16, False), (DataA b, 1024, \<not> wr), (StatusA i0, 1, True)]"
  proof -
    obtain n where n: "NUM = Suc (Suc (Suc n))" by (simp add: NUM_def numeral_eq_Suc)
    have "desc d' i0 = \<lparr>d_addr = OpsA i0, d_len = 16, d_flags = VRING_DESC_F_NEXT, d_next = i1\<rparr>"
      "desc d' i1 = \<lparr>d_addr = DataA b, d_len = 1024,
         d_flags = (if wr then 0 else VRING_DESC_F_WRITE) OR VRING_DESC_F_NEXT, d_next = i2\<rparr>"
      "desc d' i2 = \<lparr>d_addr = StatusA i0, d_len = 1, d_flags = VRING_DESC_F_WRITE, d_next = 0\<rparr>"
      using Some(1-4) assms(1) by (auto simp: format_descs_def Let_def)
    then show ?thesis unfolding n by (simp add: VRING_DESC_F_NEXT_def VRING_DESC_F_WRITE_def)
  qed
  ultimately show ?thesis using Some(1-4) assms(1)
    by (auto simp: format_descs_def Let_def VRING_DESC_F_NEXT_def VRING_DESC_F_WRITE_def mult.commute)
qed

theorem virtio_request_format_witness:
  "\<exists>d'. rw_submit 5 7 False virtio_disk_init = Ok (Some [0, 1, 2], d') \<and>
     walk_chain NUM d' 0 = [(OpsA 0, 16, False), (DataA 5, 1024, True), (StatusA 0, 1, True)] \<and>
     ops d' 0 = \<lparr>r_type = VIRTIO_BLK_T_IN, r_reserved = 0, r_sector = 14\<rparr>"
proof -
  obtain d where d: "rw_submit 5 7 False virtio_disk_init = Ok (Some [0, 1, 2], d)" using one_req_submit by blast
  have "length (av_ring virtio_disk_init) = NUM" by (simp add: virtio_disk_init_def)
  from virtio_request_format [OF d this] d show ?thesis by simp
qed

end
