(* ===== verification/Cow.thy ===== *)
theory Cow
  imports Kalloc
begin

text \<open>
  Reference-counted pages, \<^verbatim>\<open>copy-to-fork/kalloc.c\<close>: the page allocator of the copy-on-write kernel. An
  array counts the page tables that map each page; a page goes back to the free list with its last
  reference, and \<open>kcopy_n_deref\<close> gives a writer a page of its own. The critical sections hold
  \<^verbatim>\<open>pgreflock\<close> and are atomic here.
\<close>

section \<open>copy-to-fork/kalloc.c\<close>

record cowmem =
  cphys :: phys
  pgref :: "nat \<Rightarrow> int"

definition PA2PGREF_ID :: "u64 \<Rightarrow> nat" where
  "PA2PGREF_ID p = unat ((p - KERNBASE) div PGSIZE)"

definition set_ref :: "u64 \<Rightarrow> int \<Rightarrow> cowmem \<Rightarrow> cowmem" where
  "set_ref pa v s = s\<lparr>pgref := (pgref s)(PA2PGREF_ID pa := v)\<rparr>"

definition ref_of :: "u64 \<Rightarrow> cowmem \<Rightarrow> int" where
  "ref_of pa s = pgref s (PA2PGREF_ID pa)"

definition cow_kfree :: "u64 \<Rightarrow> u64 \<Rightarrow> cowmem \<Rightarrow> cowmem outcome" where
  "cow_kfree kend pa s =
     (if pa mod PGSIZE \<noteq> 0 \<or> pa < kend \<or> pa \<ge> PHYSTOP then Panic ''kfree''
      else
        let s1 = set_ref pa (ref_of pa s - 1) s in
        if ref_of pa s1 \<le> 0 then
          let m = memset (pmem (cphys s1)) pa 1 (ucast PGSIZE);
              r = pa
          in Ok (s1\<lparr>cphys := (cphys s1)\<lparr>pmem := store64 m r (freelist (cphys s1)), freelist := r\<rparr>\<rparr>)
        else Ok s1)"

definition cow_kalloc :: "cowmem \<Rightarrow> u64 \<times> cowmem" where
  "cow_kalloc s =
     (let r = freelist (cphys s);
          s1 = (if r \<noteq> 0 then s\<lparr>cphys := (cphys s)\<lparr>freelist := load64 (pmem (cphys s)) r\<rparr>\<rparr> else s);
          s2 = (if r \<noteq> 0
                then set_ref r 1 (s1\<lparr>cphys := (cphys s1)\<lparr>pmem := memset (pmem (cphys s1)) r 5 (ucast PGSIZE)\<rparr>\<rparr>)
                else s1)
      in (r, s2))"

definition kcopy_n_deref :: "u64 \<Rightarrow> cowmem \<Rightarrow> u64 \<times> cowmem" where
  "kcopy_n_deref pa s =
     (if ref_of pa s \<le> 1 then (pa, s)
      else
        let (newpa, s1) = cow_kalloc s in
        if newpa = 0 then (0, s1)
        else
          let s2 = s1\<lparr>cphys := (cphys s1)\<lparr>pmem := memmove (pmem (cphys s1)) newpa pa (ucast PGSIZE)\<rparr>\<rparr>
          in (newpa, set_ref pa (ref_of pa s2 - 1) s2))"

definition krefpage :: "u64 \<Rightarrow> cowmem \<Rightarrow> cowmem" where
  "krefpage pa s = set_ref pa (ref_of pa s + 1) s"

function cow_freerange_loop :: "u64 \<Rightarrow> u64 \<Rightarrow> u64 \<Rightarrow> cowmem \<Rightarrow> cowmem outcome" where
  "cow_freerange_loop kend p pa_end s =
     (if p + PGSIZE \<le> pa_end
      then obind (cow_kfree kend p s) (\<lambda>s'. cow_freerange_loop kend (p + PGSIZE) pa_end s')
      else Ok s)"
  by pat_completeness auto

lemma cow_kfree_Ok_less: "cow_kfree kend pa s = Ok s' \<Longrightarrow> pa < PHYSTOP"
  by (auto simp: cow_kfree_def split: if_splits)

termination cow_freerange_loop
proof (relation "measure (\<lambda>(kend, p, pa_end, s). 0x88001000 - unat p)", goal_cases)
  case (2 kend p pa_end s s')
  then have "unat p < 0x88000000" by (auto dest: cow_kfree_Ok_less simp: PHYSTOP_eq word_less_nat_alt)
  then show ?case by (simp add: PGSIZE_def unat_plus_no_wrap)
qed simp

definition cow_kinit :: "u64 \<Rightarrow> cowmem \<Rightarrow> cowmem outcome" where
  "cow_kinit kend s = cow_freerange_loop kend (PGROUNDUP kend) PHYSTOP s"

section \<open>Counts of single pages\<close>

lemma PA2PGREF_inj:
  assumes "page_ok kend p" and "page_ok kend q" and "PA2PGREF_ID p = PA2PGREF_ID q"
  shows "p = q"
proof -
  have id: "unat r = 0x80000000 + 4096 * PA2PGREF_ID r" if r: "page_ok kend r" for r
  proof -
    have b: "KERNBASE \<le> r" using r by (auto simp: page_ok_def)
    then have le: "0x80000000 \<le> unat r" by (simp add: KERNBASE_def word_le_nat_alt)
    have "PA2PGREF_ID r = (unat r - 0x80000000) div 4096"
      using b by (simp add: PA2PGREF_ID_def unat_div_distrib unat_minus_le KERNBASE_def PGSIZE_def)
    moreover obtain k where "unat r = 4096 * k"
      using page_okD(1) [OF r] by (auto simp: page_aligned_def elim: dvdE)
    ultimately show ?thesis using le by simp
  qed
  have "unat p = unat q" using id [OF assms(1)] id [OF assms(2)] assms(3) by simp
  then show ?thesis by (simp add: word_unat_eq_iff)
qed

lemma ref_set_ref:
  assumes "page_ok kend p" and "page_ok kend q"
  shows "ref_of q (set_ref p v s) = (if q = p then v else ref_of q s)"
  using PA2PGREF_inj [OF assms] by (auto simp: ref_of_def set_ref_def)

lemma cphys_set_ref [simp]: "cphys (set_ref p v s) = cphys s"
  by (simp add: set_ref_def)

lemma ref_of_cphys [simp]: "ref_of p (s\<lparr>cphys := c\<rparr>) = ref_of p s"
  by (simp add: ref_of_def)

lemma cow_kfree_eq:
  assumes "page_ok kend p"
  shows "cow_kfree kend p s =
    (if ref_of p s \<le> 1 then obind (kfree kend p (cphys s)) (\<lambda>c. Ok ((set_ref p (ref_of p s - 1) s)\<lparr>cphys := c\<rparr>))
     else Ok (set_ref p (ref_of p s - 1) s))"
  using page_okD [OF assms] ref_set_ref [OF assms assms]
  by (simp add: cow_kfree_def kfree_eq [OF assms] page_aligned_mod not_less Let_def)

lemma cow_kalloc_eq:
  "cow_kalloc s = (let (r, c) = kalloc (cphys s) in (r, if r = 0 then s else set_ref r 1 (s\<lparr>cphys := c\<rparr>)))"
  by (simp add: cow_kalloc_def kalloc_def Let_def set_ref_def)

section \<open>Shared pages\<close>

text \<open>\<open>R p\<close> references to the page \<open>p\<close> are outstanding; \<open>F\<close> are the free pages.\<close>

definition cow_inv :: "u64 \<Rightarrow> cowmem \<Rightarrow> u64 set \<Rightarrow> (u64 \<Rightarrow> nat) \<Rightarrow> bool" where
  "cow_inv kend s F R \<longleftrightarrow> kmem_rep kend (cphys s) F \<and>
     (\<forall>p. 0 < R p \<longrightarrow> page_ok kend p \<and> p \<notin> F \<and> ref_of p s = int (R p))"

lemma cow_invD:
  assumes "cow_inv kend s F R"
  shows "kmem_rep kend (cphys s) F" "0 < R p \<Longrightarrow> page_ok kend p" "0 < R p \<Longrightarrow> p \<notin> F" "0 < R p \<Longrightarrow> ref_of p s = int (R p)"
  using assms by (auto simp: cow_inv_def)

lemma page_ok_free: "kmem_rep kend c F \<Longrightarrow> p \<in> F \<Longrightarrow> page_ok kend p"
  by (simp add: kmem_rep_def)

lemma cow_kalloc_some:
  assumes I: "cow_inv kend s F R" and F: "F \<noteq> {}"
  shows "\<exists>p s'. cow_kalloc s = (p, s') \<and> p \<in> F \<and> p \<noteq> 0 \<and> cow_inv kend s' (F - {p}) (R(p := 1)) \<and>
    (\<forall>x. \<not> in_page p x \<longrightarrow> pmem (cphys s') x = pmem (cphys s) x)"
proof -
  obtain p c where p: "kalloc (cphys s) = (p, c)" "p \<in> F" "kmem_rep kend c (F - {p})"
    using kalloc_some [OF cow_invD(1) [OF I] F] by blast
  have ok: "page_ok kend p" using page_ok_free [OF cow_invD(1) [OF I] p(2)] .
  then have "p \<noteq> 0" using page_okD by blast
  then have eq: "cow_kalloc s = (p, set_ref p 1 (s\<lparr>cphys := c\<rparr>))" using p(1) by (simp add: cow_kalloc_eq)
  have "cow_inv kend (set_ref p 1 (s\<lparr>cphys := c\<rparr>)) (F - {p}) (R(p := 1))"
    using I p(3) ok ref_set_ref [OF ok] by (auto simp: cow_inv_def)
  moreover have "pmem c x = pmem (cphys s) x" if "\<not> in_page p x" for x using kalloc_frame [OF p(1) that] .
  ultimately show ?thesis using eq p(2) \<open>p \<noteq> 0\<close> by (intro exI [of _ p] exI conjI) auto
qed

lemma cow_kalloc_none:
  assumes "cow_inv kend s {} R"
  shows "cow_kalloc s = (0, s)"
  using kmem.alloc_none [OF cow_invD(1) [OF assms]] by (simp add: cow_kalloc_eq)

lemma krefpage_inv:
  assumes I: "cow_inv kend s F R" and p: "0 < R p"
  shows "cow_inv kend (krefpage p s) F (R(p := R p + 1))"
  using cow_invD [OF I] ref_set_ref [OF cow_invD(2) [OF I p]] p
  by (auto simp: cow_inv_def krefpage_def)

lemma cow_kfree_inv:
  assumes I: "cow_inv kend s F R" and p: "0 < R p"
  shows "\<exists>s'. cow_kfree kend p s = Ok s' \<and> cow_inv kend s' (if R p = 1 then insert p F else F) (R(p := R p - 1)) \<and>
    (\<forall>x. 1 < R p \<or> \<not> in_page p x \<longrightarrow> pmem (cphys s') x = pmem (cphys s) x)"
proof -
  have ok: "page_ok kend p" and ref: "ref_of p s = int (R p)" and pF: "p \<notin> F" using cow_invD [OF I] p by auto
  show ?thesis
  proof (cases "R p = 1")
    case True
    obtain c where c: "kfree kend p (cphys s) = Ok c" "kmem_rep kend c (insert p F)"
      using kfree_rep [OF cow_invD(1) [OF I] ok pF] by blast
    let ?s = "(set_ref p (ref_of p s - 1) s)\<lparr>cphys := c\<rparr>"
    have "cow_kfree kend p s = Ok ?s" using cow_kfree_eq [OF ok, of s] True ref c(1) by simp
    moreover have "cow_inv kend ?s (insert p F) (R(p := 0))"
      using cow_invD [OF I] c(2) ref_set_ref [OF ok] by (auto simp: cow_inv_def)
    ultimately show ?thesis using True kfree_frame [OF c(1)] by auto
  next
    case False
    let ?s = "set_ref p (ref_of p s - 1) s"
    have "cow_kfree kend p s = Ok ?s" using cow_kfree_eq [OF ok, of s] False p ref by simp
    moreover have "cow_inv kend ?s F (R(p := R p - 1))"
      using cow_invD [OF I] False p ref ref_set_ref [OF ok] by (auto simp: cow_inv_def)
    ultimately show ?thesis using False by auto
  qed
qed

lemma memmove_page:
  assumes "page_ok kend p"
  shows "memmove m q p 4096 x = (if in_page q x then m (p + (x - q)) else m x)"
  using page_okD(4) [OF assms] by (simp add: memmove_apply in_page_def PHYSTOP_eq word_less_nat_alt)

lemma kmem_rep_mem:
  assumes "kmem_rep kend c F" and "\<And>q x. q \<in> F \<Longrightarrow> in_page q x \<Longrightarrow> m x = pmem c x"
  shows "kmem_rep kend (c\<lparr>pmem := m\<rparr>) F"
proof -
  obtain ps where ps: "run_chain (pmem c) (freelist c) ps" "distinct ps" "F = set ps" "\<forall>p\<in>F. page_ok kend p"
    using assms(1) by (auto simp: kmem_rep_def)
  have "run_chain m (freelist c) ps" by (rule run_chain_frame [OF ps(1)]) (use assms(2) ps(3) in auto)
  then show ?thesis using ps(2-4) by (auto simp: kmem_rep_def)
qed

lemma kcopy_copies:
  assumes I: "cow_inv kend s F R" and p: "1 < R p" and F: "F \<noteq> {}"
  shows "\<exists>q s'. kcopy_n_deref p s = (q, s') \<and> q \<in> F \<and> q \<noteq> 0 \<and> cow_inv kend s' (F - {q}) (R(p := R p - 1, q := 1)) \<and>
    (\<forall>x. pmem (cphys s') x = (if in_page q x then pmem (cphys s) (p + (x - q)) else pmem (cphys s) x))"
proof -
  have okp: "page_ok kend p" and ref: "ref_of p s = int (R p)" and pF: "p \<notin> F" using cow_invD [OF I] p by auto
  obtain q s1 where 1: "cow_kalloc s = (q, s1)" "q \<in> F" "q \<noteq> 0" "cow_inv kend s1 (F - {q}) (R(q := 1))"
    "\<forall>x. \<not> in_page q x \<longrightarrow> pmem (cphys s1) x = pmem (cphys s) x"
    using cow_kalloc_some [OF I F] by blast
  have okq: "page_ok kend q" using page_ok_free [OF cow_invD(1) [OF I] 1(2)] .
  have pq: "p \<noteq> q" using pF 1(2) by auto
  have ref1: "ref_of p s1 = int (R p)" using cow_invD(4) [OF 1(4), of p] p pq by simp
  let ?m = "memmove (pmem (cphys s1)) q p 4096"
  let ?s = "set_ref p (int (R p) - 1) (s1\<lparr>cphys := (cphys s1)\<lparr>pmem := ?m\<rparr>\<rparr>)"
  have eq: "kcopy_n_deref p s = (q, ?s)" using 1(1,3) p ref ref1 by (simp add: kcopy_n_deref_def)
  have al: "page_aligned p" "page_aligned q" using page_okD okp okq by auto
  have m: "?m x = (if in_page q x then pmem (cphys s) (p + (x - q)) else pmem (cphys s) x)" for x
  proof -
    have "\<not> in_page q (p + (x - q))" if "in_page q x"
      using that in_page_disjoint [OF al pq, of "p + (x - q)"] by (simp add: in_page_def)
    then show ?thesis using 1(5) by (simp add: memmove_page [OF okp])
  qed
  have "kmem_rep kend ((cphys s1)\<lparr>pmem := ?m\<rparr>) (F - {q})"
  proof (rule kmem_rep_mem [OF cow_invD(1) [OF 1(4)]])
    fix r x assume r: "r \<in> F - {q}" "in_page r x"
    then have "page_aligned r" using page_ok_free [OF cow_invD(1) [OF I]] page_okD by blast
    then have "\<not> in_page q x" using in_page_disjoint [OF _ al(2) _ r(2)] r(1) by auto
    then show "?m x = pmem (cphys s1) x" by (simp add: memmove_page [OF okp])
  qed
  moreover have "page_ok kend r \<and> r \<notin> F - {q} \<and> ref_of r ?s = int ((R(p := R p - 1, q := 1)) r)"
    if "0 < (R(p := R p - 1, q := 1)) r" for r
  proof -
    have R: "0 < (R(q := 1)) r" using that p by (auto split: if_splits)
    note r = cow_invD(2,3,4) [OF 1(4) R]
    have "ref_of r ?s = (if r = p then int (R p) - 1 else ref_of r s1)"
      using ref_set_ref [OF okp r(1), of "int (R p) - 1" "s1\<lparr>cphys := (cphys s1)\<lparr>pmem := ?m\<rparr>\<rparr>"] by simp
    then show ?thesis using r p pq by (cases "r = p") (simp_all add: of_nat_diff)
  qed
  moreover have "cphys ?s = (cphys s1)\<lparr>pmem := ?m\<rparr>" by simp
  ultimately have "cow_inv kend ?s (F - {q}) (R(p := R p - 1, q := 1))" unfolding cow_inv_def by metis
  then show ?thesis using eq 1(2,3) m by (intro exI [of _ q] exI [of _ ?s]) simp
qed

text \<open>The counting allocator keeps the contract of the page allocator.\<close>

interpretation cow: page_allocator cow_kalloc "cow_kfree kend" "\<lambda>s. kmem_rep kend (cphys s)"
  "\<lambda>s p. page_ok kend p \<and> ref_of p s \<le> 1" "\<lambda>s. pmem (cphys s)"
proof unfold_locales
  have inv: "kmem_rep kend (cphys s) F \<Longrightarrow> cow_inv kend s F (\<lambda>_. 0)" for s F by (simp add: cow_inv_def)
  show "kmem_rep kend (cphys s) F \<Longrightarrow> p \<in> F \<Longrightarrow> page_aligned p \<and> p \<noteq> 0" for s F p
    by (auto simp: kmem_rep_def dest: page_okD)
  show "kmem_rep kend (cphys s) F \<Longrightarrow> finite F" for s F by (rule kmem.rep_finite)
  show "kmem_rep kend (cphys s) {} \<Longrightarrow> cow_kalloc s = (0, s)" for s by (rule cow_kalloc_none [OF inv])
  show "\<exists>p s'. cow_kalloc s = (p, s') \<and> p \<in> F \<and> kmem_rep kend (cphys s') (F - {p}) \<and> page_ok kend p \<and> ref_of p s' \<le> 1"
    if F: "kmem_rep kend (cphys s) F" "F \<noteq> {}" for s F
  proof -
    obtain p s' where p: "cow_kalloc s = (p, s')" "p \<in> F" "cow_inv kend s' (F - {p}) ((\<lambda>_. 0)(p := 1))"
      using cow_kalloc_some [OF inv [OF F(1)] F(2)] by blast
    then show ?thesis using cow_invD(1) [OF p(3)] cow_invD(2,4) [OF p(3), of p] by auto
  qed
  show "kmem_rep kend (cphys s) F \<Longrightarrow> cow_kalloc s = (p, s') \<Longrightarrow> \<not> in_page p x \<Longrightarrow> pmem (cphys s') x = pmem (cphys s) x"
    for s F p s' x
    using kalloc_frame [of "cphys s" p _ x] by (auto simp: cow_kalloc_eq split: prod.splits if_splits)
  show "\<exists>s'. cow_kfree kend p s = Ok s' \<and> kmem_rep kend (cphys s') (insert p F)"
    if "kmem_rep kend (cphys s) F" "page_ok kend p \<and> ref_of p s \<le> 1" "p \<notin> F" for s F p
    using kfree_rep [OF that(1) _ that(3)] that(2) by (auto simp: cow_kfree_eq)
qed

section \<open>Runs of the allocator\<close>

text \<open>
  Any sequence of allocations, new references, releases and private copies, and of stores to
  pages that are in use.
\<close>

inductive cow_run :: "u64 \<Rightarrow> cowmem \<Rightarrow> u64 set \<Rightarrow> (u64 \<Rightarrow> nat) \<Rightarrow> bool" for kend where
  cr_start: "kmem_rep kend (cphys s) F \<Longrightarrow> cow_run kend s F (\<lambda>_. 0)"
| cr_alloc: "cow_run kend s F R \<Longrightarrow> cow_kalloc s = (p, s') \<Longrightarrow> p \<noteq> 0 \<Longrightarrow> cow_run kend s' (F - {p}) (R(p := 1))"
| cr_ref: "cow_run kend s F R \<Longrightarrow> 0 < R p \<Longrightarrow> cow_run kend (krefpage p s) F (R(p := R p + 1))"
| cr_free: "cow_run kend s F R \<Longrightarrow> 0 < R p \<Longrightarrow> cow_kfree kend p s = Ok s' \<Longrightarrow>
    cow_run kend s' (if R p = 1 then insert p F else F) (R(p := R p - 1))"
| cr_copy: "cow_run kend s F R \<Longrightarrow> 0 < R p \<Longrightarrow> kcopy_n_deref p s = (q, s') \<Longrightarrow> q \<noteq> 0 \<Longrightarrow> q \<noteq> p \<Longrightarrow>
    cow_run kend s' (F - {q}) (R(p := R p - 1, q := 1))"
| cr_store: "cow_run kend s F R \<Longrightarrow> 0 < R p \<Longrightarrow> in_page p x \<Longrightarrow>
    cow_run kend (s\<lparr>cphys := (cphys s)\<lparr>pmem := (pmem (cphys s))(x := b)\<rparr>\<rparr>) F R"

lemma kcopy_same: "cow_inv kend s F R \<Longrightarrow> R p = 1 \<Longrightarrow> kcopy_n_deref p s = (p, s)"
  using cow_invD(4) [of kend s F R p] by (simp add: kcopy_n_deref_def)

lemma kcopy_none: "cow_inv kend s {} R \<Longrightarrow> 1 < R p \<Longrightarrow> kcopy_n_deref p s = (0, s)"
  using cow_invD(4) [of kend s "{}" R p] cow_kalloc_none [of kend s R] by (simp add: kcopy_n_deref_def)

lemma cow_run_inv: "cow_run kend s F R \<Longrightarrow> cow_inv kend s F R"
proof (induction rule: cow_run.induct)
  case (cr_start s F)
  then show ?case by (simp add: cow_inv_def)
next
  case (cr_alloc s F R p s')
  then have "F \<noteq> {}" using cow_kalloc_none by fastforce
  then show ?case using cow_kalloc_some [OF cr_alloc.IH] cr_alloc.hyps by (auto simp: fun_upd_def)
next
  case (cr_ref s F R p)
  then show ?case by (intro krefpage_inv)
next
  case (cr_free s F R p s')
  show ?case using cow_kfree_inv [OF cr_free.IH cr_free.hyps(2)] cr_free.hyps(3) by (auto simp: fun_upd_def)
next
  case (cr_copy s F R p q s')
  have "R p \<noteq> 1" using kcopy_same [OF cr_copy.IH] cr_copy.hyps by auto
  moreover have "F \<noteq> {}" using kcopy_none [of kend s R p] cr_copy calculation by fastforce
  ultimately show ?case using kcopy_copies [OF cr_copy.IH, of p] cr_copy.hyps by (auto simp: fun_upd_def)
next
  case (cr_store s F R p x b)
  note I = cr_store.IH
  have "kmem_rep kend ((cphys s)\<lparr>pmem := (pmem (cphys s))(x := b)\<rparr>) F"
  proof (rule kmem_rep_mem [OF cow_invD(1) [OF I]])
    fix q y assume q: "q \<in> F" "in_page q y"
    have "page_aligned q" "page_aligned p" "p \<noteq> q"
      using page_ok_free [OF cow_invD(1) [OF I] q(1)] cow_invD(2,3) [OF I cr_store.hyps(2)] q(1) page_okD by auto
    then show "((pmem (cphys s))(x := b)) y = pmem (cphys s) y"
      using in_page_disjoint [of p q x] cr_store.hyps(3) q(2) by auto
  qed
  then show ?case using I unfolding cow_inv_def by simp
qed

text \<open>
  C30: in every run the count of a page in use is the number of references to it, and no page in use
  is on the free list; releasing a reference never panics, frees the page exactly when it is the last
  one and leaves the contents of all other pages, and those of a page still shared, alone. A private
  copy of a shared page is a page that was free, with the same bytes and one reference; the
  owner of a page with one reference keeps it, and a copy fails only without free pages.
\<close>

theorem cow_pages_shared:
  assumes "cow_run kend s F R" and "0 < R p"
  shows "p \<notin> F \<and> ref_of p s = int (R p) \<and>
    (\<exists>s'. cow_kfree kend p s = Ok s' \<and> kmem_rep kend (cphys s') (if R p = 1 then insert p F else F) \<and>
      (\<forall>x. 1 < R p \<or> \<not> in_page p x \<longrightarrow> pmem (cphys s') x = pmem (cphys s) x)) \<and>
    (\<exists>q s'. kcopy_n_deref p s = (q, s') \<and>
      (if R p = 1 then q = p \<and> s' = s
       else if F = {} then q = 0 \<and> s' = s
       else q \<in> F \<and> kmem_rep kend (cphys s') (F - {q}) \<and> ref_of q s' = 1 \<and> ref_of p s' = int (R p) - 1 \<and>
         (\<forall>x. pmem (cphys s') x = (if in_page q x then pmem (cphys s) (p + (x - q)) else pmem (cphys s) x))))"
proof (intro conjI)
  note I = cow_run_inv [OF assms(1)]
  show "p \<notin> F" "ref_of p s = int (R p)" using cow_invD [OF I] assms(2) by auto
  show "\<exists>s'. cow_kfree kend p s = Ok s' \<and> kmem_rep kend (cphys s') (if R p = 1 then insert p F else F) \<and>
      (\<forall>x. 1 < R p \<or> \<not> in_page p x \<longrightarrow> pmem (cphys s') x = pmem (cphys s) x)"
    using cow_kfree_inv [OF I assms(2)] by (auto dest: cow_invD(1))
  show "\<exists>q s'. kcopy_n_deref p s = (q, s') \<and>
      (if R p = 1 then q = p \<and> s' = s
       else if F = {} then q = 0 \<and> s' = s
       else q \<in> F \<and> kmem_rep kend (cphys s') (F - {q}) \<and> ref_of q s' = 1 \<and> ref_of p s' = int (R p) - 1 \<and>
         (\<forall>x. pmem (cphys s') x = (if in_page q x then pmem (cphys s) (p + (x - q)) else pmem (cphys s) x)))"
  proof -
    consider "R p = 1" | "1 < R p" "F = {}" | "1 < R p" "F \<noteq> {}" using assms(2) by linarith
    then show ?thesis
    proof cases
      case 1
      then show ?thesis using kcopy_same [OF I] by simp
    next
      case 2
      then show ?thesis using kcopy_none [of kend s R p] I by simp
    next
      case 3
      obtain q s' where q: "kcopy_n_deref p s = (q, s')" "q \<in> F" "cow_inv kend s' (F - {q}) (R(p := R p - 1, q := 1))"
        "\<forall>x. pmem (cphys s') x = (if in_page q x then pmem (cphys s) (p + (x - q)) else pmem (cphys s) x)"
        using kcopy_copies [OF I 3] by blast
      have "p \<noteq> q" using q(2) cow_invD(3) [OF I assms(2)] by auto
      then have "ref_of q s' = 1" "ref_of p s' = int (R p) - 1" using cow_invD(4) [OF q(3), of q] cow_invD(4) [OF q(3), of p] 3(1) by auto
      then show ?thesis using 3 q cow_invD(1) [OF q(3)] by auto
    qed
  qed
qed

theorem cow_pages_shared_witness:
  "let s = snd (cow_kalloc \<lparr>cphys = \<lparr>pmem = (\<lambda>_. 0), freelist = 0x87fff000\<rparr>, pgref = (\<lambda>_. 0)\<rparr>)
   in ref_of 0x87fff000 s = 1 \<and> kcopy_n_deref 0x87fff000 s = (0x87fff000, s) \<and>
      (\<exists>s'. cow_kfree 0x80020000 0x87fff000 s = Ok s' \<and> kmem_rep 0x80020000 (cphys s') {0x87fff000})"
proof -
  let ?p = "0x87fff000 :: u64" and ?k = "0x80020000 :: u64"
  let ?s = "\<lparr>cphys = \<lparr>pmem = (\<lambda>_. 0), freelist = ?p\<rparr>, pgref = (\<lambda>_. 0)\<rparr> :: cowmem"
  have z: "load64 (\<lambda>_. 0) ?p = 0" by (simp add: load64_def eval_nat_numeral)
  have "page_ok ?k ?p" by (simp add: page_ok_def page_aligned_def PHYSTOP_eq KERNBASE_def)
  then have "kmem_rep ?k (cphys ?s) {?p}"
    using z unfolding kmem_rep_def by (intro conjI exI [of _ "[?p]"]) auto
  then have start: "cow_run ?k ?s {?p} (\<lambda>_. 0)" by (rule cr_start)
  have "cow_kalloc ?s = (?p, snd (cow_kalloc ?s))" by (simp add: cow_kalloc_def Let_def)
  then have "cow_run ?k (snd (cow_kalloc ?s)) ({?p} - {?p}) ((\<lambda>_. 0)(?p := 1))" by (rule cr_alloc [OF start]) simp
  from cow_pages_shared [OF this, of ?p] show ?thesis by (auto simp: Let_def)
qed

end
