(* ===== verification/Percpu.thy ===== *)
theory Percpu
  imports Kalloc
begin

text \<open>
  The page allocator with one free list per CPU, \<^verbatim>\<open>locks/kalloc.c\<close>. A CPU whose list is empty takes the
  first half of another CPU's list, found with a slow and a fast pointer. Each call is one step here:
  a call that runs while no other CPU is inside the allocator. What the locks do when CPUs run it at
  the same time is not modelled: the code reads the head of the other list before it takes that
  list's lock, and takes it while it holds its own. The loop over the two pointers need not end on a cyclic list and is a
  partial function; on the lists of the allocator it is shown to return.
\<close>

section \<open>locks/kalloc.c\<close>

definition NCPU :: nat where "NCPU = 8"

record pcpu =
  pkmem :: memory
  pklist :: "nat \<Rightarrow> u64"

definition pk_kfree :: "u64 \<Rightarrow> nat \<Rightarrow> u64 \<Rightarrow> pcpu \<Rightarrow> pcpu outcome" where
  "pk_kfree kend cpu pa s =
     (if pa mod PGSIZE \<noteq> 0 \<or> pa < kend \<or> pa \<ge> PHYSTOP then Panic ''kfree''
      else
        let m = memset (pkmem s) pa 1 (ucast PGSIZE);
            r = pa
        in Ok (s\<lparr>pkmem := store64 m r (pklist s cpu), pklist := (pklist s)(cpu := r)\<rparr>))"

text \<open>The CPU that boots frees every page, \<open>freerange\<close> and \<open>kinit\<close>.\<close>

function pk_freerange_loop :: "u64 \<Rightarrow> nat \<Rightarrow> u64 \<Rightarrow> u64 \<Rightarrow> pcpu \<Rightarrow> pcpu outcome" where
  "pk_freerange_loop kend cpu p pa_end s =
     (if p + PGSIZE \<le> pa_end
      then obind (pk_kfree kend cpu p s) (\<lambda>s'. pk_freerange_loop kend cpu (p + PGSIZE) pa_end s')
      else Ok s)"
  by pat_completeness auto

lemma pk_kfree_Ok_less: "pk_kfree kend cpu pa s = Ok s' \<Longrightarrow> pa < PHYSTOP"
  by (auto simp: pk_kfree_def split: if_splits)

termination pk_freerange_loop
proof (relation "measure (\<lambda>(kend, cpu, p, pa_end, s). 0x88001000 - unat p)", goal_cases)
  case (2 kend cpu p pa_end s s')
  then have "unat p < 0x88000000" by (auto dest: pk_kfree_Ok_less simp: PHYSTOP_eq word_less_nat_alt)
  then show ?case by (simp add: PGSIZE_def unat_plus_no_wrap)
qed simp

definition pk_kinit :: "u64 \<Rightarrow> nat \<Rightarrow> pcpu \<Rightarrow> pcpu outcome" where
  "pk_kinit kend cpu s = pk_freerange_loop kend cpu (PGROUNDUP kend) PHYSTOP s"

text \<open>The loop that moves \<open>r1\<close> by one and \<open>r2\<close> by two pages.\<close>

partial_function (option) half :: "memory \<Rightarrow> u64 \<Rightarrow> u64 \<Rightarrow> u64 option" where
  "half m r1 r2 =
     (if r2 = 0 then Some r1
      else let r2' = load64 m r2 in
           if r2' \<noteq> 0 then half m (load64 m r1) (load64 m r2') else Some r1)"

declare half.simps [code]

text \<open>The loop over the other CPUs, \<open>k\<close> of them from \<open>i\<close> on: the page found, and the state.\<close>

fun pk_steal :: "nat \<Rightarrow> nat \<Rightarrow> nat \<Rightarrow> pcpu \<Rightarrow> (u64 \<times> pcpu) option" where
  "pk_steal cpu i 0 s = Some (0, s)"
| "pk_steal cpu i (Suc k) s =
     (if i = cpu then pk_steal cpu (Suc i) k s
      else
        let r = pklist s i in
        if r \<noteq> 0 then
          (case half (pkmem s) r (load64 (pkmem s) r) of
             None \<Rightarrow> None
           | Some r1 \<Rightarrow>
               let s1 = s\<lparr>pklist := (pklist s)(i := load64 (pkmem s) r1)\<rparr>;
                   s2 = s1\<lparr>pkmem := store64 (pkmem s1) r1 0\<rparr>
               in Some (r, s2\<lparr>pklist := (pklist s2)(cpu := load64 (pkmem s2) r)\<rparr>))
        else pk_steal cpu (Suc i) k s)"

definition pk_kalloc :: "nat \<Rightarrow> pcpu \<Rightarrow> (u64 \<times> pcpu) option" where
  "pk_kalloc cpu s =
     (let r = pklist s cpu;
          res = (if r \<noteq> 0 then Some (r, s\<lparr>pklist := (pklist s)(cpu := load64 (pkmem s) r)\<rparr>)
                 else pk_steal cpu 0 NCPU s)
      in map_option (\<lambda>(r, s1). (r, if r \<noteq> 0 then s1\<lparr>pkmem := memset (pkmem s1) r 5 (ucast PGSIZE)\<rparr> else s1)) res)"

section \<open>The lists\<close>

definition pk_chains :: "u64 \<Rightarrow> pcpu \<Rightarrow> (nat \<Rightarrow> u64 list) \<Rightarrow> bool" where
  "pk_chains kend s L \<longleftrightarrow>
     (\<forall>i<NCPU. run_chain (pkmem s) (pklist s i) (L i) \<and> distinct (L i) \<and> (\<forall>p\<in>set (L i). page_ok kend p)) \<and>
     (\<forall>i<NCPU. \<forall>j<NCPU. i \<noteq> j \<longrightarrow> set (L i) \<inter> set (L j) = {})"

definition pk_pages :: "(nat \<Rightarrow> u64 list) \<Rightarrow> u64 set" where
  "pk_pages L = (\<Union>i<NCPU. set (L i))"

lemma pk_chainsD:
  assumes "pk_chains kend s L" and "i < NCPU"
  shows "run_chain (pkmem s) (pklist s i) (L i)" "distinct (L i)" "p \<in> set (L i) \<Longrightarrow> page_ok kend p"
  using assms by (auto simp: pk_chains_def)

lemma run_chain_0: "run_chain m p ps \<Longrightarrow> p = 0 \<longleftrightarrow> ps = []"
  by (cases ps) auto

lemma half_middle:
  assumes "run_chain m r2 qs" and "run_chain m r1 xs" and "length qs div 2 < length xs"
  shows "half m r1 r2 = Some (xs ! (length qs div 2))"
  using assms
proof (induction qs arbitrary: r1 r2 xs rule: induct_list012)
  case 1
  then show ?case by (cases xs) (auto simp: half.simps)
next
  case (2 x)
  then show ?case by (cases xs) (auto simp: half.simps [of m r1 x])
next
  case (3 x y zs)
  then obtain z xs' where xs: "xs = z # xs'" by (cases xs) auto
  have "half m (load64 m r1) (load64 m y) = Some (xs' ! (length zs div 2))"
    using 3(3-5) xs by (intro 3(1)) auto
  then show ?case using 3(3,4) xs by (auto simp: half.simps [of m z x])
qed

text \<open>Changes of memory outside the pages of a list.\<close>

lemma chain_outside:
  assumes "run_chain m p ps" and "\<And>q. q \<in> set ps \<Longrightarrow> page_aligned q \<and> q \<noteq> y" and "page_aligned y"
    and "\<And>x. \<not> in_page y x \<Longrightarrow> m' x = m x"
  shows "run_chain m' p ps"
  by (rule run_chain_frame [OF assms(1)]) (use assms(2-4) in_page_disjoint in blast)

lemma store64_page: "\<not> in_page p x \<Longrightarrow> store64 m p v x = m x"
  using store64_in_page [of 0 p x m v] by simp

lemma run_chain_append: "run_chain m p (xs @ y # ys) \<Longrightarrow> run_chain m y (y # ys)"
  by (induction xs arbitrary: p) auto

lemma run_chain_prefix:
  assumes "run_chain m p (xs @ y # ys)" and "\<And>q. q \<in> set xs \<Longrightarrow> load64 m' q = load64 m q" and "load64 m' y = 0"
  shows "run_chain m' p (xs @ [y])"
  using assms by (induction xs arbitrary: p) auto

text \<open>Cutting a list behind one of its pages.\<close>

lemma chain_cut:
  assumes "run_chain m p (xs @ y # ys)" and "distinct (xs @ y # ys)" and "\<And>q. q \<in> set (xs @ y # ys) \<Longrightarrow> page_aligned q"
  shows "run_chain (store64 m y 0) p (xs @ [y])" and "run_chain (store64 m y 0) (load64 m y) ys"
proof -
  have other: "load64 (store64 m y 0) q = load64 m q" if "q \<in> set (xs @ ys)" for q
  proof (rule load64_page_head_cong)
    fix x assume "in_page q x"
    then have "\<not> in_page y x" using in_page_disjoint [of q y x] assms(2,3) that by auto
    then show "store64 m y 0 x = m x" by (rule store64_page)
  qed
  show "run_chain (store64 m y 0) p (xs @ [y])" by (rule run_chain_prefix [OF assms(1)]) (use other in auto)
  have "run_chain m (load64 m y) ys" using run_chain_append [OF assms(1)] by simp
  then show "run_chain (store64 m y 0) (load64 m y) ys" using run_chain_cong [of ys "store64 m y 0" m] other by auto
qed

lemma pk_steal_cases:
  assumes C: "pk_chains kend s L" and "i + k = NCPU"
  shows "pk_steal cpu i k s = Some (0, s) \<and> (\<forall>j. i \<le> j \<and> j < NCPU \<and> j \<noteq> cpu \<longrightarrow> L j = []) \<or>
    (\<exists>j p rest. j < NCPU \<and> j \<noteq> cpu \<and> L j = p # rest \<and>
      (let y = L j ! (length rest div 2); m = store64 (pkmem s) y 0
       in pk_steal cpu i k s = Some (p, s\<lparr>pkmem := m,
            pklist := (pklist s)(j := load64 (pkmem s) y, cpu := load64 m p)\<rparr>)))"
  using assms(2)
proof (induction k arbitrary: i)
  case (Suc k)
  have i: "i < NCPU" using Suc.prems by simp
  note c = pk_chainsD [OF C i]
  have le: "i \<le> j \<longleftrightarrow> i = j \<or> Suc i \<le> j" for j by arith
  have step: "(\<forall>j. i \<le> j \<and> j < NCPU \<and> j \<noteq> cpu \<longrightarrow> L j = []) \<longleftrightarrow> (i \<noteq> cpu \<longrightarrow> L i = []) \<and> (\<forall>j. Suc i \<le> j \<and> j < NCPU \<and> j \<noteq> cpu \<longrightarrow> L j = [])"
    using i unfolding le by blast
  show ?case
  proof (cases "i = cpu \<or> L i = []")
    case True
    then have eq: "pk_steal cpu i (Suc k) s = pk_steal cpu (Suc i) k s" using run_chain_0 [OF c(1)] by auto
    have st: "(\<forall>j. i \<le> j \<and> j < NCPU \<and> j \<noteq> cpu \<longrightarrow> L j = []) \<longleftrightarrow> (\<forall>j. Suc i \<le> j \<and> j < NCPU \<and> j \<noteq> cpu \<longrightarrow> L j = [])"
      using step True by blast
    show ?thesis unfolding eq st by (rule Suc.IH) (use Suc.prems in simp)
  next
    case False
    then obtain p rest where L: "L i = p # rest" by (cases "L i") auto
    have p: "pklist s i = p" "p \<noteq> 0" "run_chain (pkmem s) (load64 (pkmem s) p) rest" using c(1) L by auto
    have "half (pkmem s) p (load64 (pkmem s) p) = Some (L i ! (length rest div 2))"
      using c(1) p L by (intro half_middle [OF p(3)]) auto
    then have "let y = L i ! (length rest div 2); m = store64 (pkmem s) y 0
       in pk_steal cpu i (Suc k) s = Some (p, s\<lparr>pkmem := m,
            pklist := (pklist s)(i := load64 (pkmem s) y, cpu := load64 m p)\<rparr>)"
      using False p by (simp add: Let_def)
    then show ?thesis using False i L by blast
  qed
qed auto

text \<open>Filling a page that is on no list with junk.\<close>

lemma pk_chains_memset:
  assumes "pk_chains kend s L" and "page_ok kend p" and "\<And>i. i < NCPU \<Longrightarrow> p \<notin> set (L i)"
  shows "pk_chains kend (s\<lparr>pkmem := memset (pkmem s) p 5 4096\<rparr>) L"
proof -
  have "run_chain (memset (pkmem s) p 5 4096) (pklist s i) (L i)" if i: "i < NCPU" for i
  proof (rule chain_outside [OF pk_chainsD(1) [OF assms(1) i], of p])
    show "\<And>q. q \<in> set (L i) \<Longrightarrow> page_aligned q \<and> q \<noteq> p"
      using pk_chainsD(3) [OF assms(1) i] assms(3) [OF i] page_okD(1) by blast
  qed (use page_okD(1) [OF assms(2)] in \<open>auto simp: memset_page\<close>)
  then show ?thesis using assms(1) by (simp add: pk_chains_def)
qed

text \<open>The lists after a steal.\<close>

lemma pk_chains_steal:
  assumes C: "pk_chains kend s L" and cpu: "cpu < NCPU" "L cpu = []" and j: "j < NCPU" "j \<noteq> cpu" "L j = p # rest"
    and h: "h = length rest div 2" and m: "m = store64 (pkmem s) (L j ! h) 0"
  shows "pk_chains kend (s\<lparr>pkmem := m, pklist := (pklist s)(j := load64 (pkmem s) (L j ! h), cpu := load64 m p)\<rparr>)
    (L(j := drop h rest, cpu := take h rest))"
proof -
  have hl: "h < length (L j)" using j(3) h by auto
  note cj = pk_chainsD [OF C j(1)]
  have al: "page_aligned q" if "q \<in> set (L j)" for q using cj(3) [OF that] page_okD by blast
  have split: "L j = take h (L j) @ L j ! h # drop (Suc h) (L j)" using hl by (simp add: id_take_nth_drop)
  have cut: "run_chain m (pklist s j) (take h (L j) @ [L j ! h])" "run_chain m (load64 (pkmem s) (L j ! h)) (drop (Suc h) (L j))"
  proof -
    have "run_chain (pkmem s) (pklist s j) (take h (L j) @ L j ! h # drop (Suc h) (L j))" "distinct (take h (L j) @ L j ! h # drop (Suc h) (L j))"
      "\<And>q. q \<in> set (take h (L j) @ L j ! h # drop (Suc h) (L j)) \<Longrightarrow> page_aligned q"
      unfolding split [symmetric] by (fact cj(1), fact cj(2), fact al)
    note a = chain_cut [OF this(1,2), unfolded m [symmetric]]
    show "run_chain m (pklist s j) (take h (L j) @ [L j ! h])" "run_chain m (load64 (pkmem s) (L j ! h)) (drop (Suc h) (L j))"
      by (rule a, use al split in metis)+
  qed
  have tk: "take h (L j) @ [L j ! h] = p # take h rest" "drop (Suc h) (L j) = drop h rest"
    using hl j(3) by (simp_all add: take_Suc_conv_app_nth [symmetric])
  have new: "run_chain m (load64 m p) (take h rest)" "run_chain m (load64 (pkmem s) (L j ! h)) (drop h rest)"
    using cut unfolding tk by auto
  have other: "run_chain m (pklist s i) (L i)" if "i < NCPU" "i \<noteq> j" for i
  proof (rule chain_outside [OF pk_chainsD(1) [OF C that(1)], of "L j ! h"])
    have "L j ! h \<notin> set (L i)" using C that j(1) hl nth_mem [OF hl] unfolding pk_chains_def by blast
    then show "\<And>q. q \<in> set (L i) \<Longrightarrow> page_aligned q \<and> q \<noteq> L j ! h"
      using pk_chainsD(3) [OF C that(1)] page_okD(1) by blast
  qed (use al hl store64_page in \<open>auto simp: m\<close>)
  let ?L = "L(j := drop h rest, cpu := take h rest)"
  have sub: "set (take h rest) \<subseteq> set (L j)" "set (drop h rest) \<subseteq> set (L j)" "set (take h rest) \<inter> set (drop h rest) = {}"
    "distinct (take h rest)" "distinct (drop h rest)"
    using cj(2) j(3) by (auto dest: in_set_takeD in_set_dropD simp: set_take_disj_set_drop_if_distinct)
  have dis: "set (L a) \<inter> set (L b) = {}" if "a < NCPU" "b < NCPU" "a \<noteq> b" for a b using C that unfolding pk_chains_def by blast
  have small: "set (?L k) \<subseteq> set (L k)" if "k \<noteq> cpu" for k using sub(2) that by simp
  have apart: "set (?L cpu) \<inter> set (?L k) = {}" if "k < NCPU" "k \<noteq> cpu" for k
    using sub(1,3) dis [OF j(1) that(1)] that j(2) by (cases "k = j") auto
  show ?thesis
    unfolding pk_chains_def
  proof (intro conjI allI impI)
    fix i assume i: "i < NCPU"
    show "run_chain (pkmem (s\<lparr>pkmem := m, pklist := (pklist s)(j := load64 (pkmem s) (L j ! h), cpu := load64 m p)\<rparr>))
        (pklist (s\<lparr>pkmem := m, pklist := (pklist s)(j := load64 (pkmem s) (L j ! h), cpu := load64 m p)\<rparr>) i) (?L i)"
      using new other [OF i] j(2) by auto
    show "distinct (?L i)" using sub pk_chainsD(2) [OF C i] by auto
    show "\<forall>q\<in>set (?L i). page_ok kend q" using sub(1,2) cj(3) pk_chainsD(3) [OF C i] by auto
    fix k assume k: "k < NCPU" "i \<noteq> k"
    show "set (?L i) \<inter> set (?L k) = {}"
      using apart [OF k(1)] apart [OF i] small [of i] small [of k] dis [OF i k] k(2) by (cases "i = cpu"; cases "k = cpu") blast+
  qed
qed

lemma pk_pages_iff: "q \<in> pk_pages L \<longleftrightarrow> (\<exists>i<NCPU. q \<in> set (L i))"
  by (auto simp: pk_pages_def)

lemma pk_pages_upd: "k < NCPU \<Longrightarrow> pk_pages (L(k := xs)) = set xs \<union> pk_pages (L(k := []))"
  unfolding pk_pages_def by (auto split: if_splits)

lemma pk_pages_in: "i < NCPU \<Longrightarrow> p \<in> set (L i) \<Longrightarrow> p \<in> pk_pages L"
  by (auto simp: pk_pages_def)

lemma pk_only: "pk_chains kend s L \<Longrightarrow> i < NCPU \<Longrightarrow> p \<in> set (L i) \<Longrightarrow> j < NCPU \<Longrightarrow> p \<in> set (L j) \<Longrightarrow> j = i"
  unfolding pk_chains_def by blast

definition pk_rep :: "u64 \<Rightarrow> pcpu \<Rightarrow> u64 set \<Rightarrow> bool" where
  "pk_rep kend s F \<longleftrightarrow> (\<exists>L. pk_chains kend s L \<and> F = pk_pages L)"

lemma pk_rep_done:
  assumes "pk_chains kend s L" and "page_ok kend p" and "pk_pages L = F - {p}"
  shows "pk_rep kend (s\<lparr>pkmem := memset (pkmem s) p 5 4096\<rparr>) (F - {p})"
proof -
  have "p \<notin> set (L i)" if "i < NCPU" for i using assms(3) that by (auto simp: pk_pages_def)
  then show ?thesis using pk_chains_memset [OF assms(1,2)] assms(3) unfolding pk_rep_def by metis
qed

lemma pk_kfree_rep:
  assumes "pk_rep kend s F" and cpu: "cpu < NCPU" and p: "page_ok kend p" "p \<notin> F"
  shows "\<exists>s'. pk_kfree kend cpu p s = Ok s' \<and> pk_rep kend s' (insert p F)"
proof -
  obtain L where C: "pk_chains kend s L" and F: "F = pk_pages L" using assms(1) by (auto simp: pk_rep_def)
  let ?m = "store64 (memset (pkmem s) p 1 4096) p (pklist s cpu)"
  let ?s = "s\<lparr>pkmem := ?m, pklist := (pklist s)(cpu := p)\<rparr>" and ?L = "L(cpu := p # L cpu)"
  have eq: "pk_kfree kend cpu p s = Ok ?s"
    using page_okD [OF p(1)] by (simp add: pk_kfree_def page_aligned_mod not_less Let_def)
  have out: "p \<notin> set (L i)" if "i < NCPU" for i using p(2) that by (auto simp: F pk_pages_iff)
  have old: "run_chain ?m (pklist s i) (L i)" if i: "i < NCPU" for i
  proof (rule chain_outside [OF pk_chainsD(1) [OF C i], of p])
    show "\<And>q. q \<in> set (L i) \<Longrightarrow> page_aligned q \<and> q \<noteq> p"
      using pk_chainsD(3) [OF C i] out [OF i] page_okD(1) by blast
  qed (use page_okD(1) [OF p(1)] in \<open>auto simp: memset_page store64_page\<close>)
  have "pk_chains kend ?s ?L"
    unfolding pk_chains_def
  proof (intro conjI allI impI)
    fix i assume i: "i < NCPU"
    show "run_chain (pkmem ?s) (pklist ?s i) (?L i)" using old [OF i] page_okD(2) [OF p(1)] by auto
    show "distinct (?L i)" using pk_chainsD(2) [OF C i] out [OF cpu] by auto
    show "\<forall>q\<in>set (?L i). page_ok kend q" using pk_chainsD(3) [OF C i] p(1) by auto
    fix k assume k: "k < NCPU" "i \<noteq> k"
    have "set (L i) \<inter> set (L k) = {}" using C i k unfolding pk_chains_def by blast
    then show "set (?L i) \<inter> set (?L k) = {}" using out [OF i] out [OF k(1)] k(2) by auto
  qed
  moreover have "pk_pages ?L = insert p F"
    using pk_pages_upd [OF cpu, of L "p # L cpu"] pk_pages_upd [OF cpu, of L "L cpu", unfolded fun_upd_triv] unfolding F by auto
  ultimately show ?thesis using eq unfolding pk_rep_def by metis
qed

text \<open>
  C31: a call of \<open>kalloc\<close> on any CPU that runs while no other CPU is inside the allocator returns, in
  particular its search for the middle of another CPU's list ends: if any list has a page it delivers a
  free page and every other free page stays on some list, and it reports that memory is used up only
  when all lists are empty. Calls that overlap are not covered.
\<close>

theorem pk_kalloc_returns:
  assumes "pk_rep kend s F" and "cpu < NCPU"
  shows "\<exists>p s'. pk_kalloc cpu s = Some (p, s') \<and>
    (if F = {} then p = 0 \<and> s' = s else p \<in> F \<and> p \<noteq> 0 \<and> pk_rep kend s' (F - {p}))"
proof -
  obtain L where C: "pk_chains kend s L" and F: "F = pk_pages L" using assms(1) by (auto simp: pk_rep_def)
  note cc = pk_chainsD [OF C assms(2)]
  show ?thesis
  proof (cases "L cpu")
    case (Cons p ps)
    let ?s = "s\<lparr>pklist := (pklist s)(cpu := load64 (pkmem s) p)\<rparr>" and ?L = "L(cpu := ps)"
    have p: "pklist s cpu = p" "p \<noteq> 0" "page_ok kend p" "distinct (p # ps)" using cc Cons by auto
    have pF: "p \<in> F" using pk_pages_in [OF assms(2), of p L] Cons F by simp
    have "pk_chains kend ?s ?L"
      using C Cons cc assms(2) unfolding pk_chains_def by (auto simp: disjoint_iff)
    moreover have "pk_pages ?L = F - {p}"
    proof -
      have "p \<notin> pk_pages (L(cpu := []))" using pk_only [OF C assms(2), of p] Cons by (auto simp: pk_pages_iff split: if_splits)
      then show ?thesis
        using pk_pages_upd [OF assms(2), of L ps] pk_pages_upd [OF assms(2), of L "L cpu", unfolded fun_upd_triv] p(4) Cons
        unfolding F by auto
    qed
    ultimately have "pk_rep kend (?s\<lparr>pkmem := memset (pkmem ?s) p 5 4096\<rparr>) (F - {p})" using p(3) by (intro pk_rep_done)
    then show ?thesis using p pF by (auto simp: pk_kalloc_def Let_def)
  next
    case Nil
    then have z: "pklist s cpu = 0" using cc(1) by simp
    have st: "0 + NCPU = NCPU" by simp
    consider "pk_steal cpu 0 NCPU s = Some (0, s)" "\<forall>j. 0 \<le> j \<and> j < NCPU \<and> j \<noteq> cpu \<longrightarrow> L j = []"
      | j p rest where "j < NCPU" "j \<noteq> cpu" "L j = p # rest"
        "let y = L j ! (length rest div 2); m = store64 (pkmem s) y 0
         in pk_steal cpu 0 NCPU s = Some (p, s\<lparr>pkmem := m, pklist := (pklist s)(j := load64 (pkmem s) y, cpu := load64 m p)\<rparr>)"
      using pk_steal_cases [OF C st, of cpu] by blast
    then show ?thesis
    proof cases
      case 1
      then have "F = {}" using Nil F unfolding pk_pages_def by auto
      then show ?thesis using 1 z by (simp add: pk_kalloc_def)
    next
      case (2 j p rest)
      let ?h = "length rest div 2"
      let ?m = "store64 (pkmem s) (L j ! ?h) 0"
      let ?s = "s\<lparr>pkmem := ?m, pklist := (pklist s)(j := load64 (pkmem s) (L j ! ?h), cpu := load64 ?m p)\<rparr>"
      let ?L = "L(j := drop ?h rest, cpu := take ?h rest)"
      have eq: "pk_steal cpu 0 NCPU s = Some (p, ?s)" using 2(4) by (simp add: Let_def)
      have C': "pk_chains kend ?s ?L" by (rule pk_chains_steal [OF C assms(2) Nil 2(1-3) HOL.refl HOL.refl])
      have p: "p \<noteq> 0" "page_ok kend p" "p \<notin> set rest"
        using pk_chainsD [OF C 2(1)] 2(3) by auto
      have pF: "p \<in> F" using pk_pages_in [OF 2(1), of p L] 2(3) F by simp
      have "pk_pages ?L = F - {p}"
      proof -
        let ?U = "pk_pages (L(j := [], cpu := []))"
        have "p \<notin> ?U" using pk_only [OF C 2(1), of p] 2(3) by (auto simp: pk_pages_iff split: if_splits)
        moreover have "F = insert p (set rest) \<union> ?U"
          using pk_pages_upd [OF 2(1), of L "L j"] 2(3) Nil unfolding F by (simp add: fun_upd_twist [OF 2(2)] fun_upd_idem)
        moreover have "pk_pages ?L = set (take ?h rest) \<union> set (drop ?h rest) \<union> ?U"
          using pk_pages_upd [OF assms(2), of "L(j := drop ?h rest)" "take ?h rest"]
            pk_pages_upd [OF 2(1), of "L(cpu := [])" "drop ?h rest"] by (simp add: fun_upd_twist [OF 2(2)] Un_assoc)
        moreover have "set (take ?h rest) \<union> set (drop ?h rest) = set rest" by (metis append_take_drop_id set_append)
        ultimately show ?thesis using p(3) by auto
      qed
      then have "pk_rep kend (?s\<lparr>pkmem := memset (pkmem ?s) p 5 4096\<rparr>) (F - {p})" using p(2) C' by (intro pk_rep_done)
      then show ?thesis using p(1) pF z eq by (auto simp: pk_kalloc_def)
    qed
  qed
qed

theorem pk_kalloc_returns_witness:
  "\<exists>p s'. pk_kalloc 3 \<lparr>pkmem = (\<lambda>_. 0), pklist = (\<lambda>_. 0)(5 := 0x87fff000)\<rparr> = Some (p, s') \<and>
     p = 0x87fff000 \<and> pk_rep 0x80020000 s' {}"
proof -
  let ?p = "0x87fff000 :: u64" and ?k = "0x80020000 :: u64"
  let ?s = "\<lparr>pkmem = (\<lambda>_. 0), pklist = (\<lambda>_. 0)(5 := ?p)\<rparr>" and ?L = "(\<lambda>_. [])(5 := [?p])"
  have z: "load64 (\<lambda>_. 0) ?p = 0" by (simp add: load64_def eval_nat_numeral)
  have ok: "page_ok ?k ?p" by (simp add: page_ok_def page_aligned_def PHYSTOP_eq KERNBASE_def)
  have "pk_chains ?k ?s ?L" using z ok by (auto simp: pk_chains_def)
  moreover have "pk_pages ?L = {?p}" by (auto simp: pk_pages_iff NCPU_def)
  ultimately have "pk_rep ?k ?s {?p}" unfolding pk_rep_def by metis
  from pk_kalloc_returns [OF this, of 3] show ?thesis by (auto simp: NCPU_def)
qed

end
