(* ===== verification/Alarm.thy ===== *)
theory Alarm
  imports Kstate
begin

text \<open>
  Alarms, \<^verbatim>\<open>traps/trap.c\<close>, \<^verbatim>\<open>traps/sysproc.c\<close>, \<^verbatim>\<open>traps/proc.c\<close>: after a number of clock ticks the kernel
  diverts a process to its handler and keeps the interrupted registers; \<open>sigreturn\<close> puts them back.
  The state is the part of \<^verbatim>\<open>struct proc\<close> the alarm uses, with the two trap frames it points to.
\<close>

record alarm_proc =
  al_interval :: u64
  al_handler :: u64
  al_ticks :: u64
  al_save :: trapframe
  is_handler :: bool
  al_tf :: trapframe

text \<open>\<^verbatim>\<open>allocproc\<close> clears the interval, the handler and the ticks; the rest is as the slot had it.\<close>

definition alloc_alarm :: "alarm_proc \<Rightarrow> alarm_proc" where
  "alloc_alarm p = p\<lparr>al_ticks := 0, al_interval := 0, al_handler := 0\<rparr>"

text \<open>The part of \<^verbatim>\<open>usertrap\<close> for a clock interrupt, before \<^verbatim>\<open>yield\<close>.\<close>

definition alarm_tick :: "alarm_proc \<Rightarrow> alarm_proc" where
  "alarm_tick p =
     (if al_interval p \<noteq> 0 \<and> \<not> is_handler p then
        if al_ticks p = al_interval p then
          p\<lparr>is_handler := True, al_save := al_tf p, al_ticks := 0, al_tf := (al_tf p)\<lparr>tf_epc := al_handler p\<rparr>\<rparr>
        else p\<lparr>al_ticks := al_ticks p + 1\<rparr>
      else p)"

definition sys_sigalarm :: "int \<Rightarrow> u64 \<Rightarrow> alarm_proc \<Rightarrow> int \<times> alarm_proc" where
  "sys_sigalarm interval handler p = (0, p\<lparr>al_interval := of_int interval, al_handler := handler, is_handler := False\<rparr>)"

definition sys_sigreturn :: "alarm_proc \<Rightarrow> int \<times> alarm_proc" where
  "sys_sigreturn p = (0, p\<lparr>al_tf := al_save p, is_handler := False\<rparr>)"

text \<open>\<^verbatim>\<open>syscall\<close> stores the value a system call returns in the register \<open>a0\<close> of the trap frame.\<close>

definition dispatch :: "(alarm_proc \<Rightarrow> int \<times> alarm_proc) \<Rightarrow> alarm_proc \<Rightarrow> alarm_proc" where
  "dispatch call p = (let (v, p') = call p in p'\<lparr>al_tf := (al_tf p')\<lparr>tf_a0 := of_int v\<rparr>\<rparr>)"

text \<open>A clock interrupt that finds the process with the registers \<open>tf\<close>, and a sequence of them.\<close>

definition clock :: "trapframe \<Rightarrow> alarm_proc \<Rightarrow> alarm_proc" where
  "clock tf p = alarm_tick (p\<lparr>al_tf := tf\<rparr>)"

definition clocks :: "trapframe list \<Rightarrow> alarm_proc \<Rightarrow> alarm_proc" where
  "clocks tfs p = fold clock tfs p"

lemma clocks_count:
  assumes "al_interval p \<noteq> 0" and "\<not> is_handler p" and "unat (al_ticks p) + length tfs \<le> unat (al_interval p)"
  shows "clocks tfs p = p\<lparr>al_ticks := al_ticks p + of_nat (length tfs), al_tf := last (al_tf p # tfs)\<rparr>"
  using assms
proof (induction tfs arbitrary: p)
  case (Cons tf tfs)
  have ne: "al_ticks p \<noteq> al_interval p" using Cons.prems(3) by auto
  let ?p = "p\<lparr>al_ticks := al_ticks p + 1, al_tf := tf\<rparr>"
  have 1: "clock tf p = ?p" using Cons.prems ne by (simp add: clock_def alarm_tick_def)
  have "unat (al_ticks p + 1) = unat (al_ticks p) + 1"
    using Cons.prems(3) unat_less_power [of "al_interval p"] unat_plus_no_wrap [of "al_ticks p" 1] by simp
  then have "clocks tfs ?p = ?p\<lparr>al_ticks := al_ticks ?p + of_nat (length tfs), al_tf := last (al_tf ?p # tfs)\<rparr>"
    using Cons.prems by (intro Cons.IH) auto
  then show ?case using 1 by (simp add: clocks_def algebra_simps)
qed (simp add: clocks_def)

lemma clocks_in_handler: "is_handler p \<Longrightarrow> clocks tfs p = p\<lparr>al_tf := last (al_tf p # tfs)\<rparr>"
  by (induction tfs arbitrary: p) (simp_all add: clocks_def clock_def alarm_tick_def)

text \<open>
  C37: with \<open>n\<close> ticks to go the next \<open>n\<close> clock interrupts leave the process alone, and the one after
  them, not the last of the \<open>n\<close>, enters the handler with the interrupted registers saved. No interrupt enters the handler
  again before \<open>sigreturn\<close>, whose return through \<open>syscall\<close> restores every register but \<open>a0\<close>, which
  becomes 0.
\<close>

theorem alarm_cycle:
  assumes "al_interval p \<noteq> 0" and "\<not> is_handler p" and "unat (al_ticks p) + length tfs = unat (al_interval p)"
  shows "\<not> is_handler (clocks tfs p) \<and> al_tf (clocks tfs p) = last (al_tf p # tfs) \<and>
    (let h = clock tf (clocks tfs p) in
       is_handler h \<and> al_tf h = tf\<lparr>tf_epc := al_handler p\<rparr> \<and> is_handler (clocks tfs' h) \<and>
       al_tf (clocks tfs' h) = last (al_tf h # tfs') \<and>
       dispatch sys_sigreturn (clocks tfs' h) = p\<lparr>al_ticks := 0, al_save := tf, al_tf := tf\<lparr>tf_a0 := 0\<rparr>\<rparr>)"
proof -
  have c: "clocks tfs p = p\<lparr>al_ticks := al_interval p, al_tf := last (al_tf p # tfs)\<rparr>"
  proof -
    have "of_nat (unat (al_ticks p) + length tfs) = (of_nat (unat (al_interval p)) :: u64)" using assms(3) by simp
    then have "al_ticks p + of_nat (length tfs) = al_interval p" by simp
    then show ?thesis using clocks_count [OF assms(1,2), of tfs] assms(3) by simp
  qed
  let ?h = "clock tf (clocks tfs p)"
  have h: "?h = p\<lparr>is_handler := True, al_save := tf, al_ticks := 0, al_tf := tf\<lparr>tf_epc := al_handler p\<rparr>\<rparr>"
    using assms(1,2) unfolding c by (simp add: clock_def alarm_tick_def)
  have "clocks tfs' ?h = ?h\<lparr>al_tf := last (al_tf ?h # tfs')\<rparr>" by (rule clocks_in_handler) (simp add: h)
  then show ?thesis using c h assms(2) by (simp add: dispatch_def sys_sigreturn_def)
qed

theorem alarm_cycle_witness:
  "let p = snd (sys_sigalarm 2 0x40 (alloc_alarm \<lparr>al_interval = 7, al_handler = 0, al_ticks = 5, al_save = empty_trapframe,
        is_handler = True, al_tf = empty_trapframe\<rparr>));
       tf = empty_trapframe\<lparr>tf_epc := 0x1000, tf_a0 := 5\<rparr>
   in is_handler (clock tf (clocks [tf, tf] p)) \<and> \<not> is_handler (clocks [tf, tf] p) \<and>
      al_tf (dispatch sys_sigreturn (clock tf (clocks [tf, tf] p))) = tf\<lparr>tf_a0 := 0\<rparr>"
proof -
  let ?p = "snd (sys_sigalarm 2 0x40 (alloc_alarm \<lparr>al_interval = 7, al_handler = 0, al_ticks = 5, al_save = empty_trapframe,
        is_handler = True, al_tf = empty_trapframe\<rparr>))"
  let ?tf = "empty_trapframe\<lparr>tf_epc := 0x1000, tf_a0 := 5\<rparr>"
  have "al_interval ?p \<noteq> 0" "\<not> is_handler ?p" "unat (al_ticks ?p) + length [?tf, ?tf] = unat (al_interval ?p)"
    by (simp_all add: sys_sigalarm_def alloc_alarm_def)
  from alarm_cycle [OF this, of ?tf "[]"] show ?thesis by (simp add: Let_def clocks_def [of "[]"])
qed

lemma clocks_overdue:
  assumes "al_interval p \<noteq> 0" and "\<not> is_handler p" and "al_interval p < al_ticks p"
    and "unat (al_ticks p) + length tfs < 2 ^ 64"
  shows "\<not> is_handler (clocks tfs p)"
  using assms
proof (induction tfs arbitrary: p)
  case (Cons tf tfs)
  have u: "unat (al_ticks p + 1) = unat (al_ticks p) + 1"
    using Cons.prems(4) unat_plus_no_wrap [of "al_ticks p" 1] by simp
  have "clock tf p = p\<lparr>al_ticks := al_ticks p + 1, al_tf := tf\<rparr>"
    using Cons.prems by (auto simp: clock_def alarm_tick_def)
  moreover have "\<not> is_handler (clocks tfs (p\<lparr>al_ticks := al_ticks p + 1, al_tf := tf\<rparr>))"
    using Cons.prems u by (intro Cons.IH) (auto simp: word_less_nat_alt)
  ultimately show ?case by (simp add: clocks_def)
qed (simp add: clocks_def)

text \<open>
  C38: \<open>sys_sigalarm\<close> keeps the ticks counted so far: after a call with an interval that is already
  exceeded by them the handler is not entered before the 64-bit counter has wrapped around.
\<close>

theorem sigalarm_overdue:
  assumes "0 < interval" and "interval < 2 ^ 31" and "interval < int (unat (al_ticks p))"
    and "unat (al_ticks p) + length tfs < 2 ^ 64"
  shows "\<not> is_handler (clocks tfs (snd (sys_sigalarm interval handler p)))"
proof -
  have u: "unat (of_int interval :: u64) = nat interval"
    using assms(1,2) by (simp add: unat_eq_nat_uint unsigned_of_int take_bit_int_eq_self)
  have "(of_int interval :: u64) \<noteq> 0"
  proof
    assume "(of_int interval :: u64) = 0"
    then have "nat interval = 0" using u by simp
    then show False using assms(1) by simp
  qed
  moreover have "nat interval < unat (al_ticks p)" using assms(1,3) by linarith
  then have "of_int interval < al_ticks p" unfolding word_less_nat_alt u .
  ultimately show ?thesis using assms(4) by (intro clocks_overdue) (simp_all add: sys_sigalarm_def)
qed

theorem sigalarm_overdue_witness:
  "let p = \<lparr>al_interval = 9, al_handler = 0, al_ticks = 5, al_save = empty_trapframe,
        is_handler = False, al_tf = empty_trapframe\<rparr>
   in \<not> is_handler (clocks (replicate 1000000 empty_trapframe) (snd (sys_sigalarm 2 0x40 p)))"
  unfolding Let_def by (rule sigalarm_overdue) simp_all

end
