(* ===== verification/Uthread.thy ===== *)
theory Uthread
  imports Prelude
begin

text \<open>
  User-level threads, \<^verbatim>\<open>thread/uthread.c\<close>. \<^verbatim>\<open>thread_switch\<close>, which is assembly, saves the callee-saved
  registers of the caller and loads those of the next thread; \<open>regs\<close> are the registers of the thread
  that runs. A pointer into \<open>all_thread\<close> is an index.
\<close>

datatype tstate = FREE | RUNNING | RUNNABLE

definition MAX_THREAD :: nat where "MAX_THREAD = 4"
definition STACK_SIZE :: u64 where "STACK_SIZE = 8192"

text \<open>The registers of \<^verbatim>\<open>struct context\<close>: return address, stack pointer and the twelve saved ones.\<close>

record ucontext =
  cx_ra :: u64
  cx_sp :: u64
  cx_s :: "nat \<Rightarrow> u64"

record uthreads =
  tstate_of :: "nat \<Rightarrow> tstate"
  contx :: "nat \<Rightarrow> ucontext"
  current_thread :: nat
  regs :: ucontext

definition set_state :: "nat \<Rightarrow> tstate \<Rightarrow> uthreads \<Rightarrow> uthreads" where
  "set_state t v s = s\<lparr>tstate_of := (tstate_of s)(t := v)\<rparr>"

definition thread_switch :: "nat \<Rightarrow> nat \<Rightarrow> uthreads \<Rightarrow> uthreads" where
  "thread_switch old new s = s\<lparr>contx := (contx s)(old := regs s), regs := contx s new\<rparr>"

definition thread_init :: "uthreads \<Rightarrow> uthreads" where
  "thread_init s = set_state 0 RUNNING (s\<lparr>current_thread := 0\<rparr>)"

text \<open>The search of \<open>thread_schedule\<close>: \<open>k\<close> more threads, from the index \<open>t\<close> on.\<close>

fun find_runnable :: "(nat \<Rightarrow> tstate) \<Rightarrow> nat \<Rightarrow> nat \<Rightarrow> nat option" where
  "find_runnable st t 0 = None"
| "find_runnable st t (Suc k) =
     (let t1 = (if t \<ge> MAX_THREAD then 0 else t) in
      if st t1 = RUNNABLE then Some t1 else find_runnable st (t1 + 1) k)"

text \<open>\<open>None\<close> is the call of \<^verbatim>\<open>exit\<close> without a runnable thread.\<close>

definition thread_schedule :: "uthreads \<Rightarrow> uthreads option" where
  "thread_schedule s =
     (case find_runnable (tstate_of s) (current_thread s + 1) MAX_THREAD of
        None \<Rightarrow> None
      | Some next_thread \<Rightarrow>
          if current_thread s \<noteq> next_thread then
            let s1 = set_state next_thread RUNNING s;
                t = current_thread s1;
                s2 = s1\<lparr>current_thread := next_thread\<rparr>
            in Some (thread_switch t next_thread s2)
          else Some s)"

text \<open>
  \<open>thread_create\<close> with the address of the thread's stack; without a free entry the code writes behind
  the array, which is the outcome \<open>None\<close>.
\<close>

definition thread_create :: "(nat \<Rightarrow> u64) \<Rightarrow> u64 \<Rightarrow> uthreads \<Rightarrow> uthreads option" where
  "thread_create stack func s =
     (case first_from (\<lambda>t. tstate_of s t = FREE) 0 MAX_THREAD of
        None \<Rightarrow> None
      | Some t \<Rightarrow>
          let s1 = set_state t RUNNABLE s in
          Some (s1\<lparr>contx := (contx s1)(t := (contx s1 t)\<lparr>cx_ra := func, cx_sp := stack t + (STACK_SIZE - 1)\<rparr>)\<rparr>))"

definition thread_yield :: "uthreads \<Rightarrow> uthreads option" where
  "thread_yield s = thread_schedule (set_state (current_thread s) RUNNABLE s)"

section \<open>Round robin\<close>

text \<open>How many entries \<open>j\<close> is ahead of \<open>c\<close>, counting round the array.\<close>

definition ahead :: "nat \<Rightarrow> nat \<Rightarrow> nat" where
  "ahead c j = (j + MAX_THREAD - c) mod MAX_THREAD"

lemma find_runnable_cases:
  assumes "t \<le> MAX_THREAD"
  shows "case find_runnable st t k of
      None \<Rightarrow> \<forall>d<k. st ((t + d) mod MAX_THREAD) \<noteq> RUNNABLE
    | Some j \<Rightarrow> \<exists>d<k. j = (t + d) mod MAX_THREAD \<and> st j = RUNNABLE \<and> (\<forall>e<d. st ((t + e) mod MAX_THREAD) \<noteq> RUNNABLE)"
  using assms
proof (induction k arbitrary: t)
  case (Suc k)
  let ?t = "t mod MAX_THREAD"
  have t1: "(if t \<ge> MAX_THREAD then 0 else t) = ?t" using Suc.prems by (auto simp: MAX_THREAD_def)
  have "?t < MAX_THREAD" by (simp add: MAX_THREAD_def)
  then have le: "Suc ?t \<le> MAX_THREAD" by simp
  have sh: "(Suc ?t + d) mod MAX_THREAD = (t + Suc d) mod MAX_THREAD" for d by (metis add_Suc_shift mod_add_left_eq)
  show ?case
  proof (cases "st ?t = RUNNABLE")
    case True
    then show ?thesis using t1 by (auto simp: Let_def)
  next
    case False
    then have eq: "find_runnable st t (Suc k) = find_runnable st (Suc ?t) k" using t1 by (simp add: Let_def)
    have all: "(\<forall>e<Suc d. st ((t + e) mod MAX_THREAD) \<noteq> RUNNABLE) \<longleftrightarrow> (\<forall>e<d. st ((t + Suc e) mod MAX_THREAD) \<noteq> RUNNABLE)" for d
      using False by (auto simp: less_Suc_eq_0_disj)
    show ?thesis
    proof (cases "find_runnable st (Suc ?t) k")
      case None
      then show ?thesis using Suc.IH [OF le] unfolding eq by (simp only: option.case sh all)
    next
      case (Some j)
      then obtain d where d: "d < k" "j = (t + Suc d) mod MAX_THREAD" "st j = RUNNABLE"
        "\<forall>e<d. st ((t + Suc e) mod MAX_THREAD) \<noteq> RUNNABLE"
        using Suc.IH [OF le] by (auto simp only: option.case sh)
      then show ?thesis using Some all [of d] unfolding eq by (simp only: option.case) (intro exI [of _ "Suc d"], auto)
    qed
  qed
qed simp

lemma ahead_range:
  assumes "c < MAX_THREAD" and "j < MAX_THREAD"
  shows "(c + ahead c j) mod MAX_THREAD = j" and "j \<noteq> c \<Longrightarrow> 0 < ahead c j" and "ahead c j < MAX_THREAD"
proof -
  have "c = 0 \<or> c = 1 \<or> c = 2 \<or> c = 3" "j = 0 \<or> j = 1 \<or> j = 2 \<or> j = 3" using assms by (auto simp: MAX_THREAD_def)
  then show "(c + ahead c j) mod MAX_THREAD = j" "j \<noteq> c \<Longrightarrow> 0 < ahead c j" "ahead c j < MAX_THREAD"
    by (auto simp: ahead_def MAX_THREAD_def)
qed

lemma ahead_step:
  assumes "c < MAX_THREAD" and "0 < d" and "d \<le> ahead c j" and "j < MAX_THREAD"
  shows "ahead ((c + d) mod MAX_THREAD) j = ahead c j - d"
proof -
  have "c = 0 \<or> c = 1 \<or> c = 2 \<or> c = 3" "j = 0 \<or> j = 1 \<or> j = 2 \<or> j = 3" "d = 1 \<or> d = 2 \<or> d = 3"
    using assms ahead_range(3) [OF assms(1,4)] by (auto simp: MAX_THREAD_def)
  then show ?thesis using assms(3) by (auto simp: ahead_def MAX_THREAD_def)
qed

fun yields :: "nat \<Rightarrow> uthreads \<Rightarrow> uthreads option" where
  "yields 0 s = Some s"
| "yields (Suc n) s = (case thread_yield s of None \<Rightarrow> None | Some s' \<Rightarrow> yields n s')"

text \<open>One yield while thread \<open>j\<close> could run: it runs, or one between the current thread and \<open>j\<close> does.\<close>

lemma thread_yield_step:
  assumes c: "current_thread s < MAX_THREAD" and j: "j < MAX_THREAD" "j \<noteq> current_thread s" "tstate_of s j = RUNNABLE"
  shows "\<exists>d s'. 0 < d \<and> d \<le> ahead (current_thread s) j \<and> thread_yield s = Some s' \<and>
    current_thread s' = (current_thread s + d) mod MAX_THREAD \<and> regs s' = contx s (current_thread s') \<and>
    (j \<noteq> current_thread s' \<longrightarrow> tstate_of s' j = RUNNABLE \<and> contx s' j = contx s j)"
proof -
  let ?c = "current_thread s" and ?a = "ahead (current_thread s) j"
  let ?st = "(tstate_of s)(current_thread s := RUNNABLE)"
  note a = ahead_range [OF c j(1)]
  have "Suc ?c \<le> MAX_THREAD" using c by simp
  note fr = find_runnable_cases [OF this, where st = ?st and k = MAX_THREAD]
  have at: "?st ((Suc ?c + (?a - 1)) mod MAX_THREAD) = RUNNABLE" "?a - 1 < MAX_THREAD"
    using a j by simp_all
  then obtain n where n: "find_runnable ?st (Suc ?c) MAX_THREAD = Some n"
    using fr by (cases "find_runnable ?st (Suc ?c) MAX_THREAD") auto
  then obtain e where e: "n = (Suc ?c + e) mod MAX_THREAD" "\<forall>x<e. ?st ((Suc ?c + x) mod MAX_THREAD) \<noteq> RUNNABLE"
    using fr by auto
  have le: "Suc e \<le> ?a"
  proof (rule ccontr)
    assume "\<not> Suc e \<le> ?a"
    then have "?a - 1 < e" using a(2) [OF j(2)] by simp
    then show False using e(2) at(1) by blast
  qed
  have ne: "n \<noteq> ?c"
  proof
    assume "n = ?c"
    then have "ahead ?c j = ahead ?c j - Suc e" using ahead_step [OF c, of "Suc e" j] le j(1) e(1) by simp
    then show False using le by simp
  qed
  let ?s = "thread_switch ?c n ((set_state n RUNNING (set_state ?c RUNNABLE s))\<lparr>current_thread := n\<rparr>)"
  have "thread_yield s = Some ?s"
    using n ne by (simp add: thread_yield_def thread_schedule_def set_state_def Let_def)
  moreover have "current_thread ?s = n" "regs ?s = contx s n" "j \<noteq> n \<longrightarrow> tstate_of ?s j = RUNNABLE \<and> contx ?s j = contx s j"
    using j by (auto simp: thread_switch_def set_state_def)
  ultimately show ?thesis using le e(1) by (intro exI [of _ "Suc e"] exI [of _ ?s]) simp
qed

text \<open>
  C34: a thread that can run gets its turn: when the running threads do nothing but yield, every
  runnable thread \<open>j\<close> is switched to after at most as many yields as its entry is ahead of the current
  one, so after at most three, and it continues with the registers saved when it lost the CPU.
\<close>

theorem yield_round_robin:
  assumes "current_thread s < MAX_THREAD" and "j < MAX_THREAD" and "j \<noteq> current_thread s" and "tstate_of s j = RUNNABLE"
  shows "\<exists>n s'. 0 < n \<and> n \<le> ahead (current_thread s) j \<and> n < MAX_THREAD \<and> yields n s = Some s' \<and>
    current_thread s' = j \<and> regs s' = contx s j"
  using assms
proof (induction "ahead (current_thread s) j" arbitrary: s rule: less_induct)
  case less
  let ?a = "ahead (current_thread s) j"
  obtain d s1 where 1: "0 < d" "d \<le> ?a" "thread_yield s = Some s1" "current_thread s1 = (current_thread s + d) mod MAX_THREAD"
    "regs s1 = contx s (current_thread s1)" "j \<noteq> current_thread s1 \<longrightarrow> tstate_of s1 j = RUNNABLE \<and> contx s1 j = contx s j"
    using thread_yield_step [OF less.prems(1,2,3,4)] by blast
  have a4: "?a < MAX_THREAD" using ahead_range(3) [OF less.prems(1,2)] .
  show ?case
  proof (cases "j = current_thread s1")
    case True
    then show ?thesis using 1 a4 by (intro exI [of _ 1] exI [of _ s1]) simp
  next
    case False
    have a1: "ahead (current_thread s1) j = ?a - d" using ahead_step [OF less.prems(1) 1(1,2) less.prems(2)] 1(4) by simp
    have c1: "current_thread s1 < MAX_THREAD" using 1(4) by (simp add: MAX_THREAD_def)
    obtain n s' where "0 < n" "n \<le> ?a - d" "yields n s1 = Some s'" "current_thread s' = j" "regs s' = contx s1 j"
      using less.hyps [of s1] a1 1(1,2,6) c1 less.prems(2) False by auto
    then show ?thesis using 1 a4 False by (intro exI [of _ "Suc n"] exI [of _ s']) auto
  qed
qed

theorem yield_round_robin_witness:
  "let s = \<lparr>tstate_of = (\<lambda>_. RUNNABLE)(1 := RUNNING), contx = (\<lambda>t. \<lparr>cx_ra = of_nat t, cx_sp = 0, cx_s = (\<lambda>_. 0)\<rparr>),
        current_thread = 1, regs = \<lparr>cx_ra = 9, cx_sp = 0, cx_s = (\<lambda>_. 0)\<rparr>\<rparr>
   in \<exists>n s'. n < MAX_THREAD \<and> yields n s = Some s' \<and> current_thread s' = 0 \<and> regs s' = contx s 0"
  unfolding Let_def
  using yield_round_robin [of "\<lparr>tstate_of = (\<lambda>_. RUNNABLE)(1 := RUNNING), contx = (\<lambda>t. \<lparr>cx_ra = of_nat t, cx_sp = 0, cx_s = (\<lambda>_. 0)\<rparr>),
        current_thread = 1, regs = \<lparr>cx_ra = 9, cx_sp = 0, cx_s = (\<lambda>_. 0)\<rparr>\<rparr>" 0]
  by (fastforce simp: MAX_THREAD_def)

end
