(* ===== verification/Barrier.thy ===== *)
theory Barrier
  imports Prelude
begin

text \<open>
  The barrier of \<^verbatim>\<open>thread/notxv6/barrier.c\<close> as a machine of \<open>N\<close> threads that interleave at every access to
  the mutex, the condition variable and the round. Each thread runs the loop of \<open>thread\<close>: it checks
  that the round is its iteration and calls \<open>barrier\<close>. \<^verbatim>\<open>pthread_cond_wait\<close> releases the mutex and waits in
  one step, and takes the mutex again before it returns; POSIX allows it to return without a
  broadcast, which is the flag \<open>spur\<close> of the machine.
\<close>

datatype bloc = Check | Lock | Count | Wait | Woken | Unlock | Failed

record barrier_state =
  mutex :: "nat option"
  nthread_in :: nat
  bround :: nat
  iter :: "nat \<Rightarrow> nat"
  loc :: "nat \<Rightarrow> bloc"

definition ROUNDS :: nat where "ROUNDS = 20000"

definition barrier_init :: barrier_state where
  "barrier_init = \<lparr>mutex = None, nthread_in = 0, bround = 0, iter = (\<lambda>_. 0), loc = (\<lambda>_. Check)\<rparr>"

definition goto :: "nat \<Rightarrow> bloc \<Rightarrow> barrier_state \<Rightarrow> barrier_state" where
  "goto i l s = s\<lparr>loc := (loc s)(i := l)\<rparr>"

text \<open>\<^verbatim>\<open>pthread_cond_broadcast\<close>: every waiting thread goes for the mutex.\<close>

definition broadcast :: "barrier_state \<Rightarrow> barrier_state" where
  "broadcast s = s\<lparr>loc := (\<lambda>j. if loc s j = Wait then Woken else loc s j)\<rparr>"

text \<open>\<open>barrier\<close>, from the lock of the mutex to its release.\<close>

definition barrier :: "nat \<Rightarrow> nat \<Rightarrow> barrier_state \<Rightarrow> barrier_state option" where
  "barrier N i s =
     (case loc s i of
        Lock \<Rightarrow> if mutex s = None then Some (goto i Count (s\<lparr>mutex := Some i\<rparr>)) else None
      | Count \<Rightarrow>
          if nthread_in s + 1 < N
          then Some (goto i Wait (s\<lparr>mutex := None, nthread_in := nthread_in s + 1\<rparr>))
          else Some (goto i Unlock (broadcast (s\<lparr>nthread_in := 0, bround := bround s + 1\<rparr>)))
      | Woken \<Rightarrow> if mutex s = None then Some (goto i Unlock (s\<lparr>mutex := Some i\<rparr>)) else None
      | Unlock \<Rightarrow> Some (goto i Check (s\<lparr>mutex := None, iter := (iter s)(i := iter s i + 1)\<rparr>))
      | _ \<Rightarrow> None)"

definition thread :: "nat \<Rightarrow> nat \<Rightarrow> barrier_state \<Rightarrow> barrier_state option" where
  "thread N i s =
     (if loc s i = Check then
        if iter s i < ROUNDS then Some (goto i (if iter s i = bround s then Lock else Failed) s) else None
      else barrier N i s)"

inductive barrier_reach :: "bool \<Rightarrow> nat \<Rightarrow> barrier_state \<Rightarrow> bool" for spur N where
  br_init: "barrier_reach spur N barrier_init"
| br_step: "barrier_reach spur N s \<Longrightarrow> i < N \<Longrightarrow> thread N i s = Some s' \<Longrightarrow> barrier_reach spur N s'"
| br_spurious: "barrier_reach spur N s \<Longrightarrow> spur \<Longrightarrow> i < N \<Longrightarrow> loc s i = Wait \<Longrightarrow> barrier_reach spur N (goto i Woken s)"

section \<open>The invariant\<close>

definition waiting :: "nat \<Rightarrow> barrier_state \<Rightarrow> nat set" where
  "waiting N s = {j. j < N \<and> loc s j = Wait}"

definition thread_ok :: "barrier_state \<Rightarrow> nat \<Rightarrow> bool" where
  "thread_ok s j \<longleftrightarrow>
     (case loc s j of
        Check \<Rightarrow> iter s j = bround s \<and> bround s \<le> ROUNDS
      | Lock \<Rightarrow> iter s j = bround s \<and> bround s < ROUNDS
      | Count \<Rightarrow> iter s j = bround s \<and> bround s < ROUNDS
      | Wait \<Rightarrow> iter s j = bround s \<and> bround s < ROUNDS
      | Woken \<Rightarrow> Suc (iter s j) = bround s \<and> bround s \<le> ROUNDS
      | Unlock \<Rightarrow> Suc (iter s j) = bround s \<and> bround s \<le> ROUNDS
      | Failed \<Rightarrow> False)"

definition barrier_inv :: "nat \<Rightarrow> barrier_state \<Rightarrow> bool" where
  "barrier_inv N s \<longleftrightarrow> nthread_in s = card (waiting N s) \<and> nthread_in s < N \<and> (\<forall>j<N. thread_ok s j) \<and>
     (\<forall>j<N. (loc s j = Count \<or> loc s j = Unlock) = (mutex s = Some j)) \<and> (\<forall>j. mutex s = Some j \<longrightarrow> j < N)"

lemma waiting_goto:
  "i < N \<Longrightarrow> waiting N (goto i l s) = (if l = Wait then insert i (waiting N s) else waiting N s - {i})"
  by (auto simp: waiting_def goto_def)

lemma finite_waiting [simp]: "finite (waiting N s)"
  by (simp add: waiting_def)

text \<open>When the last thread is counted all others wait.\<close>

lemma all_waiting:
  assumes "barrier_inv N s" and "i < N" and "loc s i = Count" and "\<not> nthread_in s + 1 < N" and "j < N" "j \<noteq> i"
  shows "loc s j = Wait"
proof -
  have "waiting N s \<subseteq> {..<N} - {i}" using assms(3) by (auto simp: waiting_def)
  moreover have "card ({..<N} - {i}) = N - 1" using assms(2) by simp
  moreover have "card (waiting N s) = N - 1" using assms(1,4) by (auto simp: barrier_inv_def)
  ultimately have "waiting N s = {..<N} - {i}" by (intro card_subset_eq) auto
  then show ?thesis using assms(5,6) by (auto simp: waiting_def)
qed

lemma barrier_inv_last:
  assumes I: "barrier_inv N s" and i: "i < N" "loc s i = Count" and last: "\<not> nthread_in s + 1 < N"
  shows "barrier_inv N (goto i Unlock (broadcast (s\<lparr>nthread_in := 0, bround := bround s + 1\<rparr>)))"
proof -
  let ?s = "goto i Unlock (broadcast (s\<lparr>nthread_in := 0, bround := bround s + 1\<rparr>))"
  have w: "loc s j = Wait" if "j < N" "j \<noteq> i" for j using all_waiting [OF I i last that] .
  then have l: "loc ?s j = (if j = i then Unlock else Woken)" if "j < N" for j
    using that by (simp add: goto_def broadcast_def)
  have m: "mutex s = Some i" using I i by (auto simp: barrier_inv_def)
  have t: "thread_ok s j" if "j < N" for j using I that by (simp add: barrier_inv_def)
  have "waiting N ?s = {}" using l by (auto simp: waiting_def)
  moreover have "thread_ok ?s j" if "j < N" for j
    using t [OF that] w [OF that] i l [OF that] by (cases "j = i") (auto simp: thread_ok_def goto_def broadcast_def)
  ultimately show ?thesis
    using I i m l by (auto simp: barrier_inv_def) (auto simp: goto_def broadcast_def)
qed

text \<open>A step of one thread that leaves the round alone.\<close>

lemma barrier_inv_local:
  assumes I: "barrier_inv N s" and i: "i < N" and s': "s' = goto i l (s\<lparr>mutex := m, iter := it, nthread_in := k\<rparr>)"
    and it: "\<And>j. j \<noteq> i \<Longrightarrow> it j = iter s j" and ok: "thread_ok s' i"
    and mx: "(l = Count \<or> l = Unlock) = (m = Some i)" "m = Some i \<and> (mutex s = None \<or> mutex s = Some i) \<or> m = None \<and> mutex s = Some i \<or> m = mutex s \<and> mutex s \<noteq> Some i"
    and k: "k = card (waiting N s')" "k < N"
  shows "barrier_inv N s'"
proof -
  have "thread_ok s' j" if "j < N" "j \<noteq> i" for j
    using I that it [OF that(2)] by (cases "loc s j") (auto simp: barrier_inv_def thread_ok_def s' goto_def)
  then have "\<forall>j<N. thread_ok s' j" using ok by metis
  moreover have "(loc s' j = Count \<or> loc s' j = Unlock) = (mutex s' = Some j)" if "j < N" for j
    using I that mx i by (cases "j = i") (auto simp: barrier_inv_def s' goto_def)
  moreover have "j < N" if "mutex s' = Some j" for j
    using I that mx i by (auto simp: barrier_inv_def s' goto_def)
  moreover have "nthread_in s' = k" by (simp add: s' goto_def)
  ultimately show ?thesis using k unfolding barrier_inv_def by blast
qed

lemma barrier_inv_step:
  assumes I: "barrier_inv N s" and i: "i < N" and st: "thread N i s = Some s'"
  shows "barrier_inv N s'"
proof -
  have t: "thread_ok s i" and m: "(loc s i = Count \<or> loc s i = Unlock) = (mutex s = Some i)"
    and n: "nthread_in s = card (waiting N s)" "nthread_in s < N" using I i by (auto simp: barrier_inv_def)
  note u = barrier_inv_local [OF I i]
  have w: "waiting N s' = waiting N s" if "s' = goto i l (s\<lparr>mutex := m, iter := it, nthread_in := k\<rparr>)" "loc s i \<noteq> Wait" "l \<noteq> Wait" for l m it k
    using that by (auto simp: waiting_def goto_def)
  show ?thesis
  proof (cases "loc s i")
    case Check
    then have s': "s' = goto i Lock (s\<lparr>mutex := mutex s, iter := iter s, nthread_in := nthread_in s\<rparr>)" "iter s i < ROUNDS"
      using st t by (auto simp: thread_def thread_ok_def split: if_splits)
    have "thread_ok s' i" using t Check s'(2) by (simp add: s'(1) thread_ok_def goto_def)
    then show ?thesis by (rule u [OF s'(1), rotated]) (use Check m n s'(2) w [OF s'(1)] in auto)
  next
    case Lock
    then have s': "s' = goto i Count (s\<lparr>mutex := Some i, iter := iter s, nthread_in := nthread_in s\<rparr>)" "mutex s = None"
      using st by (auto simp: thread_def barrier_def split: if_splits)
    have "thread_ok s' i" using t Lock s'(2) by (simp add: s'(1) thread_ok_def goto_def)
    then show ?thesis by (rule u [OF s'(1), rotated]) (use Lock m n s'(2) w [OF s'(1)] in auto)
  next
    case Count
    show ?thesis
    proof (cases "nthread_in s + 1 < N")
      case True
      then have s': "s' = goto i Wait (s\<lparr>mutex := None, iter := iter s, nthread_in := nthread_in s + 1\<rparr>)"
        using st Count by (auto simp: thread_def barrier_def)
      have "waiting N s' = insert i (waiting N s)" "i \<notin> waiting N s" using i Count by (auto simp: s' waiting_def goto_def)
      moreover have "thread_ok s' i" using t Count by (simp add: s' thread_ok_def goto_def)
      ultimately show ?thesis by (intro u [OF s']) (use Count m n True in auto)
    next
      case False
      then show ?thesis using st Count barrier_inv_last [OF I i Count False] by (simp add: thread_def barrier_def)
    qed
  next
    case Woken
    then have s': "s' = goto i Unlock (s\<lparr>mutex := Some i, iter := iter s, nthread_in := nthread_in s\<rparr>)" "mutex s = None"
      using st by (auto simp: thread_def barrier_def split: if_splits)
    have "thread_ok s' i" using t Woken s'(2) by (simp add: s'(1) thread_ok_def goto_def)
    then show ?thesis by (rule u [OF s'(1), rotated]) (use Woken m n s'(2) w [OF s'(1)] in auto)
  next
    case Unlock
    then have s': "s' = goto i Check (s\<lparr>mutex := None, iter := (iter s)(i := iter s i + 1), nthread_in := nthread_in s\<rparr>)"
      using st by (auto simp: thread_def barrier_def)
    have "thread_ok s' i" using t Unlock  by (simp add: s' thread_ok_def goto_def)
    then show ?thesis by (rule u [OF s', rotated]) (use Unlock m n  w [OF s'] in auto)
  qed (use st in \<open>auto simp: thread_def barrier_def\<close>)
qed

lemma barrier_reach_inv:
  assumes "barrier_reach False N s" and "0 < N"
  shows "barrier_inv N s"
  using assms
proof (induction rule: barrier_reach.induct)
  case br_init
  have "waiting N barrier_init = {}" by (simp add: waiting_def barrier_init_def)
  then show ?case using br_init by (simp add: barrier_inv_def) (simp add: barrier_init_def thread_ok_def)
qed (auto intro: barrier_inv_step)

lemma barrier_progress:
  assumes I: "barrier_inv N s" and N: "0 < N"
  shows "(\<exists>i<N. thread N i s \<noteq> None) \<or> (\<forall>i<N. loc s i = Check \<and> iter s i = ROUNDS)"
proof (rule ccontr)
  assume not: "\<not> ?thesis"
  then have stuck: "thread N i s = None" if "i < N" for i using that by auto
  have t: "thread_ok s j" if "j < N" for j using I that by (simp add: barrier_inv_def)
  have "mutex s = None"
  proof (rule ccontr)
    assume "mutex s \<noteq> None"
    then obtain j where "j < N" "loc s j = Count \<or> loc s j = Unlock" using I by (auto simp: barrier_inv_def)
    then show False using stuck [of j] by (auto simp: thread_def barrier_def split: if_splits)
  qed
  then have l: "loc s j = Wait \<or> loc s j = Check \<and> iter s j = ROUNDS" if "j < N" for j
    using stuck [OF that] t [OF that] by (cases "loc s j") (auto simp: thread_def barrier_def thread_ok_def split: if_splits)
  obtain j where j: "j < N" "loc s j = Wait" using not l by auto
  have "loc s i = Wait" if "i < N" for i using l [OF that] t [OF that] t [OF j(1)] j(2) by (auto simp: thread_ok_def)
  then have "waiting N s = {..<N}" by (auto simp: waiting_def)
  then show False using I by (auto simp: barrier_inv_def)
qed

text \<open>
  C32: without spurious wakeups the assertion of \<open>thread\<close> holds in every interleaving, every thread is in
  the current round or still leaving the one before it, so that nobody passes the barrier before
  all have entered it, and the threads do not get stuck before they have done all rounds.
\<close>

theorem barrier_synchronises:
  assumes "barrier_reach False N s" and "0 < N"
  shows "(\<forall>i. i < N \<longrightarrow> loc s i \<noteq> Failed \<and> iter s i \<le> bround s \<and> bround s \<le> iter s i + 1) \<and>
    ((\<exists>i<N. thread N i s \<noteq> None) \<or> (\<forall>i<N. loc s i = Check \<and> iter s i = ROUNDS))"
proof
  show "\<forall>i. i < N \<longrightarrow> loc s i \<noteq> Failed \<and> iter s i \<le> bround s \<and> bround s \<le> iter s i + 1"
  proof (intro allI impI)
    fix i assume "i < N"
    then have "thread_ok s i" using barrier_reach_inv [OF assms] by (simp add: barrier_inv_def)
    then show "loc s i \<noteq> Failed \<and> iter s i \<le> bround s \<and> bround s \<le> iter s i + 1"
      by (cases "loc s i") (auto simp: thread_ok_def)
  qed
qed (rule barrier_progress [OF barrier_reach_inv [OF assms] assms(2)])

theorem barrier_synchronises_witness:
  "let s = goto 0 Lock barrier_init in loc s 0 \<noteq> Failed \<and> iter s 0 \<le> bround s \<and> bround s \<le> iter s 0 + 1"
proof -
  have "thread 2 0 barrier_init = Some (goto 0 Lock barrier_init)"
    by (simp add: thread_def barrier_init_def ROUNDS_def)
  then have "barrier_reach False 2 (goto 0 Lock barrier_init)" by (intro br_step [OF br_init]) auto
  from barrier_synchronises [OF this] show ?thesis by (simp add: Let_def)
qed

text \<open>
  C33: a condition variable that wakes a thread without a broadcast, which POSIX allows, breaks the
  barrier: \<open>barrier\<close> does not test the round again, and the assertion of \<open>thread\<close> can fail.
\<close>

theorem barrier_spurious_wakeup: "\<exists>s. barrier_reach True 2 s \<and> loc s 0 = Failed"
proof -
  let ?b = "\<lambda>l m n k. \<lparr>mutex = m, nthread_in = n, bround = 0, iter = (\<lambda>_. 0)(0 := k), loc = (\<lambda>_. Check)(0 := l)\<rparr>"
  note ev = thread_def barrier_def goto_def ROUNDS_def
  have st: "barrier_reach True 2 s \<Longrightarrow> thread 2 0 s = Some s' \<Longrightarrow> barrier_reach True 2 s'" for s s' by (rule br_step) auto
  have "barrier_init = ?b Check None 0 0" by (simp add: barrier_init_def fun_eq_iff)
  then have "barrier_reach True 2 (?b Check None 0 0)" using br_init [of True 2] by simp
  from st [OF this, of "?b Lock None 0 0"] have "barrier_reach True 2 (?b Lock None 0 0)" by (simp add: ev)
  from st [OF this, of "?b Count (Some 0) 0 0"] have "barrier_reach True 2 (?b Count (Some 0) 0 0)" by (simp add: ev)
  from st [OF this, of "?b Wait None 1 0"] have "barrier_reach True 2 (?b Wait None 1 0)" by (simp add: ev)
  from br_spurious [OF this, of 0] have "barrier_reach True 2 (?b Woken None 1 0)" by (simp add: ev)
  from st [OF this, of "?b Unlock (Some 0) 1 0"] have "barrier_reach True 2 (?b Unlock (Some 0) 1 0)" by (simp add: ev)
  from st [OF this, of "?b Check None 1 1"] have "barrier_reach True 2 (?b Check None 1 1)" by (simp add: ev)
  from st [OF this, of "?b Failed None 1 1"] have "barrier_reach True 2 (?b Failed None 1 1)" by (simp add: ev)
  then show ?thesis by (intro exI [of _ "?b Failed None 1 1"]) simp
qed

end
