(* ===== verification/Grep.thy ===== *)
theory Grep
  imports Prelude
begin

text \<open>
  The search program, \<^verbatim>\<open>user/grep.c\<close>: the pattern matcher of Kernighan and Pike and the loop that cuts
  the input into lines. A C string is the list of its characters before the terminating NUL. The
  specification reads a pattern as a list of items and says which texts they match.
\<close>

abbreviation CARET :: u8 where "CARET \<equiv> 0x5e"
abbreviation DOLLAR :: u8 where "DOLLAR \<equiv> 0x24"
abbreviation STAR :: u8 where "STAR \<equiv> 0x2a"
abbreviation DOT :: u8 where "DOT \<equiv> 0x2e"
abbreviation NL :: u8 where "NL \<equiv> 0x0a"

section \<open>The matcher\<close>

function matchhere :: "u8 list \<Rightarrow> u8 list \<Rightarrow> bool"
and matchstar :: "u8 \<Rightarrow> u8 list \<Rightarrow> u8 list \<Rightarrow> bool" where
  "matchhere re text =
     (if re = [] then True
      else if tl re \<noteq> [] \<and> hd (tl re) = STAR then matchstar (hd re) (tl (tl re)) text
      else if hd re = DOLLAR \<and> tl re = [] then text = []
      else if text \<noteq> [] \<and> (hd re = DOT \<or> hd re = hd text) then matchhere (tl re) (tl text)
      else False)"
| "matchstar c re text =
     (if matchhere re text then True
      else if text \<noteq> [] \<and> (hd text = c \<or> c = DOT) then matchstar c re (tl text)
      else False)"
  by pat_completeness auto

termination
  by (relation "measure (\<lambda>x. case x of Inl (re, t) \<Rightarrow> 2 * (length re + length t)
       | Inr (c, re, t) \<Rightarrow> 2 * (length re + length t) + 1)")
    (auto simp: neq_Nil_conv)

declare matchhere.simps [simp del] matchstar.simps [simp del]

text \<open>The loop of \<open>match\<close> over the suffixes of the text, the empty one included.\<close>

fun match_from :: "u8 list \<Rightarrow> u8 list \<Rightarrow> bool" where
  "match_from re [] = matchhere re []"
| "match_from re (c # text) = (matchhere re (c # text) \<or> match_from re text)"

definition match_re :: "u8 list \<Rightarrow> u8 list \<Rightarrow> bool" where
  "match_re re text =
     (if re \<noteq> [] \<and> hd re = CARET then matchhere (tl re) text else match_from re text)"

section \<open>What a pattern means\<close>

text \<open>A character class is one character, or any (\<open>None\<close>).\<close>

datatype item = One "u8 option" | Many "u8 option" | Eol

definition cls :: "u8 \<Rightarrow> u8 option" where
  "cls c = (if c = DOT then None else Some c)"

fun items :: "u8 list \<Rightarrow> item list" where
  "items [] = []"
| "items [c] = (if c = DOLLAR then [Eol] else [One (cls c)])"
| "items (c # d # re) = (if d = STAR then Many (cls c) # items re else One (cls c) # items (d # re))"

fun in_cls :: "u8 option \<Rightarrow> u8 \<Rightarrow> bool" where
  "in_cls None x = True"
| "in_cls (Some c) x = (x = c)"

text \<open>\<open>matches is w r\<close>: the items match exactly \<open>w\<close>, where \<open>r\<close> follows.\<close>

inductive matches :: "item list \<Rightarrow> u8 list \<Rightarrow> u8 list \<Rightarrow> bool" where
  m_nil: "matches [] [] r"
| m_one: "in_cls c x \<Longrightarrow> matches its w r \<Longrightarrow> matches (One c # its) (x # w) r"
| m_many: "\<forall>x\<in>set u. in_cls c x \<Longrightarrow> matches its w r \<Longrightarrow> matches (Many c # its) (u @ w) r"
| m_eol: "matches its [] [] \<Longrightarrow> matches (Eol # its) [] []"

inductive_cases matches_nilE: "matches [] w r"
inductive_cases matches_oneE: "matches (One c # its) w r"
inductive_cases matches_manyE: "matches (Many c # its) w r"
inductive_cases matches_eolE: "matches (Eol # its) w r"

definition matches_prefix :: "item list \<Rightarrow> u8 list \<Rightarrow> bool" where
  "matches_prefix its t \<longleftrightarrow> (\<exists>w r. t = w @ r \<and> matches its w r)"

lemma prefix_nil: "matches_prefix [] t"
  unfolding matches_prefix_def using m_nil by (intro exI [of _ "[]"] exI [of _ t]) simp

lemma prefix_one: "matches_prefix (One c # its) t \<longleftrightarrow> (\<exists>x t'. t = x # t' \<and> in_cls c x \<and> matches_prefix its t')"
proof
  assume "matches_prefix (One c # its) t"
  then obtain w r where h: "t = w @ r" "matches (One c # its) w r" unfolding matches_prefix_def by blast
  from h(2) obtain x w' where "w = x # w'" "in_cls c x" "matches its w' r" by (rule matches_oneE)
  then show "\<exists>x t'. t = x # t' \<and> in_cls c x \<and> matches_prefix its t'" using h(1) unfolding matches_prefix_def by auto
next
  assume "\<exists>x t'. t = x # t' \<and> in_cls c x \<and> matches_prefix its t'"
  then obtain x w r where h: "t = x # w @ r" "in_cls c x" "matches its w r" unfolding matches_prefix_def by blast
  then have "matches (One c # its) (x # w) r" by (intro m_one)
  then show "matches_prefix (One c # its) t" using h(1) unfolding matches_prefix_def by (metis append_Cons)
qed

lemma prefix_eol: "matches_prefix [Eol] t \<longleftrightarrow> t = []"
  unfolding matches_prefix_def by (auto elim: matches_eolE intro: m_eol m_nil)

lemma prefix_many:
  "matches_prefix (Many c # its) t \<longleftrightarrow> matches_prefix its t \<or> (\<exists>x t'. t = x # t' \<and> in_cls c x \<and> matches_prefix (Many c # its) t')"
proof
  assume "matches_prefix (Many c # its) t"
  then obtain v r where v: "t = v @ r" "matches (Many c # its) v r" unfolding matches_prefix_def by blast
  from v(2) obtain u w where h: "v = u @ w" "\<forall>x\<in>set u. in_cls c x" "matches its w r" by (rule matches_manyE)
  show "matches_prefix its t \<or> (\<exists>x t'. t = x # t' \<and> in_cls c x \<and> matches_prefix (Many c # its) t')"
  proof (cases u)
    case Nil
    then show ?thesis using h v(1) unfolding matches_prefix_def by auto
  next
    case (Cons x u')
    have "matches (Many c # its) (u' @ w) r" using h(2,3) Cons by (intro m_many) auto
    then have "matches_prefix (Many c # its) (u' @ w @ r)" unfolding matches_prefix_def by (metis append_assoc)
    then show ?thesis using h(1,2) v(1) Cons by auto
  qed
next
  assume "matches_prefix its t \<or> (\<exists>x t'. t = x # t' \<and> in_cls c x \<and> matches_prefix (Many c # its) t')"
  then show "matches_prefix (Many c # its) t"
  proof
    assume "matches_prefix its t"
    then show ?thesis unfolding matches_prefix_def using m_many [of "[]" c its] by (metis append_Nil empty_iff list.set(1))
  next
    assume "\<exists>x t'. t = x # t' \<and> in_cls c x \<and> matches_prefix (Many c # its) t'"
    then obtain x v r where v: "t = x # v @ r" "in_cls c x" "matches (Many c # its) v r" unfolding matches_prefix_def by blast
    from v(3) obtain u w where h: "v = u @ w" "\<forall>x\<in>set u. in_cls c x" "matches its w r" by (rule matches_manyE)
    have "matches (Many c # its) ((x # u) @ w) r" using h v(2) by (intro m_many) auto
    then show ?thesis unfolding matches_prefix_def using v(1) h(1) by (metis append_Cons)
  qed
qed

lemma in_cls_cls: "in_cls (cls c) x \<longleftrightarrow> c = DOT \<or> c = x"
  by (auto simp: cls_def)

lemma matchhere_prefix:
  "matchhere re t = matches_prefix (items re) t"
  "matchstar c re t = matches_prefix (Many (cls c) # items re) t"
proof (induction re t and c re t rule: matchhere_matchstar.induct)
  case (1 re t)
  consider "re = []" | c where "re = [c]" | c d re' where "re = c # d # re'" by (cases re rule: items.cases)
  then show ?case
  proof cases
    case 1
    then show ?thesis by (simp add: matchhere.simps prefix_nil)
  next
    case (2 c)
    then show ?thesis using "1.IH" by (cases t) (auto simp: matchhere.simps [of "[c]"] prefix_eol prefix_one in_cls_cls)
  next
    case (3 c d re')
    then show ?thesis
      using "1.IH" by (cases t) (auto simp: matchhere.simps [of "c # d # re'"] prefix_one in_cls_cls)
  qed
next
  case (2 c re t)
  then show ?case
    by (subst matchstar.simps, subst prefix_many, cases t) (auto simp: in_cls_cls)
qed

lemma match_from_suffix: "match_from re t \<longleftrightarrow> (\<exists>u t'. t = u @ t' \<and> matchhere re t')"
proof (induction t)
  case (Cons x t)
  have "(\<exists>u t'. x # t = u @ t' \<and> matchhere re t') \<longleftrightarrow> matchhere re (x # t) \<or> (\<exists>u t'. t = u @ t' \<and> matchhere re t')"
    by (metis append_Cons append_Nil append_eq_Cons_conv)
  then show ?case using Cons by simp
qed simp

text \<open>
  C35: the matcher decides the meaning of the pattern: a text matches if the items of the pattern
  match some part of it, at its beginning for a pattern with a caret; \<open>$\<close> matches only at the end.
\<close>

theorem match_re_correct:
  "match_re re t \<longleftrightarrow>
     (if re \<noteq> [] \<and> hd re = CARET then \<exists>w r. t = w @ r \<and> matches (items (tl re)) w r
      else \<exists>u w r. t = u @ w @ r \<and> matches (items re) w r)"
  by (auto simp: match_re_def match_from_suffix matchhere_prefix matches_prefix_def)

section \<open>The lines of the input\<close>

text \<open>\<^verbatim>\<open>strchr\<close> on the characters up to the terminating NUL of the buffer, as an index.\<close>

fun strchr_at :: "u8 \<Rightarrow> u8 list \<Rightarrow> nat option" where
  "strchr_at c [] = None"
| "strchr_at c (x # xs) = (if x = 0 then None else if x = c then Some 0 else map_option Suc (strchr_at c xs))"

lemma strchr_at_lt: "strchr_at c xs = Some k \<Longrightarrow> k < length xs"
  by (induction xs arbitrary: k) (auto split: if_splits)

text \<open>The inner loop of \<open>grep\<close>: \<open>bs\<close> is the buffer from \<open>p\<close> on; the rest and the output.\<close>

function grep_lines :: "u8 list \<Rightarrow> u8 list \<Rightarrow> u8 list \<Rightarrow> u8 list \<times> u8 list" where
  "grep_lines pattern bs out =
     (case strchr_at NL bs of
        None \<Rightarrow> (bs, out)
      | Some k \<Rightarrow> grep_lines pattern (drop (k + 1) bs)
                   (if match_re pattern (take k bs) then out @ take (k + 1) bs else out))"
  by pat_completeness auto

termination grep_lines
  by (relation "measure (\<lambda>(p, bs, out). length bs)") (auto dest: strchr_at_lt)

declare grep_lines.simps [simp del]

text \<open>
  The outer loop. \<open>held\<close> are the \<open>m\<close> bytes at the start of the buffer, \<open>inp\<close> the bytes of the file not
  yet read; \<open>rd n inp\<close> is the number of bytes a \<^verbatim>\<open>read\<close> of \<open>n\<close> bytes delivers.
\<close>

function grep_loop :: "(nat \<Rightarrow> u8 list \<Rightarrow> nat) \<Rightarrow> u8 list \<Rightarrow> u8 list \<Rightarrow> u8 list \<Rightarrow> u8 list \<Rightarrow> u8 list" where
  "grep_loop rd pattern held inp out =
     (let c = take (rd (1023 - length held) inp) inp in
      if c = [] then out
      else let (rest, out') = grep_lines pattern (held @ c) out
           in grep_loop rd pattern rest (drop (length c) inp) out')"
  by pat_completeness auto

termination grep_loop
  by (relation "measure (\<lambda>(rd, p, held, inp, out). length inp)") (auto simp: neq_Nil_conv)

declare grep_loop.simps [simp del]

definition grep :: "(nat \<Rightarrow> u8 list \<Rightarrow> nat) \<Rightarrow> u8 list \<Rightarrow> u8 list \<Rightarrow> u8 list" where
  "grep rd pattern inp = grep_loop rd pattern [] inp []"

text \<open>The input cut at its newlines; the last piece is not ended by one.\<close>

fun pieces :: "u8 list \<Rightarrow> u8 list list" where
  "pieces [] = [[]]"
| "pieces (x # xs) = (if x = NL then [] # pieces xs else (x # hd (pieces xs)) # tl (pieces xs))"

lemma pieces_nonempty [simp]: "pieces xs \<noteq> []"
  by (cases xs) auto

lemma pieces_nl: "NL \<notin> set xs \<Longrightarrow> pieces (xs @ NL # ys) = xs # pieces ys"
  by (induction xs) auto

lemma pieces_one: "NL \<notin> set xs \<Longrightarrow> pieces xs = [xs]"
  by (induction xs) auto

lemma pieces_append: "pieces (xs @ ys) = butlast (pieces xs) @ pieces (last (pieces xs) @ ys)"
proof (induction xs)
  case (Cons x xs)
  show ?case
  proof (cases "x = NL")
    case True
    then show ?thesis using Cons by simp
  next
    case False
    then show ?thesis using Cons by (cases "pieces xs") auto
  qed
qed simp

lemma last_pieces_no_nl: "NL \<notin> set (last (pieces xs))"
proof (induction xs)
  case (Cons x xs)
  then show ?case by (cases "pieces xs") auto
qed simp

lemma set_last_pieces: "set (last (pieces xs)) \<subseteq> set xs"
proof (induction xs)
  case (Cons x xs)
  then show ?case by (cases "pieces xs") auto
qed simp

lemma hd_pieces: "NL \<notin> set xs \<Longrightarrow> hd (pieces (xs @ ys)) = xs @ hd (pieces ys)"
  by (induction xs) auto

definition matching_lines :: "u8 list \<Rightarrow> u8 list list \<Rightarrow> u8 list" where
  "matching_lines pattern ls = concat (map (\<lambda>l. l @ [NL]) (filter (match_re pattern) ls))"

lemma strchr_at_None: "0 \<notin> set bs \<Longrightarrow> strchr_at c bs = None \<longleftrightarrow> c \<notin> set bs"
  by (induction bs) auto

lemma strchr_at_Some: "strchr_at c bs = Some k \<Longrightarrow> bs = take k bs @ c # drop (k + 1) bs \<and> c \<notin> set (take k bs)"
  by (induction bs arbitrary: k) (auto split: if_splits)

lemma grep_lines_eq:
  "0 \<notin> set bs \<Longrightarrow> grep_lines pattern bs out = (last (pieces bs), out @ matching_lines pattern (butlast (pieces bs)))"
proof (induction "length bs" arbitrary: bs out rule: less_induct)
  case less
  show ?case
  proof (cases "strchr_at NL bs")
    case None
    then have "NL \<notin> set bs" using less.prems strchr_at_None by blast
    then show ?thesis using None by (simp add: grep_lines.simps [of pattern bs] pieces_one matching_lines_def)
  next
    case (Some k)
    let ?l = "take k bs" and ?r = "drop (k + 1) bs"
    have e: "bs = ?l @ NL # ?r" "NL \<notin> set ?l" using strchr_at_Some [OF Some] by auto
    have p: "pieces bs = ?l # pieces ?r" using pieces_nl [OF e(2), of ?r] e(1) by simp
    have t: "take (k + 1) bs = ?l @ [NL]" using e(1) strchr_at_lt [OF Some] by (metis Some strchr_at_lt take_Suc_conv_app_nth Suc_eq_plus1 nth_append_length length_take min.absorb2 less_imp_le_nat)
    have "0 \<notin> set ?r" using less.prems by (auto dest: in_set_dropD)
    from less.hyps [OF _ this] Some show ?thesis
      using strchr_at_lt [OF Some] p t by (simp add: grep_lines.simps [of pattern bs] matching_lines_def)
  qed
qed

lemma grep_loop_eq:
  assumes rd: "\<And>n inp. rd n inp \<le> n" "\<And>n inp. 0 < n \<Longrightarrow> inp \<noteq> [] \<Longrightarrow> 0 < rd n inp"
    and "0 \<notin> set (held @ inp)" "NL \<notin> set held" "\<forall>l\<in>set (pieces (held @ inp)). length l < 1023"
  shows "grep_loop rd pattern held inp out = out @ matching_lines pattern (butlast (pieces (held @ inp)))"
  using assms(3-5)
proof (induction "length inp" arbitrary: held inp out rule: less_induct)
  case less
  let ?c = "take (rd (1023 - length held) inp) inp"
  show ?case
  proof (cases "?c = []")
    case True
    have "length (hd (pieces (held @ inp))) < 1023" using less.prems(3) by simp
    then have "length held < 1023" using hd_pieces [OF less.prems(2), of inp] by simp
    then have "inp = []" using True rd(2) [of "1023 - length held" inp] by (cases "inp = []") auto
    then show ?thesis using True pieces_one [OF less.prems(2)] by (simp add: grep_loop.simps [of rd pattern held] matching_lines_def)
  next
    case False
    let ?i = "drop (length ?c) inp" and ?b = "held @ ?c" 
    have b: "?b @ ?i = held @ inp" by (simp add: min_def)
    have z: "0 \<notin> set ?b" using less.prems(1) by (auto dest: in_set_takeD)
    have p: "pieces (held @ inp) = butlast (pieces ?b) @ pieces (last (pieces ?b) @ ?i)"
      using pieces_append [of ?b ?i] b by simp
    have "length ?i < length inp" using False by (cases inp) auto
    then have ih: "grep_loop rd pattern (last (pieces ?b)) ?i out' =
        out' @ matching_lines pattern (butlast (pieces (last (pieces ?b) @ ?i)))" for out'
    proof (rule less.hyps)
      show "0 \<notin> set (last (pieces ?b) @ ?i)" using less.prems(1) z set_last_pieces [of ?b] by (auto dest: in_set_dropD)
      show "\<forall>l\<in>set (pieces (last (pieces ?b) @ ?i)). length l < 1023" using less.prems(3) unfolding p by auto
    qed (rule last_pieces_no_nl)
    show ?thesis
      using False grep_lines_eq [OF z, of pattern out] ih
      by (simp add: grep_loop.simps [of rd pattern held] p butlast_append matching_lines_def Let_def)
  qed
qed

text \<open>
  C36: on an input without NUL whose lines fit the buffer, \<open>grep\<close> prints exactly the complete lines
  that match, in order, however the reads cut the input.
\<close>

theorem grep_prints_matching_lines:
  assumes "\<And>n inp. rd n inp \<le> n" and "\<And>n inp. 0 < n \<Longrightarrow> inp \<noteq> [] \<Longrightarrow> 0 < rd n inp"
    and "0 \<notin> set inp" and "\<forall>l\<in>set (pieces inp). length l < 1023"
  shows "grep rd pattern inp =
    concat (map (\<lambda>l. l @ [NL]) (filter (match_re pattern) (butlast (pieces inp))))"
  using grep_loop_eq [of rd "[]" inp pattern "[]"] assms by (simp add: grep_def matching_lines_def)

theorem grep_prints_matching_lines_witness:
  "grep (\<lambda>n inp. min n 2) [CARET, 0x61, DOT, STAR] [0x61, 0x62, NL, 0x62, NL, 0x61, NL, 0x61] = [0x61, 0x62, NL, 0x61, NL]"
proof -
  let ?i = "[0x61, 0x62, NL, 0x62, NL, 0x61, NL, 0x61]"
  have "grep (\<lambda>n inp. min n 2) [CARET, 0x61, DOT, STAR] ?i =
    concat (map (\<lambda>l. l @ [NL]) (filter (match_re [CARET, 0x61, DOT, STAR]) (butlast (pieces ?i))))"
    by (rule grep_prints_matching_lines) auto
  also have "\<dots> = [0x61, 0x62, NL, 0x61, NL]" by code_simp
  finally show ?thesis .
qed

end
