(* ===== verification/Spec2Isabelle.thy ===== *)
theory Spec2Isabelle
  imports Vm_Ops Log_Commit Fs_Layout Fs_Share Proc_Exit Exec Sched_Wake Trap Printf Virtio_Inv
    Cow Percpu Alarm Uthread Barrier Grep
begin

text \<open>
  A verification development of the xv6 teaching kernel with the course labs. The repository holds one
  complete kernel under \<^verbatim>\<open>src/file system/kernel\<close>, which is the program modelled here (\<^verbatim>\<open>kernel/\<close> below), a
  second copy of it with \<^verbatim>\<open>mmap\<close>, and fragments of the same kernel for other labs. This theory only
  collects the others; every property stands in the theory of the component it is about.

  \<^bold>\<open>The program and its model.\<close>

  \<^item> \<open>Prelude\<close>: machine integers (\<open>u8\<close>, \<open>u16\<close>, \<open>u32\<close>, \<open>u64\<close> as words), the type \<open>outcome\<close> of code that can panic
    or block, and the lemmas on words, lists and \<open>first_from\<close> (the first index of a bounded loop) that
    the components share.
  \<^item> \<open>Memory\<close>: \<^verbatim>\<open>kernel/string.c\<close> on a memory that maps every 64-bit address to a byte. \<open>Riscv\<close>:
    \<^verbatim>\<open>kernel/riscv.h\<close>, \<^verbatim>\<open>kernel/memlayout.h\<close>.
  \<^item> \<open>Kalloc\<close>: \<^verbatim>\<open>kernel/kalloc.c\<close>; the free list runs through the free pages. The locale \<open>page_allocator\<close> is
    what the rest of the kernel needs of it; it is interpreted here and for the counting allocator of
    \<open>Cow\<close>.
  \<^item> \<open>Vm\<close>, \<open>Vm_Table\<close>, \<open>Vm_Map\<close>, \<open>Vm_Ops\<close>: \<^verbatim>\<open>kernel/vm.c\<close>. \<open>Vm\<close> has the code, \<open>Vm_Table\<close> the meaning of a table in
    memory and its invariant, the other two that \<open>mappages\<close> and \<open>uvmunmap\<close> change exactly the
    translations they are asked to and account for every page.
  \<^item> \<open>Locks\<close>: \<^verbatim>\<open>kernel/spinlock.c\<close>, \<^verbatim>\<open>kernel/sleeplock.c\<close>, as functions and as a machine of all CPUs whose steps
    are single memory accesses: mutual exclusion.
  \<^item> \<open>Bio\<close>, \<open>Bio_Cache\<close>: \<^verbatim>\<open>kernel/bio.c\<close>. The first has the pointer updates of the recency list, the second
    the contract: \<open>bview\<close> is what a reader of a block sees, \<open>hold\<close> which blocks are locked and pinned.
  \<^item> \<open>Bytes\<close>, \<open>Log\<close>, \<open>Log_Commit\<close>: little-endian fields and \<^verbatim>\<open>kernel/log.c\<close>. Every write to the disk is recorded,
    so that a crash can fall between any two; recovery makes a transaction all or nothing.
  \<^item> \<open>Fs\<close>, \<open>Fs_Layout\<close>, \<open>Fs_Read\<close>, \<open>Fs_Write\<close>, \<open>Fs_Share\<close>, \<open>Fs_Frame\<close>: \<^verbatim>\<open>kernel/fs.c\<close>. The code; the formats of inodes, directory
    entries and paths; the bytes of a file, which \<open>readi\<close> delivers and \<open>writei\<close> replaces; the
    allocation of blocks in a transaction; what the file
    system leaves alone in the kernel state.
  \<^item> \<open>Ring\<close>, \<open>Pipe\<close>: \<^verbatim>\<open>kernel/pipe.c\<close> on the locale of a ring with wrapping counters, which \<open>Console\<close> uses too.
  \<^item> \<open>Kstate\<close>, \<open>File\<close>, \<open>Refs\<close>: \<^verbatim>\<open>kernel/proc.h\<close>, \<^verbatim>\<open>kernel/file.h\<close>, \<^verbatim>\<open>kernel/file.c\<close>; the locale \<open>ref_table\<close> of reference
    counts is interpreted for the inode table and the file table.
  \<^item> \<open>Proc\<close>, \<open>Proc_Life\<close>, \<open>Proc_Exit\<close>: \<^verbatim>\<open>kernel/proc.c\<close> one call at a time: \<open>fork\<close>, \<open>exit\<close>, \<open>wait\<close>, \<open>kill\<close>, \<open>growproc\<close>.
  \<^item> \<open>Sched\<close>, \<open>Sched_Inv\<close>, \<open>Sched_Wake\<close>: the same file with all CPUs: \<open>scheduler\<close>, \<open>sched\<close>, \<open>yield\<close>, \<open>sleep\<close>, \<open>wakeup\<close> with
    the callers that sleep and wake, as a machine that interleaves at every lock operation, and its
    invariant in the manner of Owicki and Gries.
  \<^item> \<open>Syscall\<close>, \<open>Sysfile\<close>, \<open>Exec\<close>, \<open>Trap\<close>: \<^verbatim>\<open>kernel/syscall.c\<close>, \<^verbatim>\<open>kernel/sysproc.c\<close>, \<^verbatim>\<open>kernel/sysfile.c\<close>, \<^verbatim>\<open>kernel/exec.c\<close>,
    \<^verbatim>\<open>kernel/trap.c\<close>: system calls from the trap to the return to user space. What happens to a process
    while \<open>yield\<close> keeps it off the CPU is a parameter of \<open>usertrap\<close>.
  \<^item> \<open>Console\<close>, \<open>Printf\<close>: \<^verbatim>\<open>kernel/console.c\<close>, \<^verbatim>\<open>kernel/uart.c\<close>, \<^verbatim>\<open>kernel/printf.c\<close>. \<open>Virtio\<close>, \<open>Virtio_Inv\<close>:
    \<^verbatim>\<open>kernel/virtio_disk.c\<close> with a device that completes requests in any order and with any status.
  \<^item> \<open>Cow\<close>: \<^verbatim>\<open>copy-to-fork/kalloc.c\<close>. \<open>Percpu\<close>: \<^verbatim>\<open>locks/kalloc.c\<close>. \<open>Alarm\<close>: the alarms of \<^verbatim>\<open>traps/\<close>. \<open>Uthread\<close>,
    \<open>Barrier\<close>: \<^verbatim>\<open>thread/uthread.c\<close>, \<^verbatim>\<open>thread/notxv6/barrier.c\<close>. \<open>Grep\<close>: \<^verbatim>\<open>user/grep.c\<close>.

  The states are records that extend each other in the order in which the code calls: the buffer
  cache \<open>bstate\<close>, the log \<open>lstate\<close>, the file system \<open>fstate\<close>, the kernel \<open>kstate\<close>. A routine of a lower layer
  is polymorphic in the extension, so that what it leaves alone holds by its type or by \<open>Fs_Frame\<close>.

  \<^bold>\<open>How the code is rendered.\<close> A call returns an \<open>outcome\<close>: \<open>Ok\<close>, \<open>Panic\<close> with the message of the code, or
  \<open>Blocked\<close> where the code would wait for a lock or sleep inside the file system. Calls that sleep at the
  top level return \<open>Sleeps\<close> with the state reached. Unsigned integers of the code, its counters and
  addresses among them, keep their width and wrap around; counts declared \<^verbatim>\<open>int\<close> are unbounded integers (process
  numbers and \<^verbatim>\<open>nextpid\<close>, the reference counts of inodes, files, buffers and shared pages, \<^verbatim>\<open>noff\<close>), so that
  their overflow is not covered. Loops over tables run for the size of the table. Bounds that are not in
  the code: the walk over the buffer list in \<open>bget\<close> has fuel for the \<open>NBUF\<close> buffers and the list head, the
  freeing of a descriptor chain for \<open>NUM\<close> descriptors; both are shown to be enough by the
  invariants. \<open>open_follow\<close> ends by its own limit of 20 links. The search for the middle of a free list in
  \<open>Percpu\<close> is a partial function that is shown to return. Everything else is total with its own
  termination proof.

  Parameters stand for what is not C code of the kernel: the symbols of the linker (\<open>syms\<close>), the console
  and disk devices, the result of \<^verbatim>\<open>read\<close> in \<open>grep\<close>, the contents of an uninitialised stack buffer in
  \<open>sys_open\<close>. The context switches \<^verbatim>\<open>swtch\<close> and \<^verbatim>\<open>thread_switch\<close> exchange register sets.

  \<^bold>\<open>What is shown.\<close> Scheduling: no panic except that of the first process calling \<open>exit\<close>, no process on two CPUs, no lost wakeup, no lost exit, in every
  interleaving. Spin locks: mutual exclusion and no panic. The disk: crash atomicity of a
  transaction; the cache, the inode operations and the driver move exactly the bytes asked for; the
  driver panics only when the device reports an error. Memory:
  page tables and allocators lose no page and hand none out twice (the
  allocator of \<open>Percpu\<close> for calls that do not overlap). Processes and files: reference
  counts are the numbers of references; \<open>fork\<close>, \<open>exit\<close> and \<open>wait\<close> keep to their protocol. Traps return to
  user mode with the registers set up, after a \<open>yield\<close> or a sleep too. The rings of pipe, console and serial
  line are queues, except that a faulting reader of a pipe loses a byte;
  printing and parsing of formats are inverse. Several theorems show where the code goes wrong: \<open>kill\<close>
  of process 0, the doubly indirect block that is never allocated, so that files share blocks, an alarm that is one tick late
  or never comes, a barrier that a spurious wakeup passes.

  \<^bold>\<open>Not modelled.\<close> The assembly files and the boot code (\<^verbatim>\<open>entry.S\<close>, \<^verbatim>\<open>start.c\<close>, \<^verbatim>\<open>main.c\<close>, \<^verbatim>\<open>plic.c\<close>, the set-up of
  the devices), which are sequences of register accesses; the kernel's own page table (\<open>kvmmake\<close>); the
  second copy of the kernel under \<^verbatim>\<open>src/mmap\<close>; the other lab variants of files that are modelled once
  (\<^verbatim>\<open>lazys\<close>, \<^verbatim>\<open>pgtbl\<close>, \<^verbatim>\<open>copy-to-fork/vm.c\<close>, \<^verbatim>\<open>locks/bio.c\<close>); the network driver, whose packet buffers are not in
  the repository; the hash table exercise; the user programs other than \<open>grep\<close>, which only issue
  system calls, with their library; generated files. Weak memory is not modelled: accesses of
  different CPUs interleave. Sequential models take a call as one step where the code holds the lock
  of the data throughout; the interleaving machines are those of \<open>Locks\<close>, \<open>Sched\<close>, \<open>Virtio\<close> and \<open>Barrier\<close>.
\<close>

end
